(* ===== verification/Prelude.thy ===== *)
theory Prelude
  imports Main "HOL-Library.Word"
begin

text \<open>
  Shared vocabulary of the development: the Rust standard-library operations the sources use
  (checked indexing, \<open>find_map\<close>, \<open>filter_map\<close>, \<open>position\<close>, decimal formatting, \<open>as\<close> casts,
  \<open>str::trim\<close>), as HOL functions with the lemmas the component proofs rely on.

  Integers. The workspace builds with \<^verbatim>\<open>overflow-checks = true\<close> (Cargo.toml), so an
  arithmetic overflow panics instead of wrapping. Counters are therefore \<open>nat\<close> (unsigned) or
  \<open>int\<close> (signed); a sum that an input value can push over its type returns \<open>None\<close>, the panic.
  The \<open>as\<close> casts, which never panic, are written out.
\<close>

named_theorems res_simps \<open>equations of the result and option combinators\<close>

type_synonym u8 = "8 word"
type_synonym bytes = "u8 list"

abbreviation (input) u64_max :: nat where "u64_max \<equiv> 18446744073709551615"
abbreviation (input) i64_max :: int where "i64_max \<equiv> 9223372036854775807"
abbreviation (input) i64_min :: int where "i64_min \<equiv> -9223372036854775808"

section \<open>Results\<close>

text \<open>\<open>Inl\<close> is the error, \<open>Inr\<close> the value; \<open>bind_res\<close> is the \<open>?\<close> operator.\<close>

definition bind_res :: "'e + 'a \<Rightarrow> ('a \<Rightarrow> 'e + 'b) \<Rightarrow> 'e + 'b" where
  "bind_res r f = (case r of Inl e \<Rightarrow> Inl e | Inr a \<Rightarrow> f a)"

lemma bind_res_simps [simp, res_simps]:
  "bind_res (Inl e) f = Inl e"
  "bind_res (Inr a) f = f a"
  by (simp_all add: bind_res_def)

lemma bind_res_Inr_iff [res_simps]:
  "bind_res r f = Inr b \<longleftrightarrow> (\<exists>a. r = Inr a \<and> f a = Inr b)"
  by (cases r) simp_all

definition ok_or :: "'a option \<Rightarrow> 'e \<Rightarrow> 'e + 'a" where
  "ok_or x e = (case x of None \<Rightarrow> Inl e | Some a \<Rightarrow> Inr a)"

lemma ok_or_simps [simp, res_simps]:
  "ok_or None e = Inl e"
  "ok_or (Some a) e = Inr a"
  by (simp_all add: ok_or_def)

lemma ok_or_Inr_iff [res_simps]: "ok_or x e = Inr a \<longleftrightarrow> x = Some a"
  by (cases x) simp_all

definition is_ok :: "'e + 'a \<Rightarrow> bool" where
  "is_ok r = (case r of Inl _ \<Rightarrow> False | Inr _ \<Rightarrow> True)"

lemma is_ok_simps [simp]: "\<not> is_ok (Inl e)" "is_ok (Inr a)"
  by (simp_all add: is_ok_def)

lemma is_ok_iff: "is_ok r \<longleftrightarrow> (\<exists>a. r = Inr a)"
  by (cases r) simp_all

text \<open>An early \<open>return Err(..)\<close> under a guard.\<close>

lemma guard_Inr_iff [res_simps]: "(if b then Inl e else r) = Inr u \<longleftrightarrow> \<not> b \<and> r = Inr u"
  by simp

section \<open>Slices and iterators\<close>

text \<open>\<open>xs.get(i)\<close>.\<close>

fun nth_opt :: "'a list \<Rightarrow> nat \<Rightarrow> 'a option" where
  "nth_opt [] i = None"
| "nth_opt (x # xs) 0 = Some x"
| "nth_opt (x # xs) (Suc i) = nth_opt xs i"

lemma nth_opt_eq: "nth_opt xs i = (if i < length xs then Some (xs ! i) else None)"
  by (induction xs i rule: nth_opt.induct) auto

lemma nth_opt_Some_iff: "nth_opt xs i = Some x \<longleftrightarrow> i < length xs \<and> xs ! i = x"
  by (auto simp: nth_opt_eq)

lemma nth_opt_None_iff: "nth_opt xs i = None \<longleftrightarrow> length xs \<le> i"
  by (auto simp: nth_opt_eq)

lemma nth_opt_in_set: "nth_opt xs i = Some x \<Longrightarrow> x \<in> set xs"
  by (auto simp: nth_opt_Some_iff)

text \<open>\<open>xs.first()\<close>.\<close>

definition first_opt :: "'a list \<Rightarrow> 'a option" where
  "first_opt xs = nth_opt xs 0"

lemma first_opt_simps [simp]: "first_opt [] = None" "first_opt (x # xs) = Some x"
  by (simp_all add: first_opt_def)

text \<open>\<open>iter().find_map(f)\<close> and \<open>iter().filter_map(f).collect()\<close>.\<close>

fun find_map :: "('a \<Rightarrow> 'b option) \<Rightarrow> 'a list \<Rightarrow> 'b option" where
  "find_map f [] = None"
| "find_map f (x # xs) = (case f x of None \<Rightarrow> find_map f xs | Some y \<Rightarrow> Some y)"

lemma find_map_cong [fundef_cong]:
  "xs = ys \<Longrightarrow> (\<And>x. x \<in> set ys \<Longrightarrow> f x = g x) \<Longrightarrow> find_map f xs = find_map g ys"
  by (induction xs arbitrary: ys) (auto split: option.splits)

lemma find_map_None_iff: "find_map f xs = None \<longleftrightarrow> (\<forall>x \<in> set xs. f x = None)"
  by (induction xs) (auto split: option.splits)

lemma find_map_SomeD: "find_map f xs = Some y \<Longrightarrow> \<exists>x \<in> set xs. f x = Some y"
  by (induction xs) (auto split: option.splits)

fun filter_map :: "('a \<Rightarrow> 'b option) \<Rightarrow> 'a list \<Rightarrow> 'b list" where
  "filter_map f [] = []"
| "filter_map f (x # xs) = (case f x of None \<Rightarrow> filter_map f xs | Some y \<Rightarrow> y # filter_map f xs)"

lemma filter_map_cong [fundef_cong]:
  "xs = ys \<Longrightarrow> (\<And>x. x \<in> set ys \<Longrightarrow> f x = g x) \<Longrightarrow> filter_map f xs = filter_map g ys"
  by (induction xs arbitrary: ys) (auto split: option.splits)

lemma set_filter_map: "set (filter_map f xs) = {y. \<exists>x \<in> set xs. f x = Some y}"
  by (induction xs) (auto split: option.splits)

lemma in_filter_mapE:
  assumes "y \<in> set (filter_map f xs)"
  obtains x where "x \<in> set xs" "f x = Some y"
  using assms by (auto simp: set_filter_map)

lemma filter_map_append [simp]: "filter_map f (xs @ ys) = filter_map f xs @ filter_map f ys"
  by (induction xs) (auto split: option.splits)

lemma filter_map_Some [simp]: "filter_map (\<lambda>x. Some (f x)) xs = map f xs"
  by (induction xs) auto

lemma length_filter_map_le: "length (filter_map f xs) \<le> length xs"
  by (induction xs) (auto split: option.splits)

lemma distinct_filter_map:
  assumes "distinct xs"
    and "\<And>x x' y. x \<in> set xs \<Longrightarrow> x' \<in> set xs \<Longrightarrow> f x = Some y \<Longrightarrow> f x' = Some y \<Longrightarrow> x = x'"
  shows "distinct (filter_map f xs)"
  using assms
proof (induction xs)
  case Nil
  then show ?case by simp
next
  case (Cons x xs)
  then show ?case
    by (fastforce simp: set_filter_map split: option.splits)
qed

text \<open>\<open>iter().position(p)\<close>.\<close>

fun position :: "('a \<Rightarrow> bool) \<Rightarrow> 'a list \<Rightarrow> nat option" where
  "position p [] = None"
| "position p (x # xs) = (if p x then Some 0 else map_option Suc (position p xs))"

lemma position_SomeD:
  "position p xs = Some i \<Longrightarrow> i < length xs \<and> p (xs ! i) \<and> (\<forall>j < i. \<not> p (xs ! j))"
proof (induction xs arbitrary: i)
  case Nil
  then show ?case by simp
next
  case (Cons x xs)
  then show ?case
    by (auto split: if_splits simp: less_Suc_eq_0_disj)
qed

lemma position_None_iff: "position p xs = None \<longleftrightarrow> (\<forall>x \<in> set xs. \<not> p x)"
  by (induction xs) auto

lemma position_eq_SomeI:
  assumes "i < length xs" "p (xs ! i)" "\<And>j. j < i \<Longrightarrow> \<not> p (xs ! j)"
  shows "position p xs = Some i"
  using assms
proof (induction xs arbitrary: i)
  case Nil
  then show ?case by simp
next
  case (Cons x xs)
  show ?case
  proof (cases i)
    case 0
    with Cons.prems show ?thesis by simp
  next
    case (Suc k)
    with Cons.prems have "\<not> p x" by force
    moreover have "position p xs = Some k"
    proof (rule Cons.IH)
      show "k < length xs" "p (xs ! k)" using Cons.prems Suc by simp_all
      show "\<And>j. j < k \<Longrightarrow> \<not> p (xs ! j)"
        using Cons.prems(3) Suc by (metis Suc_less_eq nth_Cons_Suc)
    qed
    ultimately show ?thesis using Suc by simp
  qed
qed

section \<open>Casts\<close>

text \<open>\<open>x as i64\<close> of a \<open>u64\<close> value.\<close>

definition as_i64 :: "nat \<Rightarrow> int" where
  "as_i64 n = (if n < 2 ^ 63 then int n else int n - 2 ^ 64)"

lemma as_i64_small [simp]: "n < 2 ^ 63 \<Longrightarrow> as_i64 n = int n"
  by (simp add: as_i64_def)

text \<open>\<open>u32::try_from(x)\<close> of an \<open>i32\<close> value, \<open>i32::try_from(x)\<close> of a \<open>u32\<close> value.\<close>

definition u32_of_i32 :: "int \<Rightarrow> nat option" where
  "u32_of_i32 x = (if 0 \<le> x then Some (nat x) else None)"

definition i32_of_u32 :: "nat \<Rightarrow> int option" where
  "i32_of_u32 n = (if n < 2 ^ 31 then Some (int n) else None)"

lemma i32_of_u32_Some_iff: "i32_of_u32 n = Some i \<longleftrightarrow> n < 2 ^ 31 \<and> i = int n"
  by (auto simp: i32_of_u32_def)

section \<open>Decimal formatting\<close>

text \<open>\<open>n.to_string()\<close> and \<open>{n:06}\<close>.\<close>

fun dec :: "nat \<Rightarrow> string" where
  "dec n = (if n < 10 then [char_of (48 + n)] else dec (n div 10) @ [char_of (48 + n mod 10)])"

declare dec.simps [simp del]

definition dec_int :: "int \<Rightarrow> string" where
  "dec_int i = (if i < 0 then CHR ''-'' # dec (nat (- i)) else dec (nat i))"

definition pad6 :: "string \<Rightarrow> string" where
  "pad6 s = replicate (6 - length s) (CHR ''0'') @ s"

text \<open>\<open>{i:06}\<close> of a signed value puts the sign first and pads the digits.\<close>

definition pad6_int :: "int \<Rightarrow> string" where
  "pad6_int i = (if i < 0 then CHR ''-'' # replicate (5 - length (dec (nat (- i)))) (CHR ''0'')
       @ dec (nat (- i)) else pad6 (dec (nat i)))"

fun undec :: "string \<Rightarrow> nat" where
  "undec s = foldl (\<lambda>n c. 10 * n + (of_char c - 48)) 0 s"

declare undec.simps [simp del]

lemma of_char_digit: "d < 10 \<Longrightarrow> (of_char (char_of (48 + d) :: char) :: nat) = 48 + d"
  by simp

lemma undec_snoc: "undec (s @ [c]) = 10 * undec s + (of_char c - 48)"
  by (simp add: undec.simps)

lemma undec_dec: "undec (dec n) = n"
proof (induction n rule: dec.induct)
  case (1 n)
  show ?case
  proof (cases "n < 10")
    case True
    then show ?thesis by (simp add: dec.simps [of n] undec.simps)
  next
    case False
    then have "undec (dec (n div 10)) = n div 10" by (rule 1)
    moreover have "(of_char (char_of (48 + n mod 10) :: char) :: nat) = 48 + n mod 10"
      by (rule of_char_digit) simp
    ultimately show ?thesis
      using False by (simp add: dec.simps [of n] undec_snoc)
  qed
qed

lemma undec_zero: "undec (CHR ''0'' # s) = undec s"
  by (simp add: undec.simps)

lemma undec_replicate: "undec (replicate k (CHR ''0'') @ s) = undec s"
  by (induction k) (simp_all add: undec_zero)

lemma undec_pad6: "undec (pad6 s) = undec s"
  by (simp add: pad6_def undec_replicate)

lemma dec_inj: "dec m = dec n \<Longrightarrow> m = n"
  by (metis undec_dec)

lemma pad6_dec_inj: "pad6 (dec m) = pad6 (dec n) \<Longrightarrow> m = n"
  by (metis undec_dec undec_pad6)

lemma pad6_int_inj: "0 \<le> i \<Longrightarrow> 0 \<le> j \<Longrightarrow> pad6_int i = pad6_int j \<Longrightarrow> i = j"
  by (metis (no_types, lifting) leD pad6_dec_inj pad6_int_def nat_0_le)

lemma dec_nonempty [simp]: "dec n \<noteq> []"
  by (subst dec.simps) simp

section \<open>Text\<close>

text \<open>
  A Rust string is the list of its UTF-8 bytes, each a \<^typ>\<open>char\<close>. \<open>ws_len s\<close> is the byte
  length of the whitespace character (Unicode \<open>White_Space\<close>) at the front of \<open>s\<close>, 0 when
  there is none.
\<close>

definition ws_len :: "string \<Rightarrow> nat" where
  "ws_len s = (case map (of_char :: char \<Rightarrow> nat) (take 3 s) of
      [] \<Rightarrow> 0
    | a # rest \<Rightarrow>
       (if (9 \<le> a \<and> a \<le> 13) \<or> a = 32 then 1
        else (case rest of
            [] \<Rightarrow> 0
          | b # rest' \<Rightarrow>
             (if a = 0xC2 \<and> (b = 0x85 \<or> b = 0xA0) then 2
              else (case rest' of
                  [] \<Rightarrow> 0
                | c # _ \<Rightarrow>
                   (if (a = 0xE1 \<and> b = 0x9A \<and> c = 0x80)
                      \<or> (a = 0xE2 \<and> b = 0x80
                          \<and> ((0x80 \<le> c \<and> c \<le> 0x8A) \<or> c = 0xA8 \<or> c = 0xA9 \<or> c = 0xAF))
                      \<or> (a = 0xE2 \<and> b = 0x81 \<and> c = 0x9F)
                      \<or> (a = 0xE3 \<and> b = 0x80 \<and> c = 0x80)
                    then 3 else 0))))))"

function trim_start :: "string \<Rightarrow> string" where
  "trim_start s = (if ws_len s = 0 \<or> s = [] then s else trim_start (drop (ws_len s) s))"
  by auto
termination by (relation "measure length") auto

definition ends_with_ws :: "string \<Rightarrow> nat \<Rightarrow> bool" where
  "ends_with_ws s n = (0 < n \<and> n \<le> length s \<and> ws_len (drop (length s - n) s) = n)"

function trim_end :: "string \<Rightarrow> string" where
  "trim_end s =
     (if ends_with_ws s 1 then trim_end (take (length s - 1) s)
      else if ends_with_ws s 2 then trim_end (take (length s - 2) s)
      else if ends_with_ws s 3 then trim_end (take (length s - 3) s)
      else s)"
  by auto
termination by (relation "measure length") (auto simp: ends_with_ws_def)

declare trim_start.simps [simp del] trim_end.simps [simp del]

text \<open>\<open>str::trim\<close>, \<open>str::split_once\<close> and \<open>str::contains\<close>.\<close>

definition str_trim :: "string \<Rightarrow> string" where
  "str_trim s = trim_end (trim_start s)"

definition split_once :: "char \<Rightarrow> string \<Rightarrow> (string \<times> string) option" where
  "split_once c s =
     (if c \<in> set s then Some (takeWhile (\<lambda>x. x \<noteq> c) s, tl (dropWhile (\<lambda>x. x \<noteq> c) s)) else None)"

fun str_contains :: "string \<Rightarrow> string \<Rightarrow> bool" where
  "str_contains pat [] = (pat = [])"
| "str_contains pat (c # s) = (take (length pat) (c # s) = pat \<or> str_contains pat s)"

lemma ws_len_ascii:
  "s \<noteq> [] \<Longrightarrow> \<not> (9 \<le> (of_char (hd s) :: nat) \<and> (of_char (hd s) :: nat) \<le> 13) \<Longrightarrow>
   (of_char (hd s) :: nat) \<noteq> 32 \<Longrightarrow> (of_char (hd s) :: nat) < 128 \<Longrightarrow> ws_len s = 0"
  by (cases s) (auto simp: ws_len_def split: list.splits)

lemma split_once_SomeD: "split_once c s = Some (a, b) \<Longrightarrow> s = a @ c # b \<and> c \<notin> set a"
proof -
  assume "split_once c s = Some (a, b)"
  then have c: "c \<in> set s" and a: "a = takeWhile (\<lambda>x. x \<noteq> c) s"
    and b: "b = tl (dropWhile (\<lambda>x. x \<noteq> c) s)"
    by (auto simp: split_once_def split: if_splits)
  from c have ne: "dropWhile (\<lambda>x. x \<noteq> c) s \<noteq> []" by (simp add: dropWhile_eq_Nil_conv)
  then have "hd (dropWhile (\<lambda>x. x \<noteq> c) s) = c" using hd_dropWhile [OF ne] by simp
  with ne b have "dropWhile (\<lambda>x. x \<noteq> c) s = c # b" by (cases "dropWhile (\<lambda>x. x \<noteq> c) s") auto
  then have "s = a @ c # b" using takeWhile_dropWhile_id [of "\<lambda>x. x \<noteq> c" s] a by simp
  moreover have "c \<notin> set a" using a by (auto dest: set_takeWhileD)
  ultimately show ?thesis ..
qed

lemma split_once_None_iff [simp]: "split_once c s = None \<longleftrightarrow> c \<notin> set s"
  by (simp add: split_once_def)

lemma split_once_append [simp]: "c \<notin> set a \<Longrightarrow> split_once c (a @ c # b) = Some (a, b)"
  by (simp add: split_once_def takeWhile_append dropWhile_append)

text \<open>\<open>Iterator::max_by_key\<close> keeps the last of several maximal elements.\<close>

fun max_by_key :: "('a \<Rightarrow> 'k::linorder) \<Rightarrow> 'a list \<Rightarrow> 'a option" where
  "max_by_key f [] = None"
| "max_by_key f (x # xs) = Some (foldl (\<lambda>a b. if f b < f a then a else b) x xs)"

lemma foldl_max_by_key:
  "foldl (\<lambda>a b. if f b < f a then a else b) x xs \<in> insert x (set xs) \<and>
   (\<forall>y \<in> insert x (set xs). f y \<le> f (foldl (\<lambda>a b. if f b < f a then a else b) x xs))"
  for f :: "'a \<Rightarrow> 'k::linorder"
proof (induction xs arbitrary: x)
  case Nil
  then show ?case by simp
next
  case (Cons b xs)
  show ?case
    using Cons [of "if f b < f x then x else b"] by (auto split: if_splits)
qed

lemma max_by_key_SomeD:
  assumes "max_by_key f xs = Some m"
  shows "m \<in> set xs" and "y \<in> set xs \<Longrightarrow> f y \<le> f m"
proof -
  from assms obtain x ys where xs: "xs = x # ys" by (cases xs) auto
  with assms have m: "m = foldl (\<lambda>a b. if f b < f a then a else b) x ys" by simp
  show "m \<in> set xs" using foldl_max_by_key [where f = f and x = x and xs = ys] xs m by simp
  show "y \<in> set xs \<Longrightarrow> f y \<le> f m"
    using foldl_max_by_key [where f = f and x = x and xs = ys] xs m by auto
qed

lemma max_by_key_None_iff [simp]: "max_by_key f xs = None \<longleftrightarrow> xs = []"
  by (cases xs) auto

lemma max_by_key_eqI:
  assumes "inj f" "m \<in> set xs" "\<And>y. y \<in> set xs \<Longrightarrow> f y \<le> f m"
  shows "max_by_key f xs = Some m"
proof -
  from assms(2) obtain m' where m': "max_by_key f xs = Some m'" by (cases xs) auto
  from max_by_key_SomeD [OF m'] assms have "f m' = f m" by (meson order_antisym)
  with \<open>inj f\<close> m' show ?thesis by (simp add: inj_eq)
qed

end
