(* ===== verification/Float64.thy ===== *)
theory Float64
  imports Prelude
begin

text \<open>
  Rust's \<open>f64\<close> (IEEE 754 binary64, round to nearest, ties to even). Every finite double is an
  integral multiple of $2^{-1074}$, so \<open>Fin s m\<close> is the value $(-1)^s \cdot m \cdot 2^{-1074}$ and
  all arithmetic is exact integer arithmetic followed by one rounding to 53 significant bits.
  All NaNs are one value: the sources never read a NaN's sign or payload.
\<close>

datatype f64 = NaN | Inf bool | Fin bool nat

abbreviation f64_zero :: f64 where "f64_zero \<equiv> Fin False 0"

text \<open>The value 1 in units, and the first magnitude past the largest double.\<close>

definition f64_unit :: nat where "f64_unit = 2 ^ 1074"

definition f64_limit :: nat where "f64_limit = 2 ^ 2098"

section \<open>Rounding\<close>

fun bitlen :: "nat \<Rightarrow> nat" where
  "bitlen n = (if n = 0 then 0 else Suc (bitlen (n div 2)))"

declare bitlen.simps [simp del]

definition rne :: "nat \<Rightarrow> nat \<Rightarrow> nat" where
  "rne p q = (let d = p div q; r = p mod q in
     if 2 * r < q \<or> (2 * r = q \<and> even d) then d else d + 1)"

text \<open>\<open>round_mag p q\<close>: the double nearest to the non-negative value \<open>p / q\<close> (in units).\<close>

definition round_mag :: "nat \<Rightarrow> nat \<Rightarrow> nat" where
  "round_mag p q = (let d = p div q in
     if d < 2 ^ 53 then rne p q
     else let k = bitlen d - 53 in rne p (q * 2 ^ k) * 2 ^ k)"

definition mk_f64 :: "bool \<Rightarrow> nat \<Rightarrow> f64" where
  "mk_f64 s m = (if m < f64_limit then Fin s m else Inf s)"

text \<open>The magnitudes a double can have: at most 53 significant bits.\<close>

definition repr :: "nat \<Rightarrow> bool" where
  "repr m \<longleftrightarrow> (\<exists>c k. c < 2 ^ 53 \<and> m = c * 2 ^ k)"

section \<open>Arithmetic and comparison\<close>

definition sval :: "bool \<Rightarrow> nat \<Rightarrow> int" where
  "sval s m = (if s then - int m else int m)"

fun f64_add :: "f64 \<Rightarrow> f64 \<Rightarrow> f64" where
  "f64_add NaN _ = NaN"
| "f64_add _ NaN = NaN"
| "f64_add (Inf s) (Inf t) = (if s = t then Inf s else NaN)"
| "f64_add (Inf s) (Fin _ _) = Inf s"
| "f64_add (Fin _ _) (Inf t) = Inf t"
| "f64_add (Fin s a) (Fin t b) =
     (let v = sval s a + sval t b in
      if v = 0 then Fin (s \<and> t) 0 else mk_f64 (v < 0) (round_mag (nat \<bar>v\<bar>) 1))"

fun f64_mul :: "f64 \<Rightarrow> f64 \<Rightarrow> f64" where
  "f64_mul NaN _ = NaN"
| "f64_mul _ NaN = NaN"
| "f64_mul (Inf s) (Inf t) = Inf (s \<noteq> t)"
| "f64_mul (Inf s) (Fin t b) = (if b = 0 then NaN else Inf (s \<noteq> t))"
| "f64_mul (Fin s a) (Inf t) = (if a = 0 then NaN else Inf (s \<noteq> t))"
| "f64_mul (Fin s a) (Fin t b) = mk_f64 (s \<noteq> t) (round_mag (a * b) (f64_unit))"

fun f64_div :: "f64 \<Rightarrow> f64 \<Rightarrow> f64" where
  "f64_div NaN _ = NaN"
| "f64_div _ NaN = NaN"
| "f64_div (Inf s) (Inf t) = NaN"
| "f64_div (Inf s) (Fin t b) = Inf (s \<noteq> t)"
| "f64_div (Fin s a) (Inf t) = Fin (s \<noteq> t) 0"
| "f64_div (Fin s a) (Fin t b) =
     (if b = 0 then (if a = 0 then NaN else Inf (s \<noteq> t))
      else mk_f64 (s \<noteq> t) (round_mag (a * f64_unit) b))"

text \<open>\<open>n as f64\<close> of an unsigned and of a signed integer.\<close>

definition f64_of_nat :: "nat \<Rightarrow> f64" where
  "f64_of_nat n = mk_f64 False (round_mag (n * f64_unit) 1)"

definition f64_of_int :: "int \<Rightarrow> f64" where
  "f64_of_int i = (if i < 0 then mk_f64 True (round_mag (nat (- i) * f64_unit) 1)
                   else f64_of_nat (nat i))"

text \<open>The literal \<open>p / q\<close> as the compiler reads it: the nearest double.\<close>

definition f64_lit :: "nat \<Rightarrow> nat \<Rightarrow> f64" where
  "f64_lit p q = mk_f64 False (round_mag (p * f64_unit) q)"

definition f64_is_nan :: "f64 \<Rightarrow> bool" where
  "f64_is_nan x \<longleftrightarrow> x = NaN"

definition f64_is_finite :: "f64 \<Rightarrow> bool" where
  "f64_is_finite x = (case x of Fin _ _ \<Rightarrow> True | _ \<Rightarrow> False)"

text \<open>\<open><\<close> and \<open><=\<close>, \<open>==\<close>: false on NaN, \<open>-0 == 0\<close>.\<close>

fun f64_lt :: "f64 \<Rightarrow> f64 \<Rightarrow> bool" where
  "f64_lt NaN _ = False"
| "f64_lt _ NaN = False"
| "f64_lt (Inf s) (Inf t) = (s \<and> \<not> t)"
| "f64_lt (Inf s) (Fin _ _) = s"
| "f64_lt (Fin _ _) (Inf t) = (\<not> t)"
| "f64_lt (Fin s a) (Fin t b) = (sval s a < sval t b)"

fun f64_eq :: "f64 \<Rightarrow> f64 \<Rightarrow> bool" where
  "f64_eq NaN _ = False"
| "f64_eq _ NaN = False"
| "f64_eq (Inf s) (Inf t) = (s = t)"
| "f64_eq (Inf s) (Fin _ _) = False"
| "f64_eq (Fin _ _) (Inf t) = False"
| "f64_eq (Fin s a) (Fin t b) = (sval s a = sval t b)"

definition f64_le :: "f64 \<Rightarrow> f64 \<Rightarrow> bool" where
  "f64_le x y \<longleftrightarrow> f64_lt x y \<or> f64_eq x y"

text \<open>\<open>f64::total_cmp\<close>, as an order: \<open>-inf < \<dots> < -0 < 0 < \<dots> < inf < NaN\<close>.\<close>

fun f64_total_le :: "f64 \<Rightarrow> f64 \<Rightarrow> bool" where
  "f64_total_le _ NaN = True"
| "f64_total_le NaN _ = False"
| "f64_total_le (Inf s) (Inf t) = (s \<or> \<not> t)"
| "f64_total_le (Inf s) (Fin _ _) = s"
| "f64_total_le (Fin _ _) (Inf t) = (\<not> t)"
| "f64_total_le (Fin s a) (Fin t b) =
     (if s then (if t then b \<le> a else True) else (if t then False else a \<le> b))"

text \<open>\<open>x.ceil() as usize\<close>: saturating, NaN is 0.\<close>

fun f64_ceil_usize :: "f64 \<Rightarrow> nat" where
  "f64_ceil_usize NaN = 0"
| "f64_ceil_usize (Inf s) = (if s then 0 else u64_max)"
| "f64_ceil_usize (Fin s m) =
     (if s then 0 else min ((m + (f64_unit - 1)) div f64_unit) u64_max)"

section \<open>Facts about rounding\<close>

lemma bitlen_le_iff: "bitlen n \<le> k \<longleftrightarrow> n < 2 ^ k"
proof (induction n arbitrary: k rule: bitlen.induct)
  case (1 n)
  show ?case
  proof (cases "n = 0")
    case True
    then show ?thesis by (simp add: bitlen.simps)
  next
    case False
    show ?thesis
    proof (cases k)
      case 0
      with False show ?thesis by (simp add: bitlen.simps [of n])
    next
      case (Suc j)
      have "bitlen n \<le> k \<longleftrightarrow> bitlen (n div 2) \<le> j"
        using False Suc by (simp add: bitlen.simps [of n])
      also have "\<dots> \<longleftrightarrow> n div 2 < 2 ^ j" using 1 False by blast
      also have "\<dots> \<longleftrightarrow> n < 2 ^ k" using Suc by (auto simp: less_mult_imp_div_less)
      finally show ?thesis .
    qed
  qed
qed

lemma rne_le:
  assumes "p \<le> r * q" "0 < q"
  shows "rne p q \<le> r"
proof (cases "p = r * q")
  case True
  then show ?thesis using assms by (simp add: rne_def Let_def)
next
  case False
  with assms have "p div q < r" by (simp add: less_mult_imp_div_less)
  then show ?thesis by (simp add: rne_def Let_def)
qed

lemma rne_exact: "0 < q \<Longrightarrow> rne (r * q) q = r"
  by (simp add: rne_def Let_def)

lemma repr_dvd:
  assumes "repr r" "2 ^ 53 \<le> d" "d \<le> r"
  shows "2 ^ (bitlen d - 53) dvd r"
proof -
  from assms(1) obtain c k where ck: "c < 2 ^ 53" "r = c * 2 ^ k"
    by (auto simp: repr_def)
  have "r < 2 ^ (53 + k)" using ck by (simp add: power_add)
  with assms(3) have "bitlen d \<le> 53 + k" by (simp add: bitlen_le_iff)
  then have "bitlen d - 53 \<le> k" by simp
  then have "(2::nat) ^ (bitlen d - 53) dvd 2 ^ k" by (rule le_imp_power_dvd)
  with ck show ?thesis by simp
qed

text \<open>Rounding never passes a representable upper bound.\<close>

lemma round_mag_le:
  assumes "p \<le> r * q" "0 < q" "repr r"
  shows "round_mag p q \<le> r"
proof -
  let ?d = "p div q"
  have dr: "?d \<le> r" using assms(1,2) by (metis div_le_mono div_mult_self_is_m)
  show ?thesis
  proof (cases "?d < 2 ^ 53")
    case True
    then show ?thesis using rne_le [OF assms(1,2)] by (simp add: round_mag_def)
  next
    case False
    let ?k = "bitlen ?d - 53"
    from False dr assms(3) have "2 ^ ?k dvd r" by (intro repr_dvd) simp_all
    then obtain t where t: "r = t * 2 ^ ?k" by (metis dvd_div_mult_self)
    have "p \<le> t * (q * 2 ^ ?k)" using assms(1) t by (simp add: ac_simps)
    then have "rne p (q * 2 ^ ?k) \<le> t" using assms(2) by (intro rne_le) simp_all
    then have "rne p (q * 2 ^ ?k) * 2 ^ ?k \<le> r" using t by simp
    with False show ?thesis by (simp add: round_mag_def Let_def)
  qed
qed

text \<open>A representable value rounds to itself.\<close>

lemma round_mag_exact:
  assumes "repr r" "0 < q"
  shows "round_mag (r * q) q = r"
proof (cases "r < 2 ^ 53")
  case True
  with assms show ?thesis by (simp add: round_mag_def rne_exact)
next
  case False
  let ?k = "bitlen r - 53"
  from False assms have "2 ^ ?k dvd r" by (intro repr_dvd) simp_all
  then obtain t where t: "r = t * 2 ^ ?k" by (metis dvd_div_mult_self)
  have eq: "r * q = t * (q * 2 ^ ?k)"
    using t by (metis mult.assoc mult.commute)
  have rne: "rne (r * q) (q * 2 ^ ?k) = t"
    unfolding eq by (rule rne_exact) (use assms(2) in simp)
  have "(r * q) div q = r" using assms(2) by simp
  then have "round_mag (r * q) q = rne (r * q) (q * 2 ^ ?k) * 2 ^ ?k"
    using False by (simp add: round_mag_def Let_def)
  also have "\<dots> = r" unfolding rne by (rule t [symmetric])
  finally show ?thesis .
qed

lemma repr_shift: "c < 2 ^ 53 \<Longrightarrow> repr (c * 2 ^ k)"
  by (auto simp: repr_def)

text \<open>Rounding is monotone.\<close>

lemma rne_ge: "p div q \<le> rne p q"
  by (simp add: rne_def Let_def)

lemma rne_mono:
  assumes "p \<le> p'"
  shows "rne p q \<le> rne p' q"
proof (cases "p div q = p' div q")
  case True
  then have "p mod q \<le> p' mod q" using assms
      minus_div_mult_eq_mod [of p q] minus_div_mult_eq_mod [of p' q]
    by (metis diff_le_mono)
  with True show ?thesis by (auto simp: rne_def Let_def)
next
  case False
  with assms have "p div q < p' div q" by (simp add: div_le_mono le_neq_implies_less)
  then show ?thesis by (auto simp: rne_def Let_def)
qed

lemma round_mag_ge_pow:
  assumes "2 ^ L \<le> p div q" "0 < q"
  shows "2 ^ L \<le> round_mag p q"
proof (cases "p div q < 2 ^ 53")
  case True
  with assms rne_ge [of p q] show ?thesis by (simp add: round_mag_def)
next
  case False
  let ?d = "p div q"
  let ?k = "bitlen ?d - 53"
  define L' where "L' = bitlen ?d - 1"
  have "\<not> ?d < 2 ^ L" using assms(1) by simp
  then have LL: "L \<le> L'" using bitlen_le_iff [of ?d L] by (simp add: L'_def)
  have h: "\<not> bitlen ?d \<le> 53" using False by (simp add: bitlen_le_iff)
  then have k: "?k \<le> L'" unfolding L'_def by linarith
  have "\<not> bitlen ?d \<le> L'" using h unfolding L'_def by linarith
  then have "2 ^ L' \<le> ?d" by (simp add: bitlen_le_iff)
  then have "2 ^ L' div 2 ^ ?k \<le> ?d div 2 ^ ?k" by (rule div_le_mono)
  also have "?d div 2 ^ ?k = p div (q * 2 ^ ?k)" by (simp add: div_mult2_eq)
  also have "\<dots> \<le> rne p (q * 2 ^ ?k)" by (rule rne_ge)
  finally have "2 ^ (L' - ?k) \<le> rne p (q * 2 ^ ?k)"
    using power_diff [of "2::nat" ?k L'] k by simp
  then have "2 ^ (L' - ?k) * 2 ^ ?k \<le> rne p (q * 2 ^ ?k) * 2 ^ ?k" by simp
  moreover have "2 ^ (L' - ?k) * 2 ^ ?k = (2::nat) ^ L'"
    using k by (simp add: power_add [symmetric])
  ultimately have "2 ^ L' \<le> round_mag p q" using False by (simp add: round_mag_def Let_def)
  moreover have "(2::nat) ^ L \<le> 2 ^ L'" using LL by (rule power_increasing) simp
  ultimately show ?thesis by (rule order_trans [rotated])
qed

lemma round_mag_mono:
  assumes "p \<le> p'" "0 < q"
  shows "round_mag p q \<le> round_mag p' q"
proof -
  let ?d = "p div q" and ?d' = "p' div q"
  have dd: "?d \<le> ?d'" using assms(1) by (rule div_le_mono)
  then have bb: "bitlen ?d \<le> bitlen ?d'"
    by (meson bitlen_le_iff le_less_trans order_refl)
  show ?thesis
  proof (cases "?d' < 2 ^ 53 \<or> (2 ^ 53 \<le> ?d \<and> bitlen ?d = bitlen ?d')")
    case True
    with dd rne_mono [OF assms(1)] show ?thesis by (auto simp: round_mag_def Let_def)
  next
    case False
    have L: "2 ^ bitlen ?d \<le> ?d'"
    proof (cases "2 ^ 53 \<le> ?d")
      case True
      with False have "bitlen ?d < bitlen ?d'" using bb by simp
      then show ?thesis using bitlen_le_iff [of ?d' "bitlen ?d"] by simp
    next
      case small: False
      then have "bitlen ?d \<le> 53" by (simp add: bitlen_le_iff)
      then have "(2::nat) ^ bitlen ?d \<le> 2 ^ 53" by (rule power_increasing) simp
      with False small show ?thesis by simp
    qed
    have "?d < 2 ^ bitlen ?d" using bitlen_le_iff [of ?d "bitlen ?d"] by simp
    then have "p \<le> 2 ^ bitlen ?d * q"
      using assms(2) by (simp add: div_less_iff_less_mult less_imp_le)
    moreover have "repr (2 ^ bitlen ?d)" using repr_shift [of 1 "bitlen ?d"] by simp
    ultimately have "round_mag p q \<le> 2 ^ bitlen ?d" using assms(2) by (intro round_mag_le)
    also have "\<dots> \<le> round_mag p' q" using L assms(2) by (rule round_mag_ge_pow)
    finally show ?thesis .
  qed
qed

lemma f64_unit_pos [simp]: "0 < f64_unit"
  by (simp add: f64_unit_def)

lemma repr_unit: "c < 2 ^ 53 \<Longrightarrow> repr (c * f64_unit)"
  unfolding f64_unit_def by (rule repr_shift)

lemma unit_less_limit:
  assumes "n < 2 ^ 53"
  shows "n * f64_unit < f64_limit"
proof -
  have "n * f64_unit < 2 ^ 53 * f64_unit"
    using assms by (intro mult_strict_right_mono) simp_all
  also have "\<dots> = 2 ^ (53 + 1074)"
    unfolding f64_unit_def by (rule power_add [symmetric])
  also have "\<dots> \<le> f64_limit"
    unfolding f64_limit_def by (rule power_increasing) simp_all
  finally show ?thesis .
qed

lemma f64_of_nat_exact:
  assumes "n < 2 ^ 53"
  shows "f64_of_nat n = Fin False (n * f64_unit)"
proof -
  have "round_mag (n * f64_unit) 1 = n * f64_unit"
    using round_mag_exact [OF repr_unit [OF assms], of 1] by simp
  with unit_less_limit [OF assms] show ?thesis
    by (simp add: f64_of_nat_def mk_f64_def)
qed

text \<open>
  Scaling an exactly represented count by a fraction of at most one and rounding the product up
  to an integer stays within the count: this is what keeps a percentile index in range.
\<close>

lemma f64_scaled_index_le:
  assumes n: "n < 2 ^ 53" and b: "b \<le> f64_unit"
  shows "f64_ceil_usize (f64_mul (f64_of_nat n) (Fin False b)) \<le> n"
proof -
  let ?a = "n * f64_unit"
  let ?m = "round_mag (?a * b) f64_unit"
  have le: "?m \<le> ?a"
    using b by (intro round_mag_le repr_unit [OF n]) simp_all
  with unit_less_limit [OF n] have fin: "mk_f64 False ?m = Fin False ?m"
    by (simp add: mk_f64_def)
  have "(?m + (f64_unit - 1)) div f64_unit \<le> (?a + (f64_unit - 1)) div f64_unit"
    using le by (intro div_le_mono) simp
  also have "\<dots> = n + (f64_unit - 1) div f64_unit"
    by (simp add: add.commute)
  also have "\<dots> = n" by simp
  finally show ?thesis
    using fin by (simp add: f64_of_nat_exact [OF n] min_def)
qed

lemma f64_scaled_index_mono:
  assumes n: "n < 2 ^ 53" and b: "b \<le> f64_unit" and ab: "a \<le> b"
  shows "f64_ceil_usize (f64_mul (f64_of_nat n) (Fin False a))
       \<le> f64_ceil_usize (f64_mul (f64_of_nat n) (Fin False b))"
proof -
  let ?n = "n * f64_unit"
  have "round_mag (?n * b) f64_unit \<le> ?n"
    using b by (intro round_mag_le repr_unit [OF n]) simp_all
  moreover have le: "round_mag (?n * a) f64_unit \<le> round_mag (?n * b) f64_unit"
    using ab by (intro round_mag_mono) simp_all
  ultimately have fin: "mk_f64 False (round_mag (?n * a) f64_unit) = Fin False (round_mag (?n * a) f64_unit)"
    "mk_f64 False (round_mag (?n * b) f64_unit) = Fin False (round_mag (?n * b) f64_unit)"
    using unit_less_limit [OF n] by (simp_all add: mk_f64_def)
  have "(round_mag (?n * a) f64_unit + (f64_unit - 1)) div f64_unit
      \<le> (round_mag (?n * b) f64_unit + (f64_unit - 1)) div f64_unit"
    using le by (intro div_le_mono) simp
  then show ?thesis
    using fin by (simp add: f64_of_nat_exact [OF n] min_def)
qed

text \<open>A literal \<open>p / q\<close> of at most one.\<close>

lemma f64_lit_frac:
  assumes "p \<le> q" "0 < q"
  shows "\<exists>b \<le> f64_unit. f64_lit p q = Fin False b"
proof -
  have "round_mag (p * f64_unit) q \<le> f64_unit"
    using assms repr_unit [of 1] by (intro round_mag_le) simp_all
  moreover have "f64_unit < f64_limit" using unit_less_limit [of 1] by simp
  ultimately show ?thesis by (auto simp: f64_lit_def mk_f64_def)
qed

lemma f64_lit_mono:
  assumes "p \<le> p'" "p' \<le> q" "0 < q"
  shows "\<exists>a b. f64_lit p q = Fin False a \<and> f64_lit p' q = Fin False b \<and> a \<le> b \<and> b \<le> f64_unit"
proof -
  have "round_mag (p * f64_unit) q \<le> round_mag (p' * f64_unit) q"
    using assms by (intro round_mag_mono) simp_all
  moreover have "round_mag (p' * f64_unit) q \<le> f64_unit"
    using assms repr_unit [of 1] by (intro round_mag_le) simp_all
  moreover have "f64_unit < f64_limit" using unit_less_limit [of 1] by simp
  ultimately show ?thesis by (auto simp: f64_lit_def mk_f64_def)
qed

section \<open>Facts about addition and comparison\<close>

lemma f64_add_comm: "f64_add x y = f64_add y x"
  by (cases x; cases y) (auto simp: Let_def add.commute conj_commute)

lemma f64_add_zero: "repr m \<Longrightarrow> m < f64_limit \<Longrightarrow> f64_eq (f64_add f64_zero (Fin s m)) (Fin s m)"
  using round_mag_exact [of m 1] by (auto simp: Let_def sval_def mk_f64_def)

lemma f64_total_le_total: "f64_total_le x y \<or> f64_total_le y x"
  by (cases x; cases y) auto

lemma f64_total_le_trans: "f64_total_le x y \<Longrightarrow> f64_total_le y z \<Longrightarrow> f64_total_le x z"
  by (cases x; cases y; cases z) (auto split: if_splits)

lemma f64_total_le_antisym: "f64_total_le x y \<Longrightarrow> f64_total_le y x \<Longrightarrow> x = y"
  by (cases x; cases y) (auto split: if_splits)

lemma f64_total_le_imp_le: "f64_total_le x y \<Longrightarrow> x \<noteq> NaN \<Longrightarrow> y \<noteq> NaN \<Longrightarrow> f64_le x y"
  by (cases x; cases y) (auto simp: f64_le_def sval_def split: if_splits)

text \<open>\<open>total_cmp\<close> is a linear order, so the library's sorting applies to samples.\<close>

instantiation f64 :: linorder
begin

definition less_eq_f64 :: "f64 \<Rightarrow> f64 \<Rightarrow> bool" where
  "less_eq_f64 x y = f64_total_le x y"

definition less_f64 :: "f64 \<Rightarrow> f64 \<Rightarrow> bool" where
  "less_f64 x y = (f64_total_le x y \<and> \<not> f64_total_le y x)"

instance
proof
  fix x y z :: f64
  show "(x < y) = (x \<le> y \<and> \<not> y \<le> x)" by (simp add: less_eq_f64_def less_f64_def)
  show "x \<le> x" using f64_total_le_total [of x x] by (simp add: less_eq_f64_def)
  show "x \<le> y \<Longrightarrow> y \<le> z \<Longrightarrow> x \<le> z"
    unfolding less_eq_f64_def by (rule f64_total_le_trans)
  show "x \<le> y \<Longrightarrow> y \<le> x \<Longrightarrow> x = y"
    unfolding less_eq_f64_def by (rule f64_total_le_antisym)
  show "x \<le> y \<or> y \<le> x" unfolding less_eq_f64_def by (rule f64_total_le_total)
qed

end

end
