(* ===== verification/OrdMap.thy ===== *)
theory OrdMap
  imports Prelude
begin

text \<open>
  The ordered maps of the standard library (\<open>BTreeMap\<close>) as strictly sorted association lists,
  with the entry operation the sources use (\<open>entry(k).or_insert_with(..)\<close> followed by a change in
  place, and \<open>insert\<close>). The interface \<open>entry_map\<close> says what a client may rely on; the sorted lists
  provide it.
\<close>

fun bt_update :: "'k::linorder \<Rightarrow> ('v option \<Rightarrow> 'v) \<Rightarrow> ('k \<times> 'v) list \<Rightarrow> ('k \<times> 'v) list" where
  "bt_update k f [] = [(k, f None)]"
| "bt_update k f ((k', v) # xs) =
     (if k < k' then (k, f None) # (k', v) # xs
      else if k = k' then (k, f (Some v)) # xs
      else (k', v) # bt_update k f xs)"

definition bt_insert :: "'k::linorder \<Rightarrow> 'v \<Rightarrow> ('k \<times> 'v) list \<Rightarrow> ('k \<times> 'v) list" where
  "bt_insert k v m = bt_update k (\<lambda>_. v) m"

definition bt_map_values :: "('v \<Rightarrow> 'v) \<Rightarrow> ('k \<times> 'v) list \<Rightarrow> ('k \<times> 'v) list" where
  "bt_map_values f m = map (\<lambda>(k, v). (k, f v)) m"

definition bt_inv :: "('k::linorder \<times> 'v) list \<Rightarrow> bool" where
  "bt_inv m = sorted_wrt (<) (map fst m)"

section \<open>The interface\<close>

locale entry_map =
  fixes empty :: 'm
    and look :: "'m \<Rightarrow> 'k \<Rightarrow> 'v option"
    and update :: "'k \<Rightarrow> ('v option \<Rightarrow> 'v) \<Rightarrow> 'm \<Rightarrow> 'm"
    and map_values :: "('v \<Rightarrow> 'v) \<Rightarrow> 'm \<Rightarrow> 'm"
    and ok :: "'m \<Rightarrow> bool"
  assumes ok_empty: "ok empty"
    and look_empty: "look empty k = None"
    and ok_update: "ok m \<Longrightarrow> ok (update k f m)"
    and look_update: "ok m \<Longrightarrow> look (update k f m) k' = (if k' = k then Some (f (look m k)) else look m k')"
    and ok_map_values: "ok m \<Longrightarrow> ok (map_values g m)"
    and look_map_values: "ok m \<Longrightarrow> look (map_values g m) k = map_option g (look m k)"
begin

text \<open>An invariant of the values holds throughout a map built by the operations.\<close>

lemma values_update:
  assumes "ok m" "\<And>k v. look m k = Some v \<Longrightarrow> P v" "P (f (look m k0))"
  shows "look (update k0 f m) k = Some v \<Longrightarrow> P v"
  using assms by (auto simp: look_update split: if_splits)

lemma values_map_values:
  assumes "ok m" "\<And>k v. look m k = Some v \<Longrightarrow> P v" "\<And>v. P v \<Longrightarrow> P (g v)"
  shows "look (map_values g m) k = Some v \<Longrightarrow> P v"
  using assms by (auto simp: look_map_values)

end

section \<open>Sorted lists provide it\<close>

lemma bt_update_keys: "set (map fst (bt_update k f m)) = insert k (set (map fst m))"
  by (induction k f m rule: bt_update.induct) auto

lemma bt_inv_update: "bt_inv m \<Longrightarrow> bt_inv (bt_update k f m)"
proof (induction k f m rule: bt_update.induct)
  case (2 k f k' v xs)
  have "set (map fst (bt_update k f xs)) = insert k (set (map fst xs))"
    by (rule bt_update_keys)
  with 2 show ?case
    by (auto simp: bt_inv_def not_less_iff_gr_or_eq simp del: set_map)
qed (simp add: bt_inv_def)

lemma bt_inv_distinct: "bt_inv m \<Longrightarrow> distinct (map fst m)"
  unfolding bt_inv_def using strict_sorted_iff by blast

lemma bt_map_of_update:
  "bt_inv m \<Longrightarrow> map_of (bt_update k f m) k' = (if k' = k then Some (f (map_of m k)) else map_of m k')"
proof (induction k f m rule: bt_update.induct)
  case (2 k f k'' v xs)
  have "map_of xs k = None" if "k < k''"
  proof -
    from 2(2) that have "\<forall>x \<in> set (map fst xs). k < x" by (auto simp: bt_inv_def dest: less_trans)
    then show ?thesis by (auto simp: map_of_eq_None_iff)
  qed
  with 2 show ?case by (auto simp: bt_inv_def)
qed simp

lemma bt_map_of_map_values: "map_of (bt_map_values g m) k = map_option g (map_of m k)"
  by (induction m) (auto simp: bt_map_values_def)

interpretation bt: entry_map "[]" map_of bt_update bt_map_values bt_inv
proof
  show "bt_inv []" by (simp add: bt_inv_def)
  show "bt_inv m \<Longrightarrow> bt_inv (bt_update k f m)" for m :: "('a \<times> 'b) list" and k f
    by (rule bt_inv_update)
  show "bt_inv m \<Longrightarrow> map_of (bt_update k f m) k' = (if k' = k then Some (f (map_of m k)) else map_of m k')"
    for m :: "('a \<times> 'b) list" and k k' f by (rule bt_map_of_update)
  show "bt_inv m \<Longrightarrow> bt_inv (bt_map_values g m)" for m :: "('a \<times> 'b) list" and g
    by (simp add: bt_inv_def bt_map_values_def split_def comp_def)
qed (simp_all add: bt_map_of_map_values)

lemma bt_map_of_mem: "bt_inv m \<Longrightarrow> (k, v) \<in> set m \<longleftrightarrow> map_of m k = Some v"
  using bt_inv_distinct by (metis map_of_eq_Some_iff)

end
