(* ===== verification/Proto.thy ===== *)
theory Proto
  imports Float64
begin

text \<open>
  The wire messages the runtime exchanges with its peers (the prost structs generated from
  \<^verbatim>\<open>crates/rlmesh-proto/proto\<close>) and the hand-written helpers of
  \<^verbatim>\<open>crates/rlmesh-proto/src/lib.rs\<close> that read them: the per-lane final info and the endpoint
  phase split. A protobuf map is an association list read through \<^const>\<open>map_of\<close>; an absent
  message field is \<open>None\<close>. The messages are generated code, so they have no source lines of
  their own; the helpers do.
\<close>

section \<open>Metadata values\<close>

text \<open>\<open>MetaUnset\<close> is a \<open>MetaValue\<close> whose \<open>kind\<close> is not set.\<close>

datatype meta_value =
    MetaUnset
  | MetaInteger int
  | MetaNumber f64
  | MetaText string
  | MetaBool bool
  | MetaBytes bytes
  | MetaList "meta_value list"
  | MetaMap "(string \<times> meta_value) list"
  | MetaNull

type_synonym meta_map = "(string \<times> meta_value) list"

section \<open>Space specs\<close>

datatype p_bounds = PUnbounded bool | PUniform bytes bytes | PElementwise bytes bytes

datatype p_space_spec = PSpaceSpec (ps_shape: "int list") (ps_dtype: int) (ps_spec: "p_space_kind option")
  and p_space_kind =
    PBox "p_bounds option"
  | PDiscrete int int
  | PMultiBinary
  | PMultiDiscrete "int list"
  | PText int int string
  | PDict "string list" "p_space_spec list"
  | PTuple "p_space_spec list"

type_synonym leaves = "bytes list"

section \<open>Environment contract\<close>

datatype autoreset_mode = Unspecified | NextStep | SameStep | Disabled

definition autoreset_try_from :: "int \<Rightarrow> autoreset_mode option" where
  "autoreset_try_from n =
     (if n = 0 then Some Unspecified else if n = 1 then Some NextStep
      else if n = 2 then Some SameStep else if n = 3 then Some Disabled else None)"

record env_spec =
  es_id :: string
  es_action_space :: "p_space_spec option"
  es_observation_space :: "p_space_spec option"
  es_metadata :: "meta_map option"

record env_contract =
  ec_spec :: "env_spec option"
  ec_num_envs :: nat
  ec_render_mode :: string
  ec_autoreset_mode :: int

section \<open>Environment messages\<close>

record episode_metadata =
  em_episode_id :: string
  em_seed :: "int option"
  em_env_index :: nat
  em_step_count :: int
  em_cumulative_reward :: f64
  em_terminated :: bool
  em_truncated :: bool
  em_start_timestamp_ns :: int
  em_end_timestamp_ns :: int
  em_final_info :: "meta_map option"

record reset_request =
  rq_seeds :: "int list"
  rq_options :: "meta_map option"
  rq_timeout_ms :: nat
  rq_env_indices :: "nat list"
  rq_episode_ids :: "string list"

record step_request =
  sq_action :: "leaves option"
  sq_timeout_ms :: nat
  sq_env_indices :: "nat list"
  sq_episode_ids :: "string list"

record reset_response =
  rr_observation :: "leaves option"
  rr_infos :: "meta_map option"

record step_response =
  sr_observation :: "leaves option"
  sr_rewards :: "f64 list"
  sr_infos :: "meta_map option"
  sr_completed_episodes :: "episode_metadata list"

section \<open>Model messages\<close>

record adapter_context =
  ac_session_id :: string
  ac_env_id :: string
  ac_request_id :: string

record episode_info =
  ei_episode_id :: string
  ei_seed :: "int option"

record history_frame =
  hf_observation :: "leaves option"
  hf_episode_info :: "episode_info list"
  hf_step :: int

record predict_request =
  pq_context :: "adapter_context option"
  pq_observation :: "leaves option"
  pq_episode_info :: "episode_info list"
  pq_history :: "history_frame list"
  pq_step :: "int option"

record predict_response =
  pp_context :: "adapter_context option"
  pp_actions :: "leaves list"

record reset_adapter_request =
  ra_context :: "adapter_context option"
  ra_episode_ids :: "string list"

record release_adapter_request =
  rl_context :: "adapter_context option"
  rl_reason :: string

section \<open>Endpoint phases\<close>

record endpoint_phases =
  ph_decode_ns :: nat
  ph_user_ns :: nat
  ph_encode_ns :: nat
  ph_queue_ns :: nat
  ph_adapter_ns :: nat
  ph_held_episodes :: "nat option"
  ph_held_state_bytes :: "nat option"
  ph_in_flight :: nat
  ph_lane_skew_ns :: "nat option"

definition phases_default :: endpoint_phases where
  "phases_default = \<lparr>ph_decode_ns = 0, ph_user_ns = 0, ph_encode_ns = 0, ph_queue_ns = 0,
     ph_adapter_ns = 0, ph_held_episodes = None, ph_held_state_bytes = None, ph_in_flight = 0,
     ph_lane_skew_ns = None\<rparr>"

definition reported :: "nat \<Rightarrow> nat option" where
  "reported ns = (if ns \<noteq> 0 then Some ns else None)"

definition sat_add_u64 :: "nat \<Rightarrow> nat \<Rightarrow> nat" where
  "sat_add_u64 a b = min (a + b) u64_max"

text \<open>\<open>EndpointPhases::from_durations\<close>: the arguments are durations in nanoseconds.\<close>

definition from_durations :: "nat \<Rightarrow> nat \<Rightarrow> nat \<Rightarrow> endpoint_phases" where
  "from_durations decode user encode = phases_default\<lparr>ph_decode_ns := min decode u64_max,
     ph_user_ns := min user u64_max, ph_encode_ns := min encode u64_max\<rparr>"

text \<open>\<open>EndpointPhases::nest\<close>: fold an inner layer's split into an outer measurement.\<close>

definition nest :: "nat \<Rightarrow> nat \<Rightarrow> nat \<Rightarrow> endpoint_phases \<Rightarrow> endpoint_phases" where
  "nest decode_ns call_ns encode_ns inner =
     (let inner_wire = sat_add_u64 (ph_decode_ns inner) (ph_encode_ns inner) in
      if inner_wire > call_ns then
        phases_default\<lparr>ph_decode_ns := decode_ns, ph_user_ns := call_ns,
          ph_encode_ns := encode_ns, ph_lane_skew_ns := ph_lane_skew_ns inner\<rparr>
      else
        phases_default\<lparr>ph_decode_ns := sat_add_u64 decode_ns (ph_decode_ns inner),
          ph_user_ns := call_ns - inner_wire,
          ph_encode_ns := sat_add_u64 encode_ns (ph_encode_ns inner),
          ph_lane_skew_ns := ph_lane_skew_ns inner\<rparr>)"

text \<open>
  \<open>lane_skew_ns\<close>: the slowest lane's excess over the (lower) median lane.
  \<open>select_nth_unstable(k)\<close> puts the \<open>k\<close>-th smallest value at \<open>k\<close> and the larger ones after it,
  which a full sort does too.
\<close>

definition lane_skew_ns :: "nat list \<Rightarrow> nat" where
  "lane_skew_ns lane_ns =
     (if length lane_ns < 2 then 0
      else let buf = sort lane_ns; k = (length lane_ns - 1) div 2;
               median = buf ! k; slower = drop (k + 1) buf
           in (if slower = [] then median else Max (set slower)) - median)"

section \<open>Per-lane final info\<close>

definition meta_bool_at :: "meta_value \<Rightarrow> nat \<Rightarrow> bool option" where
  "meta_bool_at value lane = (case value of
       MetaList items \<Rightarrow> (case nth_opt items lane of Some (MetaBool flag) \<Rightarrow> Some flag | _ \<Rightarrow> None)
     | _ \<Rightarrow> None)"

text \<open>A key whose \<open>_\<close>-stripped form is also a key is a mask, not an entry.\<close>

definition is_mask_key :: "meta_map \<Rightarrow> string \<Rightarrow> bool" where
  "is_mask_key info key = (case key of
       c # masked \<Rightarrow> c = CHR ''_'' \<and> map_of info masked \<noteq> None
     | [] \<Rightarrow> False)"

definition lane_sets_key :: "meta_map \<Rightarrow> string \<Rightarrow> nat \<Rightarrow> bool" where
  "lane_sets_key info key lane = (case map_of info (CHR ''_'' # key) of
       None \<Rightarrow> True
     | Some mv \<Rightarrow> meta_bool_at mv lane = Some True)"

text \<open>
  \<open>vector_info_lane\<close>, over the entries still to visit (\<open>rest\<close>) of the map \<open>info\<close>.
  \<open>None\<close> is the panic of \<open>list.items[lane]\<close> for a lane outside the vector.
\<close>

fun vector_info_entries ::
  "meta_map \<Rightarrow> meta_map \<Rightarrow> nat \<Rightarrow> nat \<Rightarrow> meta_map option" where
  "vector_info_entries info [] lane width = Some []"
| "vector_info_entries info ((key, value) # rest) lane width =
     (case vector_info_entries info rest lane width of
        None \<Rightarrow> None
      | Some out \<Rightarrow>
         (if is_mask_key info key \<or> \<not> lane_sets_key info key lane then Some out
          else (case value of
              MetaMap m \<Rightarrow> (case vector_info_entries m m lane width of
                  None \<Rightarrow> None
                | Some sliced \<Rightarrow> Some ((key, MetaMap sliced) # out))
            | MetaList items \<Rightarrow>
                (if length items = width
                 then (case nth_opt items lane of None \<Rightarrow> None | Some v \<Rightarrow> Some ((key, v) # out))
                 else Some out)
            | _ \<Rightarrow> Some out)))"

definition vector_info_lane :: "meta_map \<Rightarrow> nat \<Rightarrow> nat \<Rightarrow> meta_map option" where
  "vector_info_lane info lane width = vector_info_entries info info lane width"

text \<open>The outer option of \<open>lane_final_info\<close> is the panic, the inner one the result.\<close>

definition lane_final_info :: "meta_map option \<Rightarrow> nat \<Rightarrow> nat \<Rightarrow> meta_map option option" where
  "lane_final_info info lane width = (case info of
     None \<Rightarrow> Some None
   | Some info \<Rightarrow>
      (case map_of info ''final_info'' of
         None \<Rightarrow>
           (if width = 1 then Some (Some info)
            else (case vector_info_lane info lane width of
                None \<Rightarrow> None
              | Some sliced \<Rightarrow> Some (if sliced \<noteq> [] then Some sliced else None)))
       | Some final_info \<Rightarrow>
           (let is_present = (case map_of info ''_final_info'' of
                  Some mv \<Rightarrow> (case meta_bool_at mv lane of Some b \<Rightarrow> b | None \<Rightarrow> False)
                | None \<Rightarrow> width = 1)
            in if \<not> is_present then Some None
               else (case final_info of
                   MetaMap m \<Rightarrow> Some (Some m)
                 | MetaList items \<Rightarrow>
                     (case nth_opt items lane of
                        Some (MetaMap m) \<Rightarrow> Some (Some m)
                      | _ \<Rightarrow> Some None)
                 | _ \<Rightarrow> Some None))))"

section \<open>Lemmas\<close>

text \<open>Slicing a lane inside the vector never panics.\<close>

lemma vector_info_entries_defined:
  "lane < width \<Longrightarrow> \<exists>out. vector_info_entries info rest lane width = Some out"
proof (induction info rest lane width rule: vector_info_entries.induct)
  case (1 info lane width)
  then show ?case by simp
next
  case (2 info key val rest lane width)
  from 2 obtain out where out: "vector_info_entries info rest lane width = Some out" by blast
  show ?case
  proof (cases val)
    case (MetaMap m)
    show ?thesis
    proof (cases "is_mask_key info key \<or> \<not> lane_sets_key info key lane")
      case True
      with out show ?thesis by simp
    next
      case False
      with 2(2) [OF out False] MetaMap \<open>lane < width\<close>
      obtain sliced where "vector_info_entries m m lane width = Some sliced" by auto
      with out False MetaMap show ?thesis by simp
    qed
  qed (use out \<open>lane < width\<close> in \<open>auto simp: nth_opt_eq\<close>)
qed

lemma lane_final_info_defined: "lane < width \<Longrightarrow> lane_final_info info lane width \<noteq> None"
  using vector_info_entries_defined [of lane width]
  by (auto simp: lane_final_info_def vector_info_lane_def Let_def
      split: option.splits meta_value.splits) (metis option.distinct(1))+

text \<open>A nested split keeps the outer total, up to saturation.\<close>

lemma nest_total:
  assumes "decode_ns + call_ns + encode_ns \<le> u64_max" "call_ns < u64_max"
  shows "ph_decode_ns (nest decode_ns call_ns encode_ns inner)
       + ph_user_ns (nest decode_ns call_ns encode_ns inner)
       + ph_encode_ns (nest decode_ns call_ns encode_ns inner) = decode_ns + call_ns + encode_ns"
  using assms by (auto simp: nest_def Let_def sat_add_u64_def phases_default_def min_def
      split: if_splits)

end
