(* ===== verification/Editions.thy ===== *)
theory Editions
  imports Proto "HOL-Library.Char_ord" "HOL-Library.List_Lexorder" "HOL-Library.Product_Lexorder"
begin

text \<open>
  Workflow editions and their negotiation (\<^verbatim>\<open>crates/rlmesh-proto/src/lib.rs\<close>): the edition
  arms and their defaults row, the ordering key of an edition name, what a declared WANT admits,
  the selection of one edition for a whole session, and the three-party session floor. The list
  of editions a build retains and its own current edition are generated by the build script, so
  they are arguments (\<open>supported\<close>, \<open>current\<close>). Rust compares strings bytewise, which is the
  lexicographic order on lists of characters.
\<close>

section \<open>Editions and their defaults\<close>

datatype edition = E2026_06

definition all_editions :: "edition list" where
  "all_editions = [E2026_06]"

fun edition_base :: "edition \<Rightarrow> string" where
  "edition_base E2026_06 = ''2026.06''"

record edition_defaults =
  ed_default_max_episode_steps :: int
  ed_trial_index_option_key :: string
  ed_driver_owned_reset_modes :: "autoreset_mode list"
  ed_success_info_keys :: "string list"
  ed_conformance_warning_info_key :: string

definition defaults_2026_06 :: edition_defaults where
  "defaults_2026_06 = \<lparr>
     ed_default_max_episode_steps = 100000,
     ed_trial_index_option_key = ''trial_index'',
     ed_driver_owned_reset_modes = [Disabled, Unspecified],
     ed_success_info_keys = [''is_success'', ''success'', ''task_success''],
     ed_conformance_warning_info_key = ''rlmesh.conformance.warning''\<rparr>"

fun defaults :: "edition \<Rightarrow> edition_defaults" where
  "defaults E2026_06 = defaults_2026_06"

section \<open>Names and their order\<close>

definition edition_sort_key :: "string \<Rightarrow> string \<times> bool \<times> string" where
  "edition_sort_key e = (case split_once (CHR ''-'') e of
       Some (base, suffix) \<Rightarrow> (base, True, suffix)
     | None \<Rightarrow> (e, False, []))"

text \<open>\<open>Edition::parse\<close>; \<open>Inl\<close> carries the name of the \<open>UnknownEdition\<close>.\<close>

definition edition_parse :: "string \<Rightarrow> string + edition" where
  "edition_parse e =
     (let name = str_trim e; (base, _, _) = edition_sort_key name
      in ok_or (find (\<lambda>ed. edition_base ed = base) all_editions) name)"

datatype edition_error =
    CannotDrive string
  | AdmitsNothing string string

definition is_retained_edition :: "string list \<Rightarrow> edition \<Rightarrow> bool" where
  "is_retained_edition supported ed =
     list_ex (\<lambda>retained. edition_parse retained = Inr ed) supported"

definition parse_retained_edition :: "string list \<Rightarrow> string \<Rightarrow> edition_error + edition" where
  "parse_retained_edition supported e =
     (case edition_parse e of
        Inr ed \<Rightarrow> (if is_retained_edition supported ed then Inr ed else Inl (CannotDrive (str_trim e)))
      | Inl _ \<Rightarrow> Inl (CannotDrive (str_trim e)))"

definition want_admits :: "string \<Rightarrow> string \<Rightarrow> bool" where
  "want_admits want e = (case edition_sort_key want of
       (base, cohort, suffix) \<Rightarrow>
         (if \<not> cohort then fst (edition_sort_key e) \<le> base
          else edition_sort_key e \<le> (base, cohort, suffix)))"

definition parse_declared_edition :: "string list \<Rightarrow> string \<Rightarrow> edition_error + edition" where
  "parse_declared_edition supported e =
     bind_res (parse_retained_edition supported e) (\<lambda>parsed.
       let want = str_trim e
       in if list_ex (\<lambda>can. want_admits want can) supported then Inr parsed
          else Inl (AdmitsNothing want (edition_base parsed)))"

section \<open>Handshake\<close>

definition protocol_generation :: string where
  "protocol_generation = ''rlmesh-wire-v1''"

definition is_protocol_generation_supported :: "string \<Rightarrow> bool" where
  "is_protocol_generation_supported generation = (str_trim generation = protocol_generation)"

definition evaluate_handshake :: "string \<Rightarrow> bool" where
  "evaluate_handshake client = is_protocol_generation_supported client"

definition capability_map :: "string list \<Rightarrow> (string \<times> string) list" where
  "capability_map names = map (\<lambda>name. (name, ''true'')) names"

definition has_capability :: "(string \<times> string) list \<Rightarrow> string \<Rightarrow> bool" where
  "has_capability caps name = (map_of caps name = Some ''true'')"

section \<open>Offers and selection\<close>

record session_offer =
  so_editions :: "string list"
  so_preferred :: "string option"

definition declared_workflow_edition :: "string \<Rightarrow> string option \<Rightarrow> string" where
  "declared_workflow_edition current declared =
     (case declared of
        None \<Rightarrow> current
      | Some d \<Rightarrow> (if str_trim d \<noteq> [] then str_trim d else current))"

definition offer_new :: "string list \<Rightarrow> session_offer" where
  "offer_new editions = \<lparr>so_editions = map str_trim editions, so_preferred = None\<rparr>"

definition this_build :: "string list \<Rightarrow> string \<Rightarrow> string option \<Rightarrow> session_offer" where
  "this_build supported current declared =
     \<lparr>so_editions = supported, so_preferred = Some (declared_workflow_edition current declared)\<rparr>"

definition offer_can :: "session_offer \<Rightarrow> string list" where
  "offer_can offer = filter (\<lambda>e. e \<noteq> []) (map str_trim (so_editions offer))"

definition offer_want :: "session_offer \<Rightarrow> string option" where
  "offer_want offer = (case so_preferred offer of
       None \<Rightarrow> None
     | Some w \<Rightarrow> (if str_trim w \<noteq> [] then Some (str_trim w) else None))"

record tier_offer =
  to_tier :: string
  to_can :: "string list"
  to_want :: "string option"

type_synonym edition_refusal = "tier_offer list"

definition involves_dev_build :: "edition_refusal \<Rightarrow> bool" where
  "involves_dev_build refusal = list_ex (\<lambda>tier. list_ex (str_contains ''-dev.'') (to_can tier)) refusal"

definition refuse :: "(string \<times> session_offer) list \<Rightarrow> edition_refusal" where
  "refuse tiers = map (\<lambda>(tier, offer). \<lparr>to_tier = tier, to_can = so_editions offer,
     to_want = offer_want offer\<rparr>) tiers"

definition select_workflow_edition ::
  "(string \<times> session_offer) list \<Rightarrow> edition_refusal + string" where
  "select_workflow_edition tiers = (case tiers of
      [] \<Rightarrow> Inl (refuse tiers)
    | (_, first) # _ \<Rightarrow>
        ok_or (max_by_key edition_sort_key
          (filter (\<lambda>e. list_all (\<lambda>(_, offer). case offer_want offer of
                None \<Rightarrow> True | Some want \<Rightarrow> want_admits want e) tiers)
            (filter (\<lambda>e. list_all (\<lambda>(_, offer). list_ex (\<lambda>other. other = e) (offer_can offer)) tiers)
              (offer_can first))))
          (refuse tiers))"

definition negotiate_workflow_edition ::
  "session_offer \<Rightarrow> session_offer \<Rightarrow> edition_refusal + string" where
  "negotiate_workflow_edition peer runtime =
     select_workflow_edition [(''env'', peer), (''runtime'', runtime)]"

datatype runtime_cap = CapCapability | CapDeclaration

record session_floor =
  sf_selected :: string
  sf_desired :: string
  sf_runtime_cap :: "runtime_cap option"

definition runtime_limited :: "session_floor \<Rightarrow> bool" where
  "runtime_limited fl = (sf_runtime_cap fl \<noteq> None)"

definition negotiate_session_floor ::
  "session_offer \<Rightarrow> session_offer \<Rightarrow> session_offer \<Rightarrow> edition_refusal + session_floor" where
  "negotiate_session_floor env model runtime =
     bind_res (select_workflow_edition [(''env'', env), (''model'', model), (''runtime'', runtime)])
      (\<lambda>selected.
        let desired = (case select_workflow_edition [(''env'', env), (''model'', model)] of
                         Inr d \<Rightarrow> d | Inl _ \<Rightarrow> selected);
            cap = (if desired \<noteq> selected then
               (let undeclared = \<lparr>so_editions = so_editions runtime, so_preferred = None\<rparr>;
                    capable = (case select_workflow_edition
                        [(''env'', env), (''model'', model), (''runtime'', undeclared)] of
                        Inr c \<Rightarrow> c | Inl _ \<Rightarrow> selected)
                in Some (if edition_sort_key selected < edition_sort_key capable
                         then CapDeclaration else CapCapability))
              else None)
        in Inr \<lparr>sf_selected = selected, sf_desired = desired, sf_runtime_cap = cap\<rparr>)"

section \<open>The ordering key\<close>

text \<open>
  A key that tells names apart orders them totally, so a maximal element of a list is unique and
  does not depend on the order of the list.
\<close>

locale ranked =
  fixes rank :: "'a \<Rightarrow> 'k::linorder"
  assumes rank_inj: "inj rank"
begin

lemma max_iff:
  "max_by_key rank ys = Some m \<longleftrightarrow> m \<in> set ys \<and> (\<forall>y \<in> set ys. rank y \<le> rank m)"
  using max_by_key_SomeD [of rank ys m] max_by_key_eqI [OF rank_inj, of m ys] by blast

lemma max_set_cong: "set xs = set ys \<Longrightarrow> max_by_key rank xs = max_by_key rank ys"
  by (metis max_iff not_None_eq max_by_key_None_iff set_empty)

lemma rank_antisym: "rank a \<le> rank b \<Longrightarrow> rank b \<le> rank a \<Longrightarrow> a = b"
  using rank_inj by (metis injD order_antisym)

end

definition key_name :: "string \<times> bool \<times> string \<Rightarrow> string" where
  "key_name k = (case k of (base, cohort, suffix) \<Rightarrow> if cohort then base @ CHR ''-'' # suffix else base)"

lemma key_name_sort_key: "key_name (edition_sort_key e) = e"
  using split_once_SomeD [of "CHR ''-''" e]
  by (auto simp: edition_sort_key_def key_name_def split: option.splits)

interpretation edition_order: ranked edition_sort_key
  by unfold_locales (metis injI key_name_sort_key)

lemma edition_sort_key_base_le:
  "edition_sort_key a \<le> edition_sort_key b \<Longrightarrow> fst (edition_sort_key a) \<le> fst (edition_sort_key b)"
  by (auto simp: less_eq_prod_def)

lemma edition_sort_key_bare: "CHR ''-'' \<notin> set e \<Longrightarrow> edition_sort_key e = (e, False, [])"
  by (simp add: edition_sort_key_def split_once_def)

lemma want_admits_of_le: "edition_sort_key e \<le> edition_sort_key want \<Longrightarrow> want_admits want e"
  by (auto simp: want_admits_def split: prod.splits dest: edition_sort_key_base_le)

section \<open>Selection\<close>

text \<open>The editions every tier can drive and every declaration admits.\<close>

definition mutual :: "(string \<times> session_offer) list \<Rightarrow> string set" where
  "mutual tiers = {e. \<forall>(t, offer) \<in> set tiers. e \<in> set (offer_can offer) \<and>
     (case offer_want offer of None \<Rightarrow> True | Some w \<Rightarrow> want_admits w e)}"

lemma select_unfold:
  "tiers \<noteq> [] \<Longrightarrow> \<exists>es. set es = mutual tiers \<and>
     select_workflow_edition tiers = ok_or (max_by_key edition_sort_key es) (refuse tiers)"
proof -
  assume "tiers \<noteq> []"
  then obtain t first rest where tiers: "tiers = (t, first) # rest" by (cases tiers) auto
  show ?thesis
    by (rule exI [of _ "filter (\<lambda>e. list_all (\<lambda>(_, offer). case offer_want offer of
                None \<Rightarrow> True | Some want \<Rightarrow> want_admits want e) tiers)
            (filter (\<lambda>e. list_all (\<lambda>(_, offer). list_ex (\<lambda>other. other = e) (offer_can offer)) tiers)
              (offer_can first))"])
      (auto simp: tiers select_workflow_edition_def mutual_def list_all_iff list_ex_iff)
qed

lemma select_Inr_iff:
  assumes "tiers \<noteq> []"
  shows "select_workflow_edition tiers = Inr e \<longleftrightarrow>
     e \<in> mutual tiers \<and> (\<forall>e' \<in> mutual tiers. edition_sort_key e' \<le> edition_sort_key e)"
proof -
  from select_unfold [OF assms] obtain es where es: "set es = mutual tiers"
    "select_workflow_edition tiers = ok_or (max_by_key edition_sort_key es) (refuse tiers)" by blast
  then have "select_workflow_edition tiers = Inr e \<longleftrightarrow> max_by_key edition_sort_key es = Some e"
    by (auto simp: ok_or_def split: option.splits)
  then show ?thesis by (simp add: edition_order.max_iff es(1))
qed

lemma select_Inl_iff:
  assumes "tiers \<noteq> []"
  shows "(\<exists>r. select_workflow_edition tiers = Inl r) \<longleftrightarrow> mutual tiers = {}"
  using select_unfold [OF assms] by (auto simp: ok_or_def split: option.splits)

lemma select_Inl_refuse: "select_workflow_edition tiers = Inl r \<Longrightarrow> r = refuse tiers"
  by (auto simp: select_workflow_edition_def ok_or_def split: list.splits option.splits)

lemma select_defined: "e \<in> mutual tiers \<Longrightarrow> tiers \<noteq> [] \<Longrightarrow> \<exists>s. select_workflow_edition tiers = Inr s"
  by (metis select_Inl_iff empty_iff sum.exhaust)

lemma mutual_mono: "set tiers \<subseteq> set tiers' \<Longrightarrow> mutual tiers' \<subseteq> mutual tiers"
  by (fastforce simp: mutual_def)

text \<open>With only the runtime's declaration dropped, nothing already admitted is refused.\<close>

lemma mutual_undeclare:
  "mutual (ts @ [(n, r)]) \<subseteq> mutual (ts @ [(n, \<lparr>so_editions = so_editions r, so_preferred = None\<rparr>)])"
  by (auto simp: mutual_def offer_can_def offer_want_def)

lemma select_le:
  assumes "select_workflow_edition ts = Inr a" "select_workflow_edition us = Inr b"
    and "mutual ts \<subseteq> mutual us" "ts \<noteq> []" "us \<noteq> []"
  shows "edition_sort_key a \<le> edition_sort_key b"
  using assms by (auto simp: select_Inr_iff)

lemma str_trim_base: "str_trim (edition_base ed) = edition_base ed"
proof (cases ed)
  case E2026_06
  have "str_trim ''2026.06'' = ''2026.06''" by code_simp
  with E2026_06 show ?thesis by simp
qed

lemma edition_parse_base: "edition_parse (edition_base ed) = Inr ed"
proof (cases ed)
  case E2026_06
  have "edition_parse ''2026.06'' = Inr E2026_06" by code_simp
  with E2026_06 show ?thesis by simp
qed

lemma edition_parse_InrD:
  "edition_parse e = Inr ed \<Longrightarrow> fst (edition_sort_key (str_trim e)) = edition_base ed"
  by (auto simp: edition_parse_def Let_def ok_or_def find_Some_iff split: prod.splits option.splits)

lemma edition_base_bare: "CHR ''-'' \<notin> set (edition_base ed)"
  by (cases ed) simp

lemma parse_retained_Inr_iff:
  "parse_retained_edition supported e = Inr ed \<longleftrightarrow>
     edition_parse e = Inr ed \<and> is_retained_edition supported ed"
  by (auto simp: parse_retained_edition_def split: sum.splits)

section \<open>Properties\<close>

text \<open>
  C5. The edition a session runs at is exactly the highest edition, in the order of
  \<open>edition_sort_key\<close>, among those every participant can drive and every declaration admits; a
  session is refused exactly when there is no such edition, and the refusal then names every
  participant's CAN and WANT in negotiation order.
\<close>

theorem select_workflow_edition_spec:
  assumes "tiers \<noteq> []"
  shows "(select_workflow_edition tiers = Inr e \<longleftrightarrow>
       e \<in> mutual tiers \<and> (\<forall>e' \<in> mutual tiers. edition_sort_key e' \<le> edition_sort_key e)) \<and>
     (select_workflow_edition tiers = Inl r \<longleftrightarrow> mutual tiers = {} \<and> r = refuse tiers)"
  using select_Inr_iff [OF assms, of e] select_Inl_iff [OF assms] select_Inl_refuse by blast

text \<open>A released runtime, a prerelease peer that also retains the sealed edition.\<close>

definition sample_env :: session_offer where
  "sample_env = \<lparr>so_editions = [''2026.06-0.1.0-rc.2'', ''2026.06''], so_preferred = None\<rparr>"

definition sample_runtime :: session_offer where
  "sample_runtime = \<lparr>so_editions = ['' 2026.06''], so_preferred = Some ''2026.06''\<rparr>"

theorem select_workflow_edition_spec_witness:
  "''2026.06'' \<in> mutual [(''env'', sample_env), (''runtime'', sample_runtime)]"
proof -
  have "select_workflow_edition [(''env'', sample_env), (''runtime'', sample_runtime)]
      = Inr ''2026.06''" by code_simp
  with select_workflow_edition_spec [of "[(''env'', sample_env), (''runtime'', sample_runtime)]"
      "''2026.06''"]
  show ?thesis by blast
qed

text \<open>
  C6. The three-party floor: it is refused exactly when env, model and runtime share no admitted
  edition. When it is not, the selected edition is one all three can drive and admit, it is the
  one the two peers alone would use or below it, the runtime counts as limiting the session
  exactly when the two differ, and the limit is put down to the runtime's declaration exactly
  when dropping that declaration would lift the session (both fallbacks of the code for a failed
  re-selection are unreachable).
\<close>

theorem negotiate_session_floor_spec:
  fixes env model runtime :: session_offer
  defines "all3 \<equiv> [(''env'', env), (''model'', model), (''runtime'', runtime)]"
    and "peers \<equiv> [(''env'', env), (''model'', model)]"
    and "free \<equiv> [(''env'', env), (''model'', model),
           (''runtime'', \<lparr>so_editions = so_editions runtime, so_preferred = None\<rparr>)]"
  shows "case negotiate_session_floor env model runtime of
      Inl r \<Rightarrow> mutual all3 = {} \<and> r = refuse all3
    | Inr fl \<Rightarrow>
        select_workflow_edition all3 = Inr (sf_selected fl) \<and>
        select_workflow_edition peers = Inr (sf_desired fl) \<and>
        edition_sort_key (sf_selected fl) \<le> edition_sort_key (sf_desired fl) \<and>
        (runtime_limited fl \<longleftrightarrow> sf_selected fl \<noteq> sf_desired fl) \<and>
        (\<exists>c. select_workflow_edition free = Inr c \<and>
             (sf_runtime_cap fl = Some CapDeclaration \<longleftrightarrow>
                runtime_limited fl \<and> edition_sort_key (sf_selected fl) < edition_sort_key c))"
proof (cases "select_workflow_edition all3")
  case (Inl r)
  with select_Inl_iff [of all3] select_Inl_refuse [OF Inl] show ?thesis
    by (auto simp: negotiate_session_floor_def all3_def)
next
  case (Inr s)
  have ne: "all3 \<noteq> []" "peers \<noteq> []" "free \<noteq> []" by (simp_all add: all3_def peers_def free_def)
  have sub: "mutual all3 \<subseteq> mutual peers" "mutual all3 \<subseteq> mutual free"
    using mutual_mono [of peers all3] mutual_undeclare [of "peers" "''runtime''" runtime]
    by (auto simp: all3_def peers_def free_def)
  from Inr ne have "s \<in> mutual all3" by (simp add: select_Inr_iff)
  with sub ne obtain d c where d: "select_workflow_edition peers = Inr d"
    and c: "select_workflow_edition free = Inr c" by (meson select_defined subsetD)
  have "edition_sort_key s \<le> edition_sort_key d" by (rule select_le [OF Inr d sub(1) ne(1,2)])
  with Inr d c show ?thesis
    by (auto simp: negotiate_session_floor_def all3_def peers_def free_def Let_def runtime_limited_def)
qed



text \<open>
  C8. The bare base of a retained edition can always be declared: on any build whose list of
  supported names is trimmed, \<open>parse_declared_edition\<close> accepts the base of every edition the
  build retains, and whatever it accepts is a retained edition that admits some edition on offer.
\<close>

theorem declared_base_accepted:
  assumes "\<forall>name \<in> set supported. str_trim name = name"
  shows "(is_retained_edition supported ed \<longrightarrow>
            parse_declared_edition supported (edition_base ed) = Inr ed) \<and>
         (parse_declared_edition supported e = Inr ed \<longrightarrow>
            is_retained_edition supported ed \<and> (\<exists>can \<in> set supported. want_admits (str_trim e) can))"
proof (intro conjI impI)
  assume ret: "is_retained_edition supported ed"
  then obtain name where name: "name \<in> set supported" "edition_parse name = Inr ed"
    by (auto simp: is_retained_edition_def list_ex_iff)
  then have "fst (edition_sort_key name) = edition_base ed"
    using assms edition_parse_InrD by fastforce
  then have "want_admits (edition_base ed) name"
    by (simp add: want_admits_def edition_sort_key_bare [OF edition_base_bare])
  with name(1) ret show "parse_declared_edition supported (edition_base ed) = Inr ed"
    by (auto simp: parse_declared_edition_def parse_retained_edition_def edition_parse_base
        str_trim_base list_ex_iff Let_def)
next
  assume "parse_declared_edition supported e = Inr ed"
  then show "is_retained_edition supported ed" "\<exists>can \<in> set supported. want_admits (str_trim e) can"
    by (auto simp: parse_declared_edition_def Let_def bind_res_Inr_iff parse_retained_Inr_iff
        list_ex_iff split: if_splits)
qed

theorem declared_base_accepted_witness:
  "parse_declared_edition [''2026.06-0.1.0-rc.2''] (edition_base E2026_06) = Inr E2026_06"
proof -
  have "str_trim ''2026.06-0.1.0-rc.2'' = ''2026.06-0.1.0-rc.2''" by code_simp
  moreover have "is_retained_edition [''2026.06-0.1.0-rc.2''] E2026_06" by code_simp
  ultimately show ?thesis
    using declared_base_accepted [of "[''2026.06-0.1.0-rc.2'']" E2026_06 "[]"] by simp
qed

end
