(* ===== verification/DTypes.thy ===== *)
theory DTypes
  imports Prelude
begin

text \<open>
  The element types of tensor values (\<^verbatim>\<open>crates/rlmesh-spaces/src/dtype.rs\<close>): their wire
  discriminants, names, classes and byte sizes.
\<close>

datatype dtype = DUnspecified | Bool | Uint8 | Uint16 | Uint32 | Uint64 | Int8 | Int16 | Int32 | Int64
  | Float16 | Float32 | Float64

definition dtype_all :: "dtype list" where
  "dtype_all = [DUnspecified, Bool, Uint8, Uint16, Uint32, Uint64, Int8, Int16, Int32, Int64,
     Float16, Float32, Float64]"

fun dtype_to_i32 :: "dtype \<Rightarrow> int" where
  "dtype_to_i32 DUnspecified = 0"
| "dtype_to_i32 Bool = 1"
| "dtype_to_i32 Uint8 = 2"
| "dtype_to_i32 Uint16 = 3"
| "dtype_to_i32 Uint32 = 4"
| "dtype_to_i32 Uint64 = 5"
| "dtype_to_i32 Int8 = 6"
| "dtype_to_i32 Int16 = 7"
| "dtype_to_i32 Int32 = 8"
| "dtype_to_i32 Int64 = 9"
| "dtype_to_i32 Float16 = 10"
| "dtype_to_i32 Float32 = 11"
| "dtype_to_i32 Float64 = 12"

definition dtype_try_from :: "int \<Rightarrow> dtype option" where
  "dtype_try_from v =
     (if v = 0 then Some DUnspecified else if v = 1 then Some Bool else if v = 2 then Some Uint8
      else if v = 3 then Some Uint16 else if v = 4 then Some Uint32 else if v = 5 then Some Uint64
      else if v = 6 then Some Int8 else if v = 7 then Some Int16 else if v = 8 then Some Int32
      else if v = 9 then Some Int64 else if v = 10 then Some Float16 else if v = 11 then Some Float32
      else if v = 12 then Some Float64 else None)"

fun dtype_name :: "dtype \<Rightarrow> string" where
  "dtype_name DUnspecified = ''unspecified''"
| "dtype_name Bool = ''bool''"
| "dtype_name Uint8 = ''uint8''"
| "dtype_name Int32 = ''int32''"
| "dtype_name Int64 = ''int64''"
| "dtype_name Float16 = ''float16''"
| "dtype_name Float32 = ''float32''"
| "dtype_name Float64 = ''float64''"
| "dtype_name Int8 = ''int8''"
| "dtype_name Int16 = ''int16''"
| "dtype_name Uint16 = ''uint16''"
| "dtype_name Uint32 = ''uint32''"
| "dtype_name Uint64 = ''uint64''"

definition dtype_from_name :: "string \<Rightarrow> dtype option" where
  "dtype_from_name name =
     (if name = ''bool'' then Some Bool else if name = ''uint8'' then Some Uint8
      else if name = ''int32'' then Some Int32 else if name = ''int64'' then Some Int64
      else if name = ''float16'' then Some Float16 else if name = ''float32'' then Some Float32
      else if name = ''float64'' then Some Float64 else if name = ''int8'' then Some Int8
      else if name = ''int16'' then Some Int16 else if name = ''uint16'' then Some Uint16
      else if name = ''uint32'' then Some Uint32 else if name = ''uint64'' then Some Uint64
      else None)"

definition is_integer :: "dtype \<Rightarrow> bool" where
  "is_integer d = (d \<in> {Uint8, Int8, Int16, Uint16, Int32, Uint32, Int64, Uint64})"

definition is_float :: "dtype \<Rightarrow> bool" where
  "is_float d = (d \<in> {Float16, Float32, Float64})"

fun dtype_size :: "dtype \<Rightarrow> nat" where
  "dtype_size DUnspecified = 0"
| "dtype_size Bool = 1"
| "dtype_size Uint8 = 1"
| "dtype_size Int8 = 1"
| "dtype_size Float16 = 2"
| "dtype_size Int16 = 2"
| "dtype_size Uint16 = 2"
| "dtype_size Int32 = 4"
| "dtype_size Uint32 = 4"
| "dtype_size Float32 = 4"
| "dtype_size Int64 = 8"
| "dtype_size Uint64 = 8"
| "dtype_size Float64 = 8"

lemma dtype_all_UNIV: "set dtype_all = UNIV"
proof -
  have "d \<in> set dtype_all" for d by (cases d) (simp_all add: dtype_all_def)
  then show ?thesis by blast
qed

lemma dtype_try_from_iff: "dtype_try_from v = Some d \<longleftrightarrow> v = dtype_to_i32 d"
  by (cases d) (auto simp: dtype_try_from_def)

lemma dtype_from_name_iff: "dtype_from_name n = Some d \<longleftrightarrow> n = dtype_name d \<and> d \<noteq> DUnspecified"
  by (cases d) (auto simp: dtype_from_name_def)

lemma dtype_size_pos: "0 < dtype_size d \<longleftrightarrow> d \<noteq> DUnspecified"
  by (cases d) simp_all


end
