(* ===== verification/Telemetry.thy ===== *)
theory Telemetry
  imports Proto OrdMap "HOL-Library.Char_ord" "HOL-Library.List_Lexorder" "HOL-Library.Product_Lexorder"
begin

text \<open>
  Telemetry aggregation (\<^verbatim>\<open>crates/rlmesh-runtime/src/telemetry\<close>): the sample reservoir
  (\<open>reservoir.rs\<close>), the summary statistics (\<open>stats.rs\<close>), the metric catalog and the windowed and
  session aggregator (\<open>mod.rs\<close>), and what the driver records per operation (\<open>record_op\<close> and
  \<open>record_history_rows\<close> of \<open>driver.rs\<close>). An index out of range is the panic value \<open>None\<close>, so that
  its absence is a theorem.
\<close>

unbundle bit_operations_syntax

section \<open>Reservoir\<close>

record 'a reservoir =
  rv_samples :: "'a list"
  rv_capacity :: nat
  rv_seen :: nat
  rv_rng :: "64 word"

definition default_reservoir_capacity :: nat where
  "default_reservoir_capacity = 8192"

definition reservoir_new :: "nat \<Rightarrow> 'a reservoir" where
  "reservoir_new capacity =
     \<lparr>rv_samples = [], rv_capacity = max capacity 1, rv_seen = 0, rv_rng = 0x9E3779B97F4A7C15\<rparr>"

definition reservoir_default :: "'a reservoir" where
  "reservoir_default = reservoir_new default_reservoir_capacity"

definition xorshift :: "64 word \<Rightarrow> 64 word" where
  "xorshift x0 = (let x1 = x0 XOR drop_bit 12 x0; x2 = x1 XOR push_bit 25 x1
                  in x2 XOR drop_bit 27 x2)"

definition next_u64 :: "'a reservoir \<Rightarrow> 64 word \<times> 'a reservoir" where
  "next_u64 r = (let x = xorshift (rv_rng r) in (x * 0x2545F4914F6CDD1D, r\<lparr>rv_rng := x\<rparr>))"

definition reservoir_push :: "'a \<Rightarrow> 'a reservoir \<Rightarrow> 'a reservoir" where
  "reservoir_push sample r0 =
     (let r = r0\<lparr>rv_seen := rv_seen r0 + 1\<rparr> in
      if length (rv_samples r) < rv_capacity r then r\<lparr>rv_samples := rv_samples r @ [sample]\<rparr>
      else let (u, r') = next_u64 r; slot = unat u mod rv_seen r
           in if slot < rv_capacity r' then r'\<lparr>rv_samples := (rv_samples r')[slot := sample]\<rparr>
              else r')"

definition reservoir_clear :: "'a reservoir \<Rightarrow> 'a reservoir" where
  "reservoir_clear r = r\<lparr>rv_samples := [], rv_seen := 0\<rparr>"

section \<open>Summary statistics\<close>

record summary =
  sy_avg :: f64
  sy_p50 :: f64
  sy_p95 :: f64
  sy_p99 :: f64

definition nearest_rank :: "f64 list \<Rightarrow> f64 \<Rightarrow> f64 option" where
  "nearest_rank buf percentile =
     nth_opt buf (f64_ceil_usize (f64_mul (f64_of_nat (length buf - 1)) percentile))"

text \<open>\<open>Iterator::sum\<close> folds from \<open>-0.0\<close>. The outer option of \<open>summary\<close> is the panic.\<close>

definition summary_of :: "f64 list \<Rightarrow> summary option option" where
  "summary_of samples =
     (if samples = [] then Some None
      else let avg = f64_div (foldl f64_add (Fin True 0) samples) (f64_of_nat (length samples));
               buf = sort samples
           in case (nearest_rank buf (f64_lit 50 100), nearest_rank buf (f64_lit 95 100),
                    nearest_rank buf (f64_lit 99 100)) of
                (Some a, Some b, Some c) \<Rightarrow>
                   Some (Some \<lparr>sy_avg = avg, sy_p50 = a, sy_p95 = b, sy_p99 = c\<rparr>)
              | _ \<Rightarrow> None)"

section \<open>Metrics and samples\<close>

datatype kind = KDuration | KBytes | KCount

record metric =
  mt_name :: string
  mt_kind :: kind

definition metric_duration :: "string \<Rightarrow> metric" where
  "metric_duration name = \<lparr>mt_name = name, mt_kind = KDuration\<rparr>"

definition metric_bytes :: "string \<Rightarrow> metric" where
  "metric_bytes name = \<lparr>mt_name = name, mt_kind = KBytes\<rparr>"

definition metric_count :: "string \<Rightarrow> metric" where
  "metric_count name = \<lparr>mt_name = name, mt_kind = KCount\<rparr>"

definition ENDPOINT_TOTAL :: metric where "ENDPOINT_TOTAL = metric_duration ''endpoint.total''"
definition RPC_TOTAL :: metric where "RPC_TOTAL = metric_duration ''rpc.total''"
definition REQUEST_BYTES :: metric where "REQUEST_BYTES = metric_bytes ''request.bytes''"
definition RESPONSE_BYTES :: metric where "RESPONSE_BYTES = metric_bytes ''response.bytes''"
definition ENDPOINT_DECODE :: metric where "ENDPOINT_DECODE = metric_duration ''endpoint.decode''"
definition ENDPOINT_USER :: metric where "ENDPOINT_USER = metric_duration ''endpoint.user''"
definition ENDPOINT_ENCODE :: metric where "ENDPOINT_ENCODE = metric_duration ''endpoint.encode''"
definition ENDPOINT_QUEUE :: metric where "ENDPOINT_QUEUE = metric_duration ''endpoint.queue''"
definition PREDICT_IN_FLIGHT :: metric where "PREDICT_IN_FLIGHT = metric_count ''predict.in_flight''"
definition PREDICT_ADAPTER :: metric where "PREDICT_ADAPTER = metric_duration ''predict.adapter''"
definition HELD_EPISODES :: metric where "HELD_EPISODES = metric_count ''held.episodes''"
definition HELD_BYTES :: metric where "HELD_BYTES = metric_bytes ''held.bytes''"
definition GROUP_SIZE :: metric where "GROUP_SIZE = metric_count ''group.size''"
definition LANE_SKEW :: metric where "LANE_SKEW = metric_duration ''lane.skew''"
definition HISTORY_ROWS :: metric where "HISTORY_ROWS = metric_count ''history.rows''"

definition metrics_all :: "metric list" where
  "metrics_all = [ENDPOINT_TOTAL, ENDPOINT_DECODE, ENDPOINT_USER, ENDPOINT_ENCODE, ENDPOINT_QUEUE,
     PREDICT_IN_FLIGHT, PREDICT_ADAPTER, HELD_EPISODES, HELD_BYTES, RPC_TOTAL, REQUEST_BYTES,
     RESPONSE_BYTES, GROUP_SIZE, LANE_SKEW, HISTORY_ROWS]"

lemmas metric_defs = ENDPOINT_TOTAL_def RPC_TOTAL_def REQUEST_BYTES_def RESPONSE_BYTES_def
  ENDPOINT_DECODE_def ENDPOINT_USER_def ENDPOINT_ENCODE_def ENDPOINT_QUEUE_def
  PREDICT_IN_FLIGHT_def PREDICT_ADAPTER_def HELD_EPISODES_def HELD_BYTES_def GROUP_SIZE_def
  LANE_SKEW_def HISTORY_ROWS_def metric_duration_def metric_bytes_def metric_count_def

record source =
  sc_op :: string
  sc_component :: string

record sample =
  sm_source :: source
  sm_metric :: metric
  sm_value :: f64

text \<open>\<open>Duration::as_secs_f64\<close> of a duration in nanoseconds.\<close>

definition as_secs_f64 :: "nat \<Rightarrow> f64" where
  "as_secs_f64 ns = f64_add (f64_of_nat (ns div 1000000000))
     (f64_div (f64_of_nat (ns mod 1000000000)) (f64_of_nat 1000000000))"

definition sample_dur :: "source \<Rightarrow> metric \<Rightarrow> nat \<Rightarrow> sample" where
  "sample_dur src m ns =
     \<lparr>sm_source = src, sm_metric = m, sm_value = f64_mul (as_secs_f64 ns) (f64_of_nat 1000)\<rparr>"

definition sample_bytes :: "source \<Rightarrow> metric \<Rightarrow> nat \<Rightarrow> sample" where
  "sample_bytes src m n = \<lparr>sm_source = src, sm_metric = m, sm_value = f64_of_nat n\<rparr>"

definition sample_count :: "source \<Rightarrow> metric \<Rightarrow> nat \<Rightarrow> sample" where
  "sample_count src m n = \<lparr>sm_source = src, sm_metric = m, sm_value = f64_of_nat n\<rparr>"

section \<open>Aggregator\<close>

datatype horizon = Window | Session

record row =
  rw_source :: source
  rw_metric :: metric
  rw_count :: nat
  rw_avg :: f64
  rw_p50 :: f64
  rw_p95 :: f64
  rw_p99 :: f64

record snapshot =
  sn_horizon :: horizon
  sn_rows :: "row list"

record series =
  se_source :: source
  se_metric :: metric
  se_window :: "f64 reservoir"
  se_session :: "f64 reservoir"

type_synonym series_key = "string \<times> string \<times> string"
type_synonym aggregator = "(series_key \<times> series) list"

definition series_new :: "source \<Rightarrow> metric \<Rightarrow> series" where
  "series_new src m =
     \<lparr>se_source = src, se_metric = m, se_window = reservoir_default, se_session = reservoir_default\<rparr>"

definition horizon_reservoir :: "horizon \<Rightarrow> series \<Rightarrow> f64 reservoir" where
  "horizon_reservoir h s = (case h of Window \<Rightarrow> se_window s | Session \<Rightarrow> se_session s)"

definition summarize :: "horizon \<Rightarrow> series \<Rightarrow> row option option" where
  "summarize h s =
     map_option (map_option (\<lambda>stats. \<lparr>rw_source = se_source s, rw_metric = se_metric s,
        rw_count = rv_seen (horizon_reservoir h s), rw_avg = sy_avg stats, rw_p50 = sy_p50 stats,
        rw_p95 = sy_p95 stats, rw_p99 = sy_p99 stats\<rparr>))
       (summary_of (rv_samples (horizon_reservoir h s)))"

definition sample_key :: "sample \<Rightarrow> series_key" where
  "sample_key s = (sc_op (sm_source s), sc_component (sm_source s), mt_name (sm_metric s))"

definition agg_record :: "sample \<Rightarrow> aggregator \<Rightarrow> aggregator" where
  "agg_record s agg = bt_update (sample_key s)
     (\<lambda>entry. let series = (case entry of None \<Rightarrow> series_new (sm_source s) (sm_metric s)
                                        | Some series \<Rightarrow> series)
              in series\<lparr>se_window := reservoir_push (sm_value s) (se_window series),
                        se_session := reservoir_push (sm_value s) (se_session series)\<rparr>) agg"

text \<open>\<open>None\<close> is a panic in one of the series' summaries.\<close>

fun collect_rows :: "row option option list \<Rightarrow> row list option" where
  "collect_rows [] = Some []"
| "collect_rows (r # rs) = (case (r, collect_rows rs) of
      (Some (Some row), Some rows) \<Rightarrow> Some (row # rows)
    | (Some None, Some rows) \<Rightarrow> Some rows
    | _ \<Rightarrow> None)"

definition agg_snapshot :: "horizon \<Rightarrow> aggregator \<Rightarrow> snapshot option" where
  "agg_snapshot h agg = map_option (\<lambda>rows. \<lparr>sn_horizon = h, sn_rows = rows\<rparr>)
     (collect_rows (map (\<lambda>(_, s). summarize h s) agg))"

definition flush_window :: "aggregator \<Rightarrow> aggregator" where
  "flush_window agg = bt_map_values (\<lambda>s. s\<lparr>se_window := reservoir_clear (se_window s)\<rparr>) agg"

text \<open>One turn of the ticker's loop body: the window snapshot it pushes, if it is not empty.\<close>

definition ticker_tick :: "aggregator \<Rightarrow> (snapshot option \<times> aggregator) option" where
  "ticker_tick agg = (case agg_snapshot Window agg of
      None \<Rightarrow> None
    | Some snap \<Rightarrow> Some (if sn_rows snap = [] then None else Some snap, flush_window agg))"

section \<open>What the driver records\<close>

record peer_report =
  pr_endpoint_total_ns :: "nat option"
  pr_phases :: endpoint_phases
  pr_group_size :: "nat option"

definition opt_list :: "'a option \<Rightarrow> 'a list" where
  "opt_list x = (case x of None \<Rightarrow> [] | Some a \<Rightarrow> [a])"

text \<open>The samples of one operation, in the order \<open>record_op\<close> records them.\<close>

definition op_samples :: "source \<Rightarrow> nat \<Rightarrow> peer_report \<Rightarrow> nat \<Rightarrow> nat \<Rightarrow> sample list" where
  "op_samples src rpc peer request_bytes response_bytes =
     (let ph = pr_phases peer in
      [sample_dur src RPC_TOTAL rpc]
      @ map (sample_dur src ENDPOINT_TOTAL) (opt_list (pr_endpoint_total_ns peer))
      @ concat (map (\<lambda>(m, ns). if ns \<noteq> 0 then [sample_dur src m ns] else [])
          [(ENDPOINT_DECODE, ph_decode_ns ph), (ENDPOINT_USER, ph_user_ns ph),
           (ENDPOINT_ENCODE, ph_encode_ns ph), (ENDPOINT_QUEUE, ph_queue_ns ph),
           (PREDICT_ADAPTER, ph_adapter_ns ph)])
      @ map (sample_dur src LANE_SKEW) (opt_list (ph_lane_skew_ns ph))
      @ (if ph_in_flight ph \<noteq> 0 then [sample_count src PREDICT_IN_FLIGHT (ph_in_flight ph)] else [])
      @ map (sample_count src HELD_EPISODES) (opt_list (ph_held_episodes ph))
      @ map (sample_bytes src HELD_BYTES) (opt_list (ph_held_state_bytes ph))
      @ [sample_bytes src REQUEST_BYTES request_bytes, sample_bytes src RESPONSE_BYTES response_bytes]
      @ map (sample_count src GROUP_SIZE) (opt_list (pr_group_size peer)))"

definition record_op :: "source \<Rightarrow> nat \<Rightarrow> peer_report \<Rightarrow> nat \<Rightarrow> nat \<Rightarrow> aggregator \<Rightarrow> aggregator" where
  "record_op src rpc peer request_bytes response_bytes agg =
     fold agg_record (op_samples src rpc peer request_bytes response_bytes) agg"

definition SRC_PREDICT :: source where
  "SRC_PREDICT = \<lparr>sc_op = ''model.predict'', sc_component = ''model''\<rparr>"
definition SRC_RESET_ADAPTER :: source where
  "SRC_RESET_ADAPTER = \<lparr>sc_op = ''model.reset_adapter'', sc_component = ''model''\<rparr>"
definition SRC_STEP :: source where
  "SRC_STEP = \<lparr>sc_op = ''env.step'', sc_component = ''env''\<rparr>"
definition SRC_RESET :: source where
  "SRC_RESET = \<lparr>sc_op = ''env.reset'', sc_component = ''env''\<rparr>"
definition SRC_TRANSFORM_OBS :: source where
  "SRC_TRANSFORM_OBS = \<lparr>sc_op = ''runner.transform_observation'', sc_component = ''runner''\<rparr>"
definition SRC_TRANSFORM_ACTION :: source where
  "SRC_TRANSFORM_ACTION = \<lparr>sc_op = ''runner.transform_action'', sc_component = ''runner''\<rparr>"
definition SRC_ROUND :: source where
  "SRC_ROUND = \<lparr>sc_op = ''runner.round'', sc_component = ''runner''\<rparr>"

definition record_history_rows :: "predict_request \<Rightarrow> aggregator \<Rightarrow> aggregator" where
  "record_history_rows msg agg =
     (if pq_history msg \<noteq> []
      then agg_record (sample_count SRC_PREDICT HISTORY_ROWS (length (pq_history msg))) agg
      else agg)"

section \<open>The reservoir keeps a bounded sub-collection\<close>

lemma xor_self_shift_nonzero:
  fixes x :: "64 word"
  assumes "x \<noteq> 0" "0 < n"
  shows "x XOR drop_bit n x \<noteq> 0" and "x XOR push_bit n x \<noteq> 0"
proof -
  have xor0: "a XOR b = 0 \<Longrightarrow> a = b" for a b :: "64 word"
    by (auto simp: bit_eq_iff bit_simps)
  have iter_d: "drop_bit (m * n) x = x" if fix_d: "drop_bit n x = x" for m
  proof (induction m)
    case (Suc m)
    have "drop_bit (Suc m * n) x = drop_bit (m * n) (drop_bit n x)"
      by (simp add: drop_bit_drop_bit add.commute)
    then show ?case by (simp only: fix_d Suc)
  qed simp
  have iter_p: "push_bit (m * n) x = x" if fix_p: "push_bit n x = x" for m
  proof (induction m)
    case (Suc m)
    have "push_bit (Suc m * n) x = push_bit (m * n) (push_bit n x)"
      by (simp add: push_bit_push_bit add.commute)
    then show ?case by (simp only: fix_p Suc)
  qed simp
  have big: "64 \<le> 64 * n" using assms(2) by simp
  have "drop_bit (64 * n) x = 0"
    using big by (intro bit_word_eqI) (auto simp: bit_simps dest: bit_imp_le_length)
  with iter_d [of 64] assms(1) xor0 show "x XOR drop_bit n x \<noteq> 0" by metis
  have "push_bit (64 * n) x = 0"
    using big by (intro bit_word_eqI) (auto simp: bit_simps)
  with iter_p [of 64] assms(1) xor0 show "x XOR push_bit n x \<noteq> 0" by metis
qed

lemma xorshift_nonzero: "x \<noteq> 0 \<Longrightarrow> xorshift x \<noteq> 0"
  unfolding xorshift_def Let_def by (intro xor_self_shift_nonzero) simp_all

text \<open>\<open>rv_wf r xs\<close>: the reservoir after the values \<open>xs\<close> since it was made or cleared.\<close>

definition rv_wf :: "'a reservoir \<Rightarrow> 'a list \<Rightarrow> bool" where
  "rv_wf r xs \<longleftrightarrow> 0 < rv_capacity r \<and> rv_seen r = length xs \<and> rv_rng r \<noteq> 0 \<and>
     length (rv_samples r) = min (length xs) (rv_capacity r) \<and> set (rv_samples r) \<subseteq> set xs \<and>
     (length xs \<le> rv_capacity r \<longrightarrow> rv_samples r = xs)"

lemma rv_wf_new: "rv_wf (reservoir_new c) []"
  by (simp add: rv_wf_def reservoir_new_def)

lemma rv_wf_clear: "rv_wf r xs \<Longrightarrow> rv_wf (reservoir_clear r) []"
  by (simp add: rv_wf_def reservoir_clear_def)

lemma rv_capacity_push [simp]: "rv_capacity (reservoir_push x r) = rv_capacity r"
  by (simp add: reservoir_push_def next_u64_def Let_def)

lemma rv_capacity_clear [simp]: "rv_capacity (reservoir_clear r) = rv_capacity r"
  by (simp add: reservoir_clear_def)

lemma rv_wf_push:
  assumes "rv_wf r xs"
  shows "rv_wf (reservoir_push x r) (xs @ [x])"
proof (cases "length (rv_samples r) < rv_capacity r")
  case True
  with assms show ?thesis by (auto simp: rv_wf_def reservoir_push_def Let_def min_def split: if_splits)
next
  case False
  have upd: "set ((rv_samples r)[i := x]) \<subseteq> insert x (set xs)" for i
    using assms set_update_subset_insert [of "rv_samples r" i x] by (auto simp: rv_wf_def)
  show ?thesis
    using assms False upd xorshift_nonzero [of "rv_rng r"]
    by (auto simp: rv_wf_def reservoir_push_def next_u64_def Let_def min_def split: if_splits)
qed

section \<open>Summaries are total and ordered\<close>

lemma nearest_rank_defined:
  assumes "xs \<noteq> []" "length xs < 2 ^ 53" "p \<le> 100"
  shows "\<exists>i < length xs. nearest_rank xs (f64_lit p 100) = Some (xs ! i)"
proof -
  obtain b where b: "b \<le> f64_unit" "f64_lit p 100 = Fin False b"
    using f64_lit_frac [of p 100] assms(3) by auto
  let ?i = "f64_ceil_usize (f64_mul (f64_of_nat (length xs - 1)) (Fin False b))"
  have "?i \<le> length xs - 1" using assms(2) b(1) by (intro f64_scaled_index_le) simp_all
  then have "?i < length xs" using assms(1) by (cases xs) auto
  then show ?thesis using b(2) by (auto simp: nearest_rank_def nth_opt_eq)
qed

lemma nearest_rank_mono:
  assumes "sorted xs" "xs \<noteq> []" "length xs < 2 ^ 53" "p \<le> p'" "p' \<le> 100"
    and "nearest_rank xs (f64_lit p 100) = Some a" "nearest_rank xs (f64_lit p' 100) = Some b"
  shows "a \<le> b"
proof -
  obtain u v where uv: "f64_lit p 100 = Fin False u" "f64_lit p' 100 = Fin False v" "u \<le> v" "v \<le> f64_unit"
    using f64_lit_mono [of p p' 100] assms(4,5) by auto
  let ?i = "f64_ceil_usize (f64_mul (f64_of_nat (length xs - 1)) (Fin False u))"
  let ?j = "f64_ceil_usize (f64_mul (f64_of_nat (length xs - 1)) (Fin False v))"
  have "?i \<le> ?j" using uv assms(3) by (intro f64_scaled_index_mono) simp_all
  with assms(1,6,7) uv show ?thesis
    by (auto simp: nearest_rank_def nth_opt_Some_iff intro: sorted_nth_mono)
qed

lemma summary_of_spec:
  assumes "length xs < 2 ^ 53"
  shows "case summary_of xs of
      None \<Rightarrow> False
    | Some None \<Rightarrow> xs = []
    | Some (Some s) \<Rightarrow> xs \<noteq> [] \<and> {sy_p50 s, sy_p95 s, sy_p99 s} \<subseteq> set xs \<and>
        sy_p50 s \<le> sy_p95 s \<and> sy_p95 s \<le> sy_p99 s"
proof (cases "xs = []")
  case True
  then show ?thesis by (simp add: summary_of_def)
next
  case False
  let ?s = "sort xs"
  have len: "length ?s < 2 ^ 53" using assms by simp
  have "length ?s \<noteq> 0" using False by simp
  then have ne: "?s \<noteq> []" by (metis list.size(3))
  have ex: "\<exists>a. nearest_rank ?s (f64_lit p 100) = Some a \<and> a \<in> set xs" if "p \<le> 100" for p
    using nearest_rank_defined [OF ne len that] nth_mem [of _ ?s] by auto
  obtain a where a: "nearest_rank ?s (f64_lit 50 100) = Some a" "a \<in> set xs" using ex [of 50] by auto
  obtain b where b: "nearest_rank ?s (f64_lit 95 100) = Some b" "b \<in> set xs" using ex [of 95] by auto
  obtain c where c: "nearest_rank ?s (f64_lit 99 100) = Some c" "c \<in> set xs" using ex [of 99] by auto
  have "a \<le> b" by (rule nearest_rank_mono [OF _ ne len _ _ a(1) b(1)]) simp_all
  moreover have "b \<le> c" by (rule nearest_rank_mono [OF _ ne len _ _ b(1) c(1)]) simp_all
  ultimately show ?thesis using a b c False by (simp add: summary_of_def Let_def)
qed

section \<open>What an aggregator holds\<close>

datatype agg_op = Record sample | Flush

fun agg_step :: "agg_op \<Rightarrow> aggregator \<Rightarrow> aggregator" where
  "agg_step (Record s) agg = agg_record s agg"
| "agg_step Flush agg = flush_window agg"

definition agg_run :: "agg_op list \<Rightarrow> aggregator" where
  "agg_run ops = fold agg_step ops []"

text \<open>The values recorded under a key, over all operations and since the last flush.\<close>

definition session_vals :: "agg_op list \<Rightarrow> series_key \<Rightarrow> f64 list" where
  "session_vals ops k = concat (map (\<lambda>op. case op of
      Record s \<Rightarrow> if sample_key s = k then [sm_value s] else [] | Flush \<Rightarrow> []) ops)"

definition since_flush :: "agg_op list \<Rightarrow> agg_op list" where
  "since_flush ops = rev (takeWhile (\<lambda>op. op \<noteq> Flush) (rev ops))"

definition horizon_vals :: "horizon \<Rightarrow> agg_op list \<Rightarrow> series_key \<Rightarrow> f64 list" where
  "horizon_vals h ops k = (case h of Session \<Rightarrow> session_vals ops k
                                   | Window \<Rightarrow> session_vals (since_flush ops) k)"

lemma session_vals_snoc:
  "session_vals (ops @ [Record s]) k = session_vals ops k @ (if sample_key s = k then [sm_value s] else [])"
  "session_vals (ops @ [Flush]) k = session_vals ops k"
  by (simp_all add: session_vals_def)

lemma since_flush_snoc:
  "since_flush (ops @ [Record s]) = since_flush ops @ [Record s]"
  "since_flush (ops @ [Flush]) = []"
  by (simp_all add: since_flush_def)

lemma session_vals_since_flush: "session_vals ops k = [] \<Longrightarrow> session_vals (since_flush ops) k = []"
  unfolding since_flush_def session_vals_def
  by (auto dest: set_takeWhileD)

definition series_key_of :: "series \<Rightarrow> series_key" where
  "series_key_of s = (sc_op (se_source s), sc_component (se_source s), mt_name (se_metric s))"

definition series_wf :: "agg_op list \<Rightarrow> series_key \<Rightarrow> series \<Rightarrow> bool" where
  "series_wf ops k s \<longleftrightarrow> series_key_of s = k \<and> session_vals ops k \<noteq> [] \<and>
     (\<forall>h. rv_wf (horizon_reservoir h s) (horizon_vals h ops k) \<and>
          rv_capacity (horizon_reservoir h s) = default_reservoir_capacity)"

definition agg_inv :: "agg_op list \<Rightarrow> aggregator \<Rightarrow> bool" where
  "agg_inv ops agg \<longleftrightarrow> bt_inv agg \<and>
     (\<forall>k. case map_of agg k of None \<Rightarrow> session_vals ops k = [] | Some s \<Rightarrow> series_wf ops k s)"

lemma agg_invD:
  assumes "agg_inv ops agg"
  shows "map_of agg k = None \<Longrightarrow> session_vals ops k = []"
    and "map_of agg k = Some s \<Longrightarrow> series_wf ops k s"
proof -
  from assms have "case map_of agg k of None \<Rightarrow> session_vals ops k = [] | Some s \<Rightarrow> series_wf ops k s"
    unfolding agg_inv_def by blast
  then show "map_of agg k = None \<Longrightarrow> session_vals ops k = []"
    and "map_of agg k = Some s \<Longrightarrow> series_wf ops k s" by simp_all
qed

lemma series_wf_new:
  "session_vals ops (sample_key s) = [] \<Longrightarrow>
   series_key_of (series_new (sm_source s) (sm_metric s)) = sample_key s \<and>
   (\<forall>h. rv_wf (horizon_reservoir h (series_new (sm_source s) (sm_metric s))) (horizon_vals h ops (sample_key s)) \<and>
        rv_capacity (horizon_reservoir h (series_new (sm_source s) (sm_metric s))) = default_reservoir_capacity)"
  using session_vals_since_flush [of ops "sample_key s"]
  by (auto simp: series_new_def series_key_of_def sample_key_def horizon_reservoir_def
      horizon_vals_def reservoir_default_def rv_wf_new split: horizon.splits)
     (simp_all add: reservoir_new_def default_reservoir_capacity_def)

lemma series_wf_push:
  assumes "series_key_of x = sample_key s"
    and "\<And>h. rv_wf (horizon_reservoir h x) (horizon_vals h ops (sample_key s))"
    and "\<And>h. rv_capacity (horizon_reservoir h x) = default_reservoir_capacity"
  shows "series_wf (ops @ [Record s]) (sample_key s)
      (x\<lparr>se_window := reservoir_push (sm_value s) (se_window x),
         se_session := reservoir_push (sm_value s) (se_session x)\<rparr>)"
  using assms(1) assms(2,3) [of Window] assms(2,3) [of Session]
  by (auto simp: series_wf_def series_key_of_def session_vals_snoc since_flush_snoc
      horizon_reservoir_def horizon_vals_def rv_wf_push split: horizon.splits)

lemma series_wf_other:
  "sample_key s \<noteq> k \<Longrightarrow> series_wf ops k x \<Longrightarrow> series_wf (ops @ [Record s]) k x"
  by (auto simp: series_wf_def session_vals_snoc since_flush_snoc horizon_vals_def split: horizon.splits)

lemma agg_inv_record:
  assumes "agg_inv ops agg"
  shows "agg_inv (ops @ [Record s]) (agg_record s agg)"
proof -
  from assms have inv: "bt_inv agg" by (simp add: agg_inv_def)
  define f where "f = (\<lambda>entry. let series = (case entry of None \<Rightarrow> series_new (sm_source s) (sm_metric s)
                                        | Some series \<Rightarrow> series)
              in series\<lparr>se_window := reservoir_push (sm_value s) (se_window series),
                        se_session := reservoir_push (sm_value s) (se_session series)\<rparr>)"
  have rec: "agg_record s agg = bt_update (sample_key s) f agg"
    by (simp add: agg_record_def f_def)
  have new: "series_wf (ops @ [Record s]) (sample_key s) (f (map_of agg (sample_key s)))"
  proof (cases "map_of agg (sample_key s)")
    case None
    from series_wf_new [OF agg_invD(1) [OF assms None]] None show ?thesis
      by (auto simp: f_def Let_def intro!: series_wf_push)
  next
    case (Some x)
    from agg_invD(2) [OF assms Some] have "series_wf (ops @ [Record s]) (sample_key s)
      (x\<lparr>se_window := reservoir_push (sm_value s) (se_window x),
         se_session := reservoir_push (sm_value s) (se_session x)\<rparr>)"
      by (intro series_wf_push) (simp_all add: series_wf_def)
    with Some show ?thesis by (simp add: f_def)
  qed
  show ?thesis
    unfolding agg_inv_def rec
  proof (intro conjI allI)
    show "bt_inv (bt_update (sample_key s) f agg)" by (rule bt.ok_update [OF inv])
    fix k
    show "case map_of (bt_update (sample_key s) f agg) k of
        None \<Rightarrow> session_vals (ops @ [Record s]) k = [] | Some x \<Rightarrow> series_wf (ops @ [Record s]) k x"
      using new agg_invD [OF assms, of k]
      by (cases "map_of agg k") (auto simp: bt.look_update [OF inv] session_vals_snoc series_wf_other)
  qed
qed

lemma agg_inv_flush:
  assumes "agg_inv ops agg"
  shows "agg_inv (ops @ [Flush]) (flush_window agg)"
proof -
  from assms have inv: "bt_inv agg" by (simp add: agg_inv_def)
  have clr: "series_wf ops k x \<Longrightarrow> series_wf (ops @ [Flush]) k (x\<lparr>se_window := reservoir_clear (se_window x)\<rparr>)"
    for k x
    by (auto simp: series_wf_def series_key_of_def session_vals_snoc since_flush_snoc horizon_vals_def
        horizon_reservoir_def session_vals_def [of "[]"] intro: rv_wf_clear split: horizon.splits)
  show ?thesis
    unfolding agg_inv_def flush_window_def
  proof (intro conjI allI)
    show "bt_inv (bt_map_values (\<lambda>s. s\<lparr>se_window := reservoir_clear (se_window s)\<rparr>) agg)"
      by (rule bt.ok_map_values [OF inv])
    show "case map_of (bt_map_values (\<lambda>s. s\<lparr>se_window := reservoir_clear (se_window s)\<rparr>) agg) k of
        None \<Rightarrow> session_vals (ops @ [Flush]) k = [] | Some x \<Rightarrow> series_wf (ops @ [Flush]) k x" for k
      using agg_invD [OF assms, of k] clr [of k]
      by (cases "map_of agg k") (simp_all add: bt.look_map_values [OF inv] session_vals_snoc)
  qed
qed

lemma agg_inv_run: "agg_inv ops (agg_run ops)"
proof (induction ops rule: rev_induct)
  case Nil
  then show ?case by (simp add: agg_run_def agg_inv_def bt.ok_empty session_vals_def)
next
  case (snoc op ops)
  then show ?case
    by (cases op) (simp_all add: agg_run_def agg_inv_record agg_inv_flush)
qed

lemma collect_rows_total:
  "(\<And>r. r \<in> set rs \<Longrightarrow> r \<noteq> None) \<Longrightarrow>
   collect_rows rs = Some (concat (map (\<lambda>r. case r of Some (Some x) \<Rightarrow> [x] | _ \<Rightarrow> []) rs))"
  by (induction rs) (auto split: option.splits)

definition row_key :: "row \<Rightarrow> series_key" where
  "row_key r = (sc_op (rw_source r), sc_component (rw_source r), mt_name (rw_metric r))"

lemma summarize_wf:
  assumes "series_wf ops k s"
  shows "case summarize h s of
      None \<Rightarrow> False
    | Some None \<Rightarrow> horizon_vals h ops k = []
    | Some (Some r) \<Rightarrow> row_key r = k \<and> rw_count r = length (horizon_vals h ops k) \<and>
        horizon_vals h ops k \<noteq> [] \<and>
        {rw_p50 r, rw_p95 r, rw_p99 r} \<subseteq> set (horizon_vals h ops k) \<and>
        rw_p50 r \<le> rw_p95 r \<and> rw_p95 r \<le> rw_p99 r"
proof -
  let ?r = "horizon_reservoir h s"
  from assms have wf: "rv_wf ?r (horizon_vals h ops k)" "rv_capacity ?r = default_reservoir_capacity"
    by (auto simp: series_wf_def)
  then have len: "length (rv_samples ?r) = min (length (horizon_vals h ops k)) 8192"
    and sub: "set (rv_samples ?r) \<subseteq> set (horizon_vals h ops k)"
    and seen: "rv_seen ?r = length (horizon_vals h ops k)"
    by (auto simp: rv_wf_def default_reservoir_capacity_def)
  then have emp: "rv_samples ?r = [] \<longleftrightarrow> horizon_vals h ops k = []" by (auto simp: min_def split: if_splits)
  from len have "length (rv_samples ?r) < 2 ^ 53" by (simp add: min_def)
  from summary_of_spec [OF this] sub seen emp assms show ?thesis
    by (auto simp: summarize_def row_key_def series_wf_def series_key_of_def split: option.splits)
qed

definition rows_of :: "horizon \<Rightarrow> aggregator \<Rightarrow> row list" where
  "rows_of h agg = concat (map (\<lambda>(_, s). case summarize h s of Some (Some x) \<Rightarrow> [x] | _ \<Rightarrow> []) agg)"

lemma agg_snapshot_inv:
  assumes "agg_inv ops agg"
  shows "agg_snapshot h agg = Some \<lparr>sn_horizon = h, sn_rows = rows_of h agg\<rparr>"
proof -
  have "summarize h s \<noteq> None" if "(k, s) \<in> set agg" for k s
    using that assms summarize_wf [of ops k s h] agg_invD(2) [OF assms, of k s]
    by (auto simp: agg_inv_def bt_map_of_mem split: option.splits)
  then have "collect_rows (map (\<lambda>(_, s). summarize h s) agg) = Some (rows_of h agg)"
    unfolding rows_of_def by (subst collect_rows_total) (auto simp: comp_def split_def)
  then show ?thesis by (simp add: agg_snapshot_def)
qed

lemma rows_of_mem: "r \<in> set (rows_of h agg) \<longleftrightarrow> (\<exists>k s. (k, s) \<in> set agg \<and> summarize h s = Some (Some r))"
proof (induction agg)
  case (Cons x agg)
  obtain k s where x: "x = (k, s)" by (cases x)
  have "set (rows_of h (x # agg)) = {r. summarize h s = Some (Some r)} \<union> set (rows_of h agg)"
    by (auto simp: rows_of_def x split: option.splits)
  with Cons show ?case unfolding x by (simp del: split_paired_Ex) blast
qed (simp add: rows_of_def)

lemma rows_of_iff:
  assumes "agg_inv ops agg"
  shows "r \<in> set (rows_of h agg) \<longleftrightarrow> (\<exists>k s. map_of agg k = Some s \<and> summarize h s = Some (Some r))"
proof -
  have "bt_inv agg" using assms by (simp add: agg_inv_def)
  then show ?thesis by (simp add: rows_of_mem bt_map_of_mem)
qed

lemma rows_of_keys_sorted:
  assumes "agg_inv ops agg"
  shows "sorted_wrt (<) (map row_key (rows_of h agg))"
proof -
  have "sorted_wrt (<) (map row_key (rows_of h xs))"
    if "sorted_wrt (<) (map fst xs)" "\<And>k s. (k, s) \<in> set xs \<Longrightarrow> series_wf ops k s" for xs
    using that
  proof (induction xs)
    case (Cons x xs)
    obtain k s where x: "x = (k, s)" by (cases x)
    have IH: "sorted_wrt (<) (map row_key (rows_of h xs))" using Cons by simp
    have "row_key r \<in> fst ` set xs" if "r \<in> set (rows_of h xs)" for r
    proof -
      from that obtain k' s' where "(k', s') \<in> set xs" "summarize h s' = Some (Some r)"
        by (auto simp: rows_of_mem)
      with summarize_wf [of ops k' s' h] Cons(3) [of k' s'] show ?thesis by force
    qed
    then have "\<forall>r \<in> set (rows_of h xs). k < row_key r" using Cons(2) x by fastforce
    moreover have "rows_of h (x # xs) = (case summarize h s of Some (Some r) \<Rightarrow> [r] | _ \<Rightarrow> []) @ rows_of h xs"
      by (simp add: rows_of_def x)
    ultimately show ?case
      using IH summarize_wf [of ops k s h] Cons(3) [of k s] x by (auto split: option.splits)
  qed (simp add: rows_of_def)
  moreover have "series_wf ops k s" if "(k, s) \<in> set agg" for k s
    using that assms agg_invD(2) [OF assms, of k s] by (simp add: agg_inv_def bt_map_of_mem)
  ultimately show ?thesis using assms by (simp add: agg_inv_def bt_inv_def)
qed

section \<open>Properties\<close>


definition sample_ops :: "agg_op list" where
  "sample_ops = [Record (sample_bytes SRC_STEP REQUEST_BYTES 7), Flush,
     Record (sample_bytes SRC_STEP REQUEST_BYTES 9)]"


text \<open>
  C10. The sample reservoir bounds memory without losing the count: after any number of pushes into
  a fresh reservoir it holds the smaller of that number and its capacity, all of them values that
  were pushed (exactly the pushed values, in order, while they fit), it reports the true number
  pushed, and its generator never reaches the degenerate state 0.
\<close>

theorem reservoir_bounded:
  fixes xs :: "'a list" and capacity :: nat
  defines "r \<equiv> fold reservoir_push xs (reservoir_new capacity)"
  shows "rv_seen r = length xs \<and> rv_rng r \<noteq> 0 \<and>
     length (rv_samples r) = min (length xs) (max capacity 1) \<and> set (rv_samples r) \<subseteq> set xs \<and>
     rv_samples r = (if length xs \<le> max capacity 1 then xs else rv_samples r)"
proof -
  have "rv_wf r xs \<and> rv_capacity r = max capacity 1"
    unfolding r_def
  proof (induction xs rule: rev_induct)
    case Nil
    then show ?case using rv_wf_new by (auto simp: reservoir_new_def)
  next
    case (snoc x xs)
    then show ?case by (simp add: rv_wf_push)
  qed
  then show ?thesis by (auto simp: rv_wf_def)
qed

end
