(* ===== verification/SessionSpec.thy ===== *)
theory SessionSpec
  imports Editions Telemetry DTypes
begin

text \<open>
  The runtime session spec (\<^verbatim>\<open>crates/rlmesh-runtime/src/spec.rs\<close>): reset-option declarations, a
  peer's ceiling, the spec a route is driven by and its validation, the limits with their
  millisecond conversions, and the report a run returns. Error messages are constructors, one
  per message of the code, carrying what the message quotes. Durations are nanoseconds.
\<close>

section \<open>Reset options\<close>

definition env_reset_options_key :: string where
  "env_reset_options_key = ''rlmesh.env.v1.reset_options''"

definition declares_reset_option :: "env_contract \<Rightarrow> string \<Rightarrow> bool" where
  "declares_reset_option contract key =
     (case Option.bind (Option.bind (ec_spec contract) es_metadata)
            (\<lambda>m. map_of m env_reset_options_key) of
        None \<Rightarrow> False
      | Some (MetaList items) \<Rightarrow>
          list_ex (\<lambda>item. case item of MetaText declared \<Rightarrow> declared = key | _ \<Rightarrow> False) items
      | Some (MetaText declared) \<Rightarrow> declared = key
      | Some _ \<Rightarrow> False)"

definition reset_options_for :: "env_contract \<Rightarrow> string \<Rightarrow> nat list \<Rightarrow> meta_map option" where
  "reset_options_for contract option_key trials =
     (if trials = [] \<or> \<not> declares_reset_option contract option_key then None
      else let val = (if length trials = 1 then MetaInteger (as_i64 (trials ! 0))
                      else MetaList (map (\<lambda>t. MetaInteger (as_i64 t)) trials))
           in Some [(option_key, val)])"

section \<open>Peer ceilings\<close>

record peer_ceiling =
  pc_edition :: edition
  pc_dtypes :: "dtype list"
  pc_capabilities :: "(string \<times> string) list"
  pc_max_message_size :: nat

definition highest_shared_edition :: "string list \<Rightarrow> string list \<Rightarrow> edition option" where
  "highest_shared_edition build_supported peer =
     Option.bind (max_by_key edition_sort_key
         (filter (\<lambda>name. is_ok (parse_retained_edition build_supported name)) peer))
       (\<lambda>name. case parse_retained_edition build_supported name of Inr e \<Rightarrow> Some e | Inl _ \<Rightarrow> None)"

definition wire_v1 :: "edition \<Rightarrow> (string \<times> string) list \<Rightarrow> nat \<Rightarrow> peer_ceiling" where
  "wire_v1 ed capabilities max_size = \<lparr>pc_edition = ed, pc_dtypes = dtype_all,
     pc_capabilities = capabilities, pc_max_message_size = max_size\<rparr>"

section \<open>Limits\<close>

record runtime_limits =
  rl_env_connect_timeout :: nat
  rl_model_connect_timeout :: nat
  rl_configure_route_timeout :: nat
  rl_env_reset_timeout :: nat
  rl_model_predict_timeout :: nat
  rl_env_step_timeout :: nat
  rl_service_close_timeout :: nat
  rl_telemetry_window :: nat

definition from_secs :: "nat \<Rightarrow> nat" where
  "from_secs s = s * 1000000000"

definition default_limits :: runtime_limits where
  "default_limits = \<lparr>
     rl_env_connect_timeout = from_secs 60, rl_model_connect_timeout = from_secs 600,
     rl_configure_route_timeout = from_secs 600, rl_env_reset_timeout = from_secs 300,
     rl_model_predict_timeout = from_secs 300, rl_env_step_timeout = from_secs 300,
     rl_service_close_timeout = from_secs 5, rl_telemetry_window = from_secs 1\<rparr>"

definition duration_ms_i64 :: "nat \<Rightarrow> int" where
  "duration_ms_i64 ns = min (int (ns div 1000000)) i64_max"

definition env_step_timeout_ms :: "runtime_limits \<Rightarrow> int" where
  "env_step_timeout_ms l = duration_ms_i64 (rl_env_step_timeout l)"

definition env_reset_timeout_ms :: "runtime_limits \<Rightarrow> int" where
  "env_reset_timeout_ms l = duration_ms_i64 (rl_env_reset_timeout l)"

definition duration_millis_serialize :: "nat \<Rightarrow> nat" where
  "duration_millis_serialize ns = min (ns div 1000000) u64_max"

definition duration_millis_deserialize :: "nat \<Rightarrow> nat" where
  "duration_millis_deserialize ms = ms * 1000000"

section \<open>The session spec\<close>

record session_spec =
  ss_session_id :: string
  ss_env_id :: string
  ss_env_component_id :: string
  ss_model_component_id :: string
  ss_workflow_edition :: edition
  ss_env_contract :: env_contract
  ss_num_envs :: nat
  ss_base_seed :: "int option"
  ss_episode_seeds :: "int list"
  ss_max_episodes :: "nat option"
  ss_trial_index_base :: "nat option"
  ss_max_episode_steps :: "int option"
  ss_max_episode_seconds :: "f64 option"
  ss_close_env_on_end :: bool
  ss_limits :: runtime_limits
  ss_subset_step :: bool
  ss_env_ceiling :: "peer_ceiling option"
  ss_model_ceiling :: "peer_ceiling option"

definition trial_index_base :: "session_spec \<Rightarrow> nat" where
  "trial_index_base spec = (case ss_trial_index_base spec of None \<Rightarrow> 0 | Some b \<Rightarrow> b)"

definition spec_defaults :: "session_spec \<Rightarrow> edition_defaults" where
  "spec_defaults spec = defaults (ss_workflow_edition spec)"

definition observation_space :: "session_spec \<Rightarrow> p_space_spec option" where
  "observation_space spec = Option.bind (ec_spec (ss_env_contract spec)) es_observation_space"

definition action_space :: "session_spec \<Rightarrow> p_space_spec option" where
  "action_space spec = Option.bind (ec_spec (ss_env_contract spec)) es_action_space"

definition empty_space_spec :: p_space_spec where
  "empty_space_spec = PSpaceSpec [] 0 None"

definition observation_space_validated :: "session_spec \<Rightarrow> p_space_spec" where
  "observation_space_validated spec =
     (case observation_space spec of None \<Rightarrow> empty_space_spec | Some s \<Rightarrow> s)"

definition action_space_validated :: "session_spec \<Rightarrow> p_space_spec" where
  "action_space_validated spec =
     (case action_space spec of None \<Rightarrow> empty_space_spec | Some s \<Rightarrow> s)"

datatype spec_error =
    EmptySessionId | EmptyEnvId | EmptyEnvComponentId | EmptyModelComponentId
  | ZeroNumEnvs | MissingObservationSpace | MissingActionSpace
  | ZeroMaxEpisodes | NonPositiveMaxSteps | NonPositiveMaxSeconds
  | SeedsNeedDriverResets | TrialBaseNeedsDriverResets | CapsNeedDriverResets
  | EditionRefused edition_error | UnknownAutoreset int | SameStepUnsupported | VectorNeedsNextStep

definition spec_owns_resets :: "session_spec \<Rightarrow> bool" where
  "spec_owns_resets spec = (case autoreset_try_from (ec_autoreset_mode (ss_env_contract spec)) of
      None \<Rightarrow> False
    | Some mode \<Rightarrow> mode \<in> set (ed_driver_owned_reset_modes (spec_defaults spec)))"

text \<open>\<open>RuntimeSessionSpec::validate\<close>; \<open>supported\<close> is the build's list of editions.\<close>

definition spec_validate :: "string list \<Rightarrow> session_spec \<Rightarrow> spec_error + unit" where
  "spec_validate supported spec =
     (let mode = ec_autoreset_mode (ss_env_contract spec);
          owns = spec_owns_resets spec
      in
      if str_trim (ss_session_id spec) = [] then Inl EmptySessionId
      else if str_trim (ss_env_id spec) = [] then Inl EmptyEnvId
      else if str_trim (ss_env_component_id spec) = [] then Inl EmptyEnvComponentId
      else if str_trim (ss_model_component_id spec) = [] then Inl EmptyModelComponentId
      else if ss_num_envs spec = 0 then Inl ZeroNumEnvs
      else if observation_space spec = None then Inl MissingObservationSpace
      else if action_space spec = None then Inl MissingActionSpace
      else if ss_max_episodes spec = Some 0 then Inl ZeroMaxEpisodes
      else if (case ss_max_episode_steps spec of None \<Rightarrow> False | Some cap \<Rightarrow> cap \<le> 0)
        then Inl NonPositiveMaxSteps
      else if (case ss_max_episode_seconds spec of None \<Rightarrow> False | Some cap \<Rightarrow> f64_le cap f64_zero)
        then Inl NonPositiveMaxSeconds
      else if \<not> owns \<and> ss_episode_seeds spec \<noteq> [] then Inl SeedsNeedDriverResets
      else if \<not> owns \<and> trial_index_base spec \<noteq> 0 then Inl TrialBaseNeedsDriverResets
      else if \<not> owns \<and> (ss_max_episode_steps spec \<noteq> None \<or> ss_max_episode_seconds spec \<noteq> None)
        then Inl CapsNeedDriverResets
      else (case parse_retained_edition supported (edition_base (ss_workflow_edition spec)) of
          Inl e \<Rightarrow> Inl (EditionRefused e)
        | Inr _ \<Rightarrow>
            if autoreset_try_from mode = None then Inl (UnknownAutoreset mode)
            else if mode = 2 then Inl SameStepUnsupported
            else if ss_num_envs spec > 1 \<and> \<not> ss_subset_step spec \<and> mode \<noteq> 1
              then Inl VectorNeedsNextStep
            else Inr ()))"

section \<open>The report\<close>

record episode_summary =
  su_episode_index :: int
  su_env_index :: int
  su_seed :: "int option"
  su_trial_index :: "nat option"
  su_step_count :: int
  su_cumulative_reward :: f64
  su_terminated :: bool
  su_truncated :: bool
  su_duration_ms :: int
  su_success :: "bool option"
  su_predict_ms :: "f64 option"
  su_step_ms :: "f64 option"

datatype advisory_severity = Info | Caution

record advisory =
  ad_severity :: advisory_severity
  ad_message :: string

record runtime_report =
  rp_session_id :: string
  rp_env_id :: string
  rp_total_steps :: int
  rp_total_episodes :: int
  rp_episodes :: "episode_summary list"
  rp_telemetry :: snapshot
  rp_advisories :: "advisory list"

section \<open>What validation guarantees\<close>

lemma retained_base_iff:
  "(\<exists>e. parse_retained_edition supported (edition_base ed) = Inr e) \<longleftrightarrow> is_retained_edition supported ed"
  by (auto simp: parse_retained_Inr_iff edition_parse_base)

lemma spec_owns_resets_iff:
  "spec_owns_resets spec \<longleftrightarrow>
     ec_autoreset_mode (ss_env_contract spec) = 0 \<or> ec_autoreset_mode (ss_env_contract spec) = 3"
proof -
  have "spec_defaults spec = defaults_2026_06"
    by (cases "ss_workflow_edition spec") (simp add: spec_defaults_def)
  then show ?thesis
    by (simp add: spec_owns_resets_def defaults_2026_06_def autoreset_try_from_def)
qed

definition spec_ok :: "string list \<Rightarrow> session_spec \<Rightarrow> bool" where
  "spec_ok supported spec \<longleftrightarrow>
     str_trim (ss_session_id spec) \<noteq> [] \<and> str_trim (ss_env_id spec) \<noteq> [] \<and>
     str_trim (ss_env_component_id spec) \<noteq> [] \<and> str_trim (ss_model_component_id spec) \<noteq> [] \<and>
     0 < ss_num_envs spec \<and> observation_space spec \<noteq> None \<and> action_space spec \<noteq> None \<and>
     (\<forall>m. ss_max_episodes spec = Some m \<longrightarrow> 0 < m) \<and>
     (\<forall>c. ss_max_episode_steps spec = Some c \<longrightarrow> 0 < c) \<and>
     (\<forall>c. ss_max_episode_seconds spec = Some c \<longrightarrow> \<not> f64_le c f64_zero) \<and>
     is_retained_edition supported (ss_workflow_edition spec) \<and>
     ec_autoreset_mode (ss_env_contract spec) \<in> {0, 1, 3} \<and>
     (ec_autoreset_mode (ss_env_contract spec) = 1 \<longrightarrow>
        ss_episode_seeds spec = [] \<and> trial_index_base spec = 0 \<and>
        ss_max_episode_steps spec = None \<and> ss_max_episode_seconds spec = None) \<and>
     (ec_autoreset_mode (ss_env_contract spec) \<noteq> 1 \<longrightarrow> ss_subset_step spec \<or> ss_num_envs spec = 1)"

lemma edition_gate_iff:
  "(case parse_retained_edition supported (edition_base ed) of Inl e \<Rightarrow> Inl (f e) | Inr _ \<Rightarrow> y) = Inr u
   \<longleftrightarrow> is_retained_edition supported ed \<and> y = Inr u"
  using retained_base_iff [of supported ed] by (auto split: sum.splits)

lemma known_mode_iff: "autoreset_try_from m = None \<longleftrightarrow> m \<notin> {0, 1, 2, 3}"
  by (auto simp: autoreset_try_from_def)

lemma spec_validate_iff: "spec_validate supported spec = Inr () \<longleftrightarrow> spec_ok supported spec"
proof -
  let ?m = "ec_autoreset_mode (ss_env_contract spec)"
  have "spec_validate supported spec = Inr () \<longleftrightarrow>
     str_trim (ss_session_id spec) \<noteq> [] \<and> str_trim (ss_env_id spec) \<noteq> [] \<and>
     str_trim (ss_env_component_id spec) \<noteq> [] \<and> str_trim (ss_model_component_id spec) \<noteq> [] \<and>
     ss_num_envs spec \<noteq> 0 \<and> observation_space spec \<noteq> None \<and> action_space spec \<noteq> None \<and>
     ss_max_episodes spec \<noteq> Some 0 \<and>
     \<not> (case ss_max_episode_steps spec of None \<Rightarrow> False | Some cap \<Rightarrow> cap \<le> 0) \<and>
     \<not> (case ss_max_episode_seconds spec of None \<Rightarrow> False | Some cap \<Rightarrow> f64_le cap f64_zero) \<and>
     \<not> (\<not> spec_owns_resets spec \<and> ss_episode_seeds spec \<noteq> []) \<and>
     \<not> (\<not> spec_owns_resets spec \<and> trial_index_base spec \<noteq> 0) \<and>
     \<not> (\<not> spec_owns_resets spec \<and>
         (ss_max_episode_steps spec \<noteq> None \<or> ss_max_episode_seconds spec \<noteq> None)) \<and>
     is_retained_edition supported (ss_workflow_edition spec) \<and>
     ?m \<in> {0, 1, 2, 3} \<and> ?m \<noteq> 2 \<and>
     \<not> (ss_num_envs spec > 1 \<and> \<not> ss_subset_step spec \<and> ?m \<noteq> 1)"
    unfolding spec_validate_def Let_def
    by (simp only: guard_Inr_iff edition_gate_iff known_mode_iff not_not simp_thms)
  also have "\<dots> \<longleftrightarrow> spec_ok supported spec"
  proof -
    have steps: "\<not> (case ss_max_episode_steps spec of None \<Rightarrow> False | Some cap \<Rightarrow> cap \<le> 0) \<longleftrightarrow>
        (\<forall>c. ss_max_episode_steps spec = Some c \<longrightarrow> 0 < c)" by (auto split: option.splits)
    have secs: "\<not> (case ss_max_episode_seconds spec of None \<Rightarrow> False | Some cap \<Rightarrow> f64_le cap f64_zero) \<longleftrightarrow>
        (\<forall>c. ss_max_episode_seconds spec = Some c \<longrightarrow> \<not> f64_le c f64_zero)" by (auto split: option.splits)
    have budget: "ss_max_episodes spec \<noteq> Some 0 \<longleftrightarrow> (\<forall>m. ss_max_episodes spec = Some m \<longrightarrow> 0 < m)"
      by auto
    have lanes: "ss_num_envs spec = Suc 0 \<longleftrightarrow> \<not> Suc 0 < ss_num_envs spec" if "0 < ss_num_envs spec"
      using that by auto
    show ?thesis
      unfolding spec_ok_def spec_owns_resets_iff steps secs budget
      by (cases "ss_num_envs spec = 0"; cases "?m = 0"; cases "?m = 1"; cases "?m = 3")
        (simp_all add: lanes conj_ac)
  qed
  finally show ?thesis .
qed

section \<open>Properties\<close>


definition sample_space :: p_space_spec where
  "sample_space = PSpaceSpec [] 9 (Some (PDiscrete 0 4))"

definition sample_contract :: "int \<Rightarrow> nat \<Rightarrow> env_contract" where
  "sample_contract mode n = \<lparr>ec_spec = Some \<lparr>es_id = ''CartPole'', es_action_space = Some sample_space,
     es_observation_space = Some sample_space, es_metadata = None\<rparr>, ec_num_envs = n,
     ec_render_mode = [], ec_autoreset_mode = mode\<rparr>"

definition sample_spec :: "int \<Rightarrow> nat \<Rightarrow> nat option \<Rightarrow> session_spec" where
  "sample_spec mode n budget = \<lparr>ss_session_id = ''s'', ss_env_id = ''e'', ss_env_component_id = ''ec'',
     ss_model_component_id = ''mc'', ss_workflow_edition = E2026_06,
     ss_env_contract = sample_contract mode n, ss_num_envs = n, ss_base_seed = None,
     ss_episode_seeds = [], ss_max_episodes = budget, ss_trial_index_base = None,
     ss_max_episode_steps = None, ss_max_episode_seconds = None, ss_close_env_on_end = False,
     ss_limits = default_limits, ss_subset_step = False, ss_env_ceiling = None,
     ss_model_ceiling = None\<rparr>"

lemma sample_names_trim:
  "str_trim ''s'' = ''s''" "str_trim ''e'' = ''e''" "str_trim ''ec'' = ''ec''" "str_trim ''mc'' = ''mc''"
  by code_simp+

lemma sample_edition_retained: "is_retained_edition [''2026.06''] E2026_06"
  by code_simp

lemmas sample_defs = sample_spec_def sample_contract_def sample_space_def




end
