(* ===== verification/Relay.thy ===== *)
theory Relay
  imports SessionSpec
begin

text \<open>
  The relay seam (\<^verbatim>\<open>crates/rlmesh-runtime/src/hooks/relay.rs\<close>): what the driver does with a
  payload bound for a served peer. \<open>RelayPolicy\<close> is a trait, so a policy is a function from the
  leg, the target's ceiling and the payload's facts to a decision; the default policy refuses what
  the target cannot decode.
\<close>

datatype leg = EnvToModel | ModelToEnv

fun leg_target :: "leg \<Rightarrow> string" where
  "leg_target EnvToModel = ''model''"
| "leg_target ModelToEnv = ''env''"

record payload_facts =
  pf_space :: p_space_spec
  pf_byte_len :: nat
  pf_leaves :: leaves

definition payload_facts_new :: "p_space_spec \<Rightarrow> leaves \<Rightarrow> payload_facts" where
  "payload_facts_new space lvs =
     \<lparr>pf_space = space, pf_byte_len = sum_list (map length lvs), pf_leaves = lvs\<rparr>"

fun dtype_outside :: "p_space_spec \<Rightarrow> peer_ceiling \<Rightarrow> dtype option" where
  "dtype_outside (PSpaceSpec shape d kind) ceiling =
     (case kind of
        Some (PDict ks spaces) \<Rightarrow> find_map (\<lambda>s. dtype_outside s ceiling) spaces
      | Some (PTuple spaces) \<Rightarrow> find_map (\<lambda>s. dtype_outside s ceiling) spaces
      | _ \<Rightarrow> (case dtype_try_from d of
            None \<Rightarrow> None
          | Some dt \<Rightarrow> (if dt \<notin> set (pc_dtypes ceiling) then Some dt else None)))"

datatype exceeds_reason =
    DtypeOutside dtype
  | TooLarge nat nat

definition exceeds :: "payload_facts \<Rightarrow> peer_ceiling \<Rightarrow> exceeds_reason option" where
  "exceeds p ceiling =
     (case dtype_outside (pf_space p) ceiling of
        Some dt \<Rightarrow> Some (DtypeOutside dt)
      | None \<Rightarrow> (if pf_byte_len p > pc_max_message_size ceiling
                 then Some (TooLarge (pf_byte_len p) (pc_max_message_size ceiling)) else None))"

definition exceeds_message :: "exceeds_reason \<Rightarrow> string" where
  "exceeds_message r = (case r of
      DtypeOutside dt \<Rightarrow> ''dtype '' @ dtype_name dt @ '' is outside its ceiling''
    | TooLarge n m \<Rightarrow> dec n @ '' bytes exceeds its '' @ dec m @ ''-byte message cap'')"

datatype relay_decision =
    Forward
  | Convert leaves "p_space_spec option" advisory
  | Refuse string

type_synonym relay_policy = "leg \<Rightarrow> peer_ceiling \<Rightarrow> payload_facts \<Rightarrow> relay_decision"

definition refusing_relay_policy :: relay_policy where
  "refusing_relay_policy l ceiling p =
     (case exceeds p ceiling of None \<Rightarrow> Forward | Some r \<Rightarrow> Refuse (exceeds_message r))"

section \<open>The leaf dtypes of a space\<close>

fun leaf_dtypes :: "p_space_spec \<Rightarrow> dtype list" where
  "leaf_dtypes (PSpaceSpec shape d kind) =
     (case kind of
        Some (PDict ks spaces) \<Rightarrow> concat (map leaf_dtypes spaces)
      | Some (PTuple spaces) \<Rightarrow> concat (map leaf_dtypes spaces)
      | _ \<Rightarrow> (case dtype_try_from d of None \<Rightarrow> [] | Some dt \<Rightarrow> [dt]))"

lemma find_map_find:
  "(\<And>x. x \<in> set xs \<Longrightarrow> g x = find P (h x)) \<Longrightarrow> find_map g xs = find P (concat (map h xs))"
proof (induction xs)
  case (Cons x xs)
  have app: "find P (a @ b) = (case find P a of None \<Rightarrow> find P b | Some y \<Rightarrow> Some y)" for a b
    by (induction a) auto
  have "find_map g xs = find P (concat (map h xs))" using Cons by simp
  then show ?case using Cons(2) [of x] by (simp add: app split: option.splits)
qed simp

lemma dtype_outside_find:
  "dtype_outside s ceiling = find (\<lambda>dt. dt \<notin> set (pc_dtypes ceiling)) (leaf_dtypes s)"
proof (induction s ceiling rule: dtype_outside.induct)
  case (1 shape d kind ceiling)
  have dict: "find_map (\<lambda>s. dtype_outside s ceiling) spaces
      = find (\<lambda>dt. dt \<notin> set (pc_dtypes ceiling)) (concat (map leaf_dtypes spaces))"
    if "kind = Some (PDict ks spaces)" for ks spaces
    using 1(1) that by (intro find_map_find) simp
  have tuple: "find_map (\<lambda>s. dtype_outside s ceiling) spaces
      = find (\<lambda>dt. dt \<notin> set (pc_dtypes ceiling)) (concat (map leaf_dtypes spaces))"
    if "kind = Some (PTuple spaces)" for spaces
    using 1(2) that by (intro find_map_find) simp
  show ?case
    using dict tuple by (simp split: option.splits p_space_kind.splits)
qed

text \<open>
  C14. The default relay policy forwards a payload exactly when the target peer decodes every leaf
  dtype of the payload's space and accepts its size, and refuses it otherwise; it never converts,
  so under the default policy a peer only ever receives what the other one sent. A wire-v1 peer,
  which decodes every dtype, is refused a payload only for its size.
\<close>

theorem refusing_policy_exact:
  "(refusing_relay_policy l ceiling p = Forward \<longleftrightarrow>
      set (leaf_dtypes (pf_space p)) \<subseteq> set (pc_dtypes ceiling) \<and>
      pf_byte_len p \<le> pc_max_message_size ceiling) \<and>
   (\<forall>lvs space adv. refusing_relay_policy l ceiling p \<noteq> Convert lvs space adv) \<and>
   (refusing_relay_policy l (wire_v1 ed caps m) p = Forward \<longleftrightarrow> pf_byte_len p \<le> m)"
proof (intro conjI)
  have out: "dtype_outside s c = None \<longleftrightarrow> set (leaf_dtypes s) \<subseteq> set (pc_dtypes c)" for s c
    by (auto simp: dtype_outside_find find_None_iff)
  have fwd: "refusing_relay_policy l c p = Forward \<longleftrightarrow>
      set (leaf_dtypes (pf_space p)) \<subseteq> set (pc_dtypes c) \<and> pf_byte_len p \<le> pc_max_message_size c" for c
    unfolding out [symmetric] by (auto simp: refusing_relay_policy_def exceeds_def split: option.splits)
  show "refusing_relay_policy l ceiling p = Forward \<longleftrightarrow>
      set (leaf_dtypes (pf_space p)) \<subseteq> set (pc_dtypes ceiling) \<and>
      pf_byte_len p \<le> pc_max_message_size ceiling" by (rule fwd)
  show "\<forall>lvs space adv. refusing_relay_policy l ceiling p \<noteq> Convert lvs space adv"
    by (simp add: refusing_relay_policy_def split: option.splits)
  show "refusing_relay_policy l (wire_v1 ed caps m) p = Forward \<longleftrightarrow> pf_byte_len p \<le> m"
    by (simp add: fwd wire_v1_def dtype_all_UNIV)
qed

end
