(* ===== verification/Episodes.thy ===== *)
theory Episodes
  imports Prelude
begin

text \<open>
  Episode bookkeeping (\<^verbatim>\<open>crates/rlmesh-runtime/src/episodes.rs\<close>): a stable, session-global record
  per episode id. The map from ids to records is a HOL map; its iteration order is never used.
\<close>

record episode_record =
  er_record_id :: string
  er_index :: int
  er_env_index :: int
  er_started_from_auto_reset :: bool

record registry =
  rg_next_index :: int
  rg_by_episode_id :: "string \<rightharpoonup> episode_record"

definition registry_default :: registry where
  "registry_default = \<lparr>rg_next_index = 0, rg_by_episode_id = Map.empty\<rparr>"

text \<open>\<open>usize as i32\<close>.\<close>

definition usize_as_i32 :: "nat \<Rightarrow> int" where
  "usize_as_i32 n = (let m = n mod 2 ^ 32 in if m < 2 ^ 31 then int m else int m - 2 ^ 32)"

definition record_name :: "int \<Rightarrow> string" where
  "record_name index = ''ep-'' @ pad6_int index"

text \<open>The loop of \<open>ensure_for_slots\<close> from lane \<open>i\<close> on: the registry, the record ids, the started.\<close>

fun ensure_loop ::
  "nat \<Rightarrow> string list \<Rightarrow> bool \<Rightarrow> int option list \<Rightarrow> registry
    \<Rightarrow> registry \<times> string list \<times> (string \<times> episode_record) list" where
  "ensure_loop i [] auto indices reg = (reg, [], [])"
| "ensure_loop i (episode_id # ids) auto indices reg =
     (if episode_id = [] then
        (case ensure_loop (i + 1) ids auto indices reg of (reg', rids, started) \<Rightarrow>
           (reg', [] # rids, started))
      else case rg_by_episode_id reg episode_id of
        Some existing \<Rightarrow>
          (case ensure_loop (i + 1) ids auto indices reg of (reg', rids, started) \<Rightarrow>
             (reg', er_record_id existing # rids, started))
      | None \<Rightarrow>
          (let next = rg_next_index reg + 1;
               index = (case nth_opt indices i of Some (Some ix) \<Rightarrow> ix | _ \<Rightarrow> next);
               rec = \<lparr>er_record_id = record_name index, er_index = index,
                      er_env_index = usize_as_i32 i, er_started_from_auto_reset = auto\<rparr>
           in case ensure_loop (i + 1) ids auto indices
                 (reg\<lparr>rg_next_index := next,
                      rg_by_episode_id := (rg_by_episode_id reg)(episode_id \<mapsto> rec)\<rparr>) of
                (reg', rids, started) \<Rightarrow> (reg', er_record_id rec # rids, (episode_id, rec) # started)))"

definition ensure_for_slots ::
  "string list \<Rightarrow> bool \<Rightarrow> int option list \<Rightarrow> registry
    \<Rightarrow> registry \<times> string list \<times> (string \<times> episode_record) list" where
  "ensure_for_slots ids auto indices reg = ensure_loop 0 ids auto indices reg"

definition record_for :: "string \<Rightarrow> registry \<Rightarrow> episode_record option" where
  "record_for episode_id reg = rg_by_episode_id reg episode_id"

section \<open>The registry is idempotent\<close>

lemma ensure_loop_length: "ensure_loop i ids auto indices reg = (reg', rids, st) \<Longrightarrow> length rids = length ids"
  by (induction i ids auto indices reg arbitrary: reg' rids st rule: ensure_loop.induct)
    (auto simp: Let_def split: if_splits option.splits prod.splits)

text \<open>
  \<open>ensured m ids m' st\<close>: known records never change, exactly the non-empty ids of the batch are
  known afterwards, and the started list reports each new id once, with its record.
\<close>

definition ensured ::
  "(string \<rightharpoonup> 'r) \<Rightarrow> string list \<Rightarrow> (string \<rightharpoonup> 'r) \<Rightarrow> (string \<times> 'r) list \<Rightarrow> bool" where
  "ensured m ids m' st \<longleftrightarrow>
     (\<forall>e r. m e = Some r \<longrightarrow> m' e = Some r) \<and>
     (\<forall>e. m' e \<noteq> None \<longleftrightarrow> m e \<noteq> None \<or> (e \<in> set ids \<and> e \<noteq> [])) \<and>
     (\<forall>e r. (e, r) \<in> set st \<longleftrightarrow> e \<in> set ids \<and> e \<noteq> [] \<and> m e = None \<and> m' e = Some r) \<and>
     distinct (map fst st)"

lemma ensured_Nil: "ensured m [] m []"
  by (simp add: ensured_def)

lemma ensured_skip: "ensured m ids m' st \<Longrightarrow> e = [] \<or> m e \<noteq> None \<Longrightarrow> ensured m (e # ids) m' st"
  unfolding ensured_def by (elim conjE, intro conjI allI impI) auto

lemma ensured_new:
  assumes "ensured (m(e \<mapsto> r)) ids m' st" "m e = None" "e \<noteq> []"
  shows "ensured m (e # ids) m' ((e, r) # st)"
proof -
  have keep: "\<And>x q. (m(e \<mapsto> r)) x = Some q \<Longrightarrow> m' x = Some q"
    and dom: "\<And>x. m' x \<noteq> None \<longleftrightarrow> (m(e \<mapsto> r)) x \<noteq> None \<or> (x \<in> set ids \<and> x \<noteq> [])"
    and st: "\<And>x q. (x, q) \<in> set st \<longleftrightarrow> x \<in> set ids \<and> x \<noteq> [] \<and> (m(e \<mapsto> r)) x = None \<and> m' x = Some q"
    and dist: "distinct (map fst st)"
    using assms(1) unfolding ensured_def by blast+
  have me: "m' e = Some r" using keep [of e r] by simp
  have fresh: "e \<notin> fst ` set st" using st [of e] by auto
  show ?thesis
    unfolding ensured_def
  proof (intro conjI allI impI)
    show "m x = Some q \<Longrightarrow> m' x = Some q" for x q using keep [of x q] assms(2) by (cases "x = e") auto
    show "m' x \<noteq> None \<longleftrightarrow> m x \<noteq> None \<or> (x \<in> set (e # ids) \<and> x \<noteq> [])" for x
      using dom [of x] me assms(2,3) by (cases "x = e") auto
    show "(x, q) \<in> set ((e, r) # st) \<longleftrightarrow>
        x \<in> set (e # ids) \<and> x \<noteq> [] \<and> m x = None \<and> m' x = Some q" for x q
      using st [of x q] me assms(2,3) by (cases "x = e") auto
    show "distinct (map fst ((e, r) # st))" using dist fresh by simp
  qed
qed

lemma ensure_loop_ensured:
  "ensure_loop i ids auto indices reg = (reg', rids, st) \<Longrightarrow>
   ensured (rg_by_episode_id reg) ids (rg_by_episode_id reg') st"
proof (induction i ids auto indices reg arbitrary: reg' rids st rule: ensure_loop.induct)
  case (1 i auto indices reg)
  then show ?case by (simp add: ensured_Nil)
next
  case (2 i e ids auto indices reg)
  show ?case
  proof (cases "e = [] \<or> rg_by_episode_id reg e \<noteq> None")
    case True
    then obtain rids' where rest: "ensure_loop (i + 1) ids auto indices reg = (reg', rids', st)"
      using 2(4) by (auto split: if_splits option.splits prod.splits)
    have "ensured (rg_by_episode_id reg) ids (rg_by_episode_id reg') st"
      using True 2(1) [OF _ rest] 2(3) [OF _ _ rest] by blast
    with True show ?thesis by (intro ensured_skip)
  next
    case False
    then have none: "e \<noteq> []" "rg_by_episode_id reg e = None" by auto
    define index where "index = (case nth_opt indices i of Some (Some ix) \<Rightarrow> ix | _ \<Rightarrow> rg_next_index reg + 1)"
    define rec where "rec = \<lparr>er_record_id = record_name index, er_index = index,
                 er_env_index = usize_as_i32 i, er_started_from_auto_reset = auto\<rparr>"
    let ?reg1 = "reg\<lparr>rg_next_index := rg_next_index reg + 1,
                      rg_by_episode_id := (rg_by_episode_id reg)(e \<mapsto> rec)\<rparr>"
    from none 2(4) obtain rids' st' where
      rest: "ensure_loop (i + 1) ids auto indices ?reg1 = (reg', rids', st')" and st: "st = (e, rec) # st'"
      by (auto simp: Let_def rec_def index_def split: prod.splits)
    from 2(2) [OF none refl index_def rec_def rest]
    have "ensured ((rg_by_episode_id reg)(e \<mapsto> rec)) ids (rg_by_episode_id reg') st'"
      by (simp add: fun_upd_def)
    then show ?thesis unfolding st using none by (intro ensured_new)
  qed
qed

lemma ensured_all_known:
  assumes known: "\<And>e. e \<in> set ids \<Longrightarrow> e \<noteq> [] \<Longrightarrow> m e \<noteq> None" and "ensured m ids m' st"
  shows "m' = m" and "st = []"
proof -
  have keep: "\<And>x q. m x = Some q \<Longrightarrow> m' x = Some q"
    and dom: "\<And>x. m' x \<noteq> None \<longleftrightarrow> m x \<noteq> None \<or> (x \<in> set ids \<and> x \<noteq> [])"
    and st: "\<And>x q. (x, q) \<in> set st \<longleftrightarrow> x \<in> set ids \<and> x \<noteq> [] \<and> m x = None \<and> m' x = Some q"
    using assms(2) unfolding ensured_def by blast+
  show "m' = m"
  proof
    fix x show "m' x = m x" using keep [of x] dom [of x] known [of x] by (cases "m x") auto
  qed
  have "p \<notin> set st" for p using st [of "fst p" "snd p"] known [of "fst p"] by auto
  then show "st = []" by (cases st) auto
qed

text \<open>The record ids reported are those of the registry afterwards, empty for an empty lane.\<close>

lemma ensure_loop_rids:
  assumes "ensure_loop i ids auto indices reg = (reg', rids, st)"
  shows "rids = map (\<lambda>e. if e = [] then [] else
           (case rg_by_episode_id reg' e of Some r \<Rightarrow> er_record_id r | None \<Rightarrow> [])) ids"
  using assms
proof (induction i ids auto indices reg arbitrary: reg' rids st rule: ensure_loop.induct)
  case (1 i auto indices reg)
  then show ?case by simp
next
  case (2 i e ids auto indices reg)
  have keep: "\<And>x q. rg_by_episode_id reg x = Some q \<Longrightarrow> rg_by_episode_id reg' x = Some q"
    using ensure_loop_ensured [OF 2(4)] unfolding ensured_def by blast
  show ?case
  proof (cases "e = []")
    case True
    with 2(4) obtain rids' where rest: "ensure_loop (i + 1) ids auto indices reg = (reg', rids', st)"
      and rids: "rids = [] # rids'" by (auto split: prod.splits)
    from 2(1) [OF True rest] rids True show ?thesis by simp
  next
    case ne: False
    show ?thesis
    proof (cases "rg_by_episode_id reg e")
      case (Some r)
      with ne 2(4) obtain rids' where rest: "ensure_loop (i + 1) ids auto indices reg = (reg', rids', st)"
        and rids: "rids = er_record_id r # rids'" by (auto split: prod.splits)
      from 2(3) [OF ne Some rest] rids ne keep [OF Some] show ?thesis by simp
    next
      case None
      define index where "index = (case nth_opt indices i of Some (Some ix) \<Rightarrow> ix | _ \<Rightarrow> rg_next_index reg + 1)"
      define rec where "rec = \<lparr>er_record_id = record_name index, er_index = index,
                 er_env_index = usize_as_i32 i, er_started_from_auto_reset = auto\<rparr>"
      let ?reg1 = "reg\<lparr>rg_next_index := rg_next_index reg + 1,
                      rg_by_episode_id := (rg_by_episode_id reg)(e \<mapsto> rec)\<rparr>"
      from None ne 2(4) obtain rids' st' where
        rest: "ensure_loop (i + 1) ids auto indices ?reg1 = (reg', rids', st')"
        and rids: "rids = er_record_id rec # rids'"
        by (auto simp: Let_def rec_def index_def split: prod.splits)
      have "rg_by_episode_id reg' e = Some rec"
        using ensure_loop_ensured [OF rest] unfolding ensured_def by auto
      with 2(2) [OF ne None refl index_def rec_def rest] rids ne show ?thesis by simp
    qed
  qed
qed



end
