(* ===== verification/RouteState.thy ===== *)
theory RouteState
  imports Episodes SessionSpec
begin

text \<open>
  The per-route bookkeeping (\<^verbatim>\<open>crates/rlmesh-runtime/src/state/route.rs\<close> and \<open>types.rs\<close>): slots
  per lane, the route-global episode slot counter, trial ordinals, per-episode seeds, completed
  summaries, and the request messages built from them. Every operation of \<open>RouteState\<close> is a
  function on the record \<open>route\<close>. Clock readings are arguments: \<open>now i\<close> is the reading taken for
  the lane at index \<open>i\<close> of the call. Counters that only count events are unbounded; the additions
  an input can push past \<open>u64\<close> return \<open>None\<close>, the overflow panic of a checked build.
\<close>

section \<open>State\<close>

record episode_state =
  es_episode_id :: string
  es_episode_record_id :: string
  es_episode_index :: int
  es_started_from_auto_reset :: bool
  es_predicted :: bool
  es_ended :: bool

record started_episode =
  st_episode_id :: string
  st_record :: episode_record

record slot_state =
  sl_env_index :: int
  sl_episode :: "episode_state option"
  sl_step :: int
  sl_reset :: bool
  sl_cumulative_reward :: f64
  sl_started_at_ns :: int
  sl_predict_ns :: nat
  sl_step_ns :: nat

record route_snapshot =
  sp_episode_id :: string
  sp_episode_record_id :: string
  sp_episode_ids :: "string list"
  sp_episode_record_ids :: "string list"
  sp_step :: int
  sp_env_index :: int
  sp_reset :: bool

datatype request_phase = ResetObservation | StepObservation

fun phase_str :: "request_phase \<Rightarrow> string" where
  "phase_str ResetObservation = ''reset_observation''"
| "phase_str StepObservation = ''step_observation''"

record env_context =
  cx_env_id :: string
  cx_env_component_id :: string
  cx_model_component_id :: string
  cx_lane :: "nat option"

record route =
  ro_session_id :: string
  ro_env_id :: string
  ro_env_component_id :: string
  ro_model_component_id :: string
  ro_slots :: "slot_state list"
  ro_request_seq :: nat
  ro_total_steps :: int
  ro_total_episodes :: int
  ro_records :: registry
  ro_episode_summaries :: "episode_summary list"
  ro_seed_by_episode :: "string \<rightharpoonup> int"
  ro_next_slot :: nat
  ro_max_episodes :: "nat option"
  ro_trial_by_episode :: "string \<rightharpoonup> nat"
  ro_trial_cursor :: nat
  ro_surplus :: "string set"

definition slot_new :: "(nat \<Rightarrow> int) \<Rightarrow> nat \<Rightarrow> slot_state" where
  "slot_new now index = \<lparr>sl_env_index = (if index < 2 ^ 31 then int index else 2147483647),
     sl_episode = None, sl_step = 0, sl_reset = True, sl_cumulative_reward = f64_zero,
     sl_started_at_ns = now index, sl_predict_ns = 0, sl_step_ns = 0\<rparr>"

definition route_new :: "(nat \<Rightarrow> int) \<Rightarrow> session_spec \<Rightarrow> route" where
  "route_new now spec = \<lparr>
     ro_session_id = ss_session_id spec, ro_env_id = ss_env_id spec,
     ro_env_component_id = ss_env_component_id spec,
     ro_model_component_id = ss_model_component_id spec,
     ro_slots = map (slot_new now) [0..<max (ss_num_envs spec) 1],
     ro_request_seq = 0, ro_total_steps = 0, ro_total_episodes = 0,
     ro_records = registry_default, ro_episode_summaries = [],
     ro_seed_by_episode = Map.empty, ro_next_slot = 0, ro_max_episodes = ss_max_episodes spec,
     ro_trial_by_episode = Map.empty, ro_trial_cursor = 0, ro_surplus = {}\<rparr>"

section \<open>Trials and slots\<close>

definition claim_trial_indices :: "nat \<Rightarrow> nat \<Rightarrow> route \<Rightarrow> (nat list \<times> route) option" where
  "claim_trial_indices base lanes r =
     (let start = sat_add_u64 base (ro_trial_cursor r);
          r' = r\<lparr>ro_trial_cursor := ro_trial_cursor r + lanes\<rparr>;
          trials = map (\<lambda>offset. start + offset) [0..<lanes]
      in if list_all (\<lambda>t. t \<le> u64_max) trials then Some (trials, r') else None)"

definition note_episode_trials :: "string list \<Rightarrow> nat list \<Rightarrow> route \<Rightarrow> route" where
  "note_episode_trials ids trials r =
     r\<lparr>ro_trial_by_episode := fold (\<lambda>(e, t) m. m(e \<mapsto> t)) (zip ids trials) (ro_trial_by_episode r)\<rparr>"

definition trial_for_episode :: "string \<Rightarrow> route \<Rightarrow> nat option" where
  "trial_for_episode e r = ro_trial_by_episode r e"

definition slot_position :: "nat \<Rightarrow> route \<Rightarrow> nat option" where
  "slot_position env_index r = (case i32_of_u32 env_index of
      None \<Rightarrow> None
    | Some i \<Rightarrow> position (\<lambda>slot. sl_env_index slot = i) (ro_slots r))"

definition episode_id_at :: "nat \<Rightarrow> route \<Rightarrow> string option" where
  "episode_id_at env_index r =
     Option.bind (slot_position env_index r) (\<lambda>p. Option.bind (nth_opt (ro_slots r) p)
       (\<lambda>slot. map_option es_episode_id (sl_episode slot)))"

definition claim_slots :: "nat \<Rightarrow> bool \<Rightarrow> route \<Rightarrow> nat list option \<times> route" where
  "claim_slots count bounded r =
     (let first = ro_next_slot r; last = first + count in
      if bounded \<and> (case ro_max_episodes r of None \<Rightarrow> False | Some m \<Rightarrow> last > m) then (None, r)
      else (Some [first..<last], r\<lparr>ro_next_slot := last\<rparr>))"

definition claim_slots_upto :: "nat \<Rightarrow> route \<Rightarrow> nat list \<times> route" where
  "claim_slots_upto count r =
     (let first = ro_next_slot r;
          remaining = (case ro_max_episodes r of None \<Rightarrow> count | Some m \<Rightarrow> m - first);
          last = first + min count remaining
      in ([first..<last], r\<lparr>ro_next_slot := last\<rparr>))"

definition mark_surplus :: "string \<Rightarrow> route \<Rightarrow> route" where
  "mark_surplus e r = r\<lparr>ro_surplus := insert e (ro_surplus r)\<rparr>"

definition is_surplus :: "string \<Rightarrow> route \<Rightarrow> bool" where
  "is_surplus e r = (e \<in> ro_surplus r)"

definition all_surplus_at :: "nat list \<Rightarrow> route \<Rightarrow> bool" where
  "all_surplus_at positions r = list_all (\<lambda>p.
     case Option.bind (nth_opt (ro_slots r) p) sl_episode of
       None \<Rightarrow> False | Some e \<Rightarrow> es_episode_id e \<in> ro_surplus r) positions"

definition slot_timings_ms :: "nat \<Rightarrow> route \<Rightarrow> f64 option \<times> f64 option" where
  "slot_timings_ms env_index r =
     (case Option.bind (slot_position env_index r) (nth_opt (ro_slots r)) of
        None \<Rightarrow> (None, None)
      | Some slot \<Rightarrow>
          (if sl_step slot \<le> 0 then (None, None)
           else let per_step = (\<lambda>ns. Some (f64_div (f64_div (f64_of_nat ns) (f64_of_nat 1000000))
                                            (f64_of_int (sl_step slot))))
                in (per_step (sl_predict_ns slot), per_step (sl_step_ns slot))))"

definition note_episode_seeds :: "string list \<Rightarrow> int list \<Rightarrow> route \<Rightarrow> route" where
  "note_episode_seeds ids seeds r =
     r\<lparr>ro_seed_by_episode := fold (\<lambda>(e, s) m. m(e \<mapsto> s)) (zip ids seeds) (ro_seed_by_episode r)\<rparr>"

definition record_episode_summary :: "episode_summary \<Rightarrow> route \<Rightarrow> route" where
  "record_episode_summary s r = r\<lparr>ro_episode_summaries := ro_episode_summaries r @ [s]\<rparr>"

definition take_episode_summaries :: "route \<Rightarrow> episode_summary list \<times> route" where
  "take_episode_summaries r = (ro_episode_summaries r, r\<lparr>ro_episode_summaries := []\<rparr>)"

section \<open>Contexts, snapshots and requests\<close>

definition route_env_context :: "route \<Rightarrow> env_context" where
  "route_env_context r = \<lparr>cx_env_id = ro_env_id r, cx_env_component_id = ro_env_component_id r,
     cx_model_component_id = ro_model_component_id r, cx_lane = None\<rparr>"

definition group_context :: "nat list \<Rightarrow> bool \<Rightarrow> route \<Rightarrow> env_context" where
  "group_context positions lane_group r = (route_env_context r)\<lparr>cx_lane :=
     (if lane_group
      then Option.bind (Option.bind (first_opt positions) (nth_opt (ro_slots r)))
             (\<lambda>slot. u32_of_i32 (sl_env_index slot))
      else None)\<rparr>"

definition next_request_id :: "string \<Rightarrow> route \<Rightarrow> string \<times> route" where
  "next_request_id phase r =
     (let seq = ro_request_seq r + 1
      in (ro_env_id r @ '':'' @ phase @ '':'' @ pad6 (dec seq), r\<lparr>ro_request_seq := seq\<rparr>))"

definition slots_at :: "nat list \<Rightarrow> route \<Rightarrow> slot_state list" where
  "slots_at positions r = filter_map (nth_opt (ro_slots r)) positions"

definition slot_episode_id :: "slot_state \<Rightarrow> string" where
  "slot_episode_id slot = (case sl_episode slot of None \<Rightarrow> [] | Some e \<Rightarrow> es_episode_id e)"

definition slot_record_id :: "slot_state \<Rightarrow> string" where
  "slot_record_id slot = (case sl_episode slot of None \<Rightarrow> [] | Some e \<Rightarrow> es_episode_record_id e)"

definition episode_ids_at :: "nat list \<Rightarrow> route \<Rightarrow> string list" where
  "episode_ids_at positions r = map slot_episode_id (slots_at positions r)"

definition snapshot_at :: "nat list \<Rightarrow> route \<Rightarrow> route_snapshot" where
  "snapshot_at positions r =
     (let slots = slots_at positions r;
          ids = map slot_episode_id slots;
          rids = map slot_record_id slots;
          primary = first_opt slots
      in \<lparr>sp_episode_id = (case first_opt ids of None \<Rightarrow> [] | Some e \<Rightarrow> e),
          sp_episode_record_id = (case first_opt rids of None \<Rightarrow> [] | Some e \<Rightarrow> e),
          sp_episode_ids = ids, sp_episode_record_ids = rids,
          sp_step = (case primary of None \<Rightarrow> 0 | Some s \<Rightarrow> sl_step s),
          sp_env_index = (case primary of None \<Rightarrow> 0 | Some s \<Rightarrow> sl_env_index s),
          sp_reset = (case primary of None \<Rightarrow> False | Some s \<Rightarrow> sl_reset s)\<rparr>)"

section \<open>Episode starts and steps\<close>

text \<open>One lane of \<open>sync_slots\<close>: the slot after the sync, and the id whose side tables it drops.\<close>

definition sync_slot ::
  "registry \<Rightarrow> int \<Rightarrow> bool \<Rightarrow> bool \<Rightarrow> string \<Rightarrow> string \<Rightarrow> slot_state \<Rightarrow> slot_state \<times> string option" where
  "sync_slot records now reset_steps auto episode_id rid slot =
     (let previous_id = slot_episode_id slot;
          rolled = (episode_id \<noteq> [] \<and> episode_id \<noteq> previous_id);
          dropped = (if rolled \<and> previous_id \<noteq> [] then Some previous_id else None);
          (predicted, ended) = (case sl_episode slot of
             Some previous \<Rightarrow> (if es_episode_id previous = episode_id
                               then (es_predicted previous, es_ended previous) else (False, False))
           | None \<Rightarrow> (False, False));
          slot1 = slot\<lparr>sl_episode := (if episode_id = [] then None
             else Some \<lparr>es_episode_id = episode_id, es_episode_record_id = rid,
                es_episode_index = (case record_for episode_id records of
                   None \<Rightarrow> 0 | Some rec \<Rightarrow> er_index rec),
                es_started_from_auto_reset = auto, es_predicted = predicted, es_ended = ended\<rparr>)\<rparr>
      in (if reset_steps \<or> rolled
          then slot1\<lparr>sl_step := 0, sl_reset := True, sl_cumulative_reward := f64_zero,
                 sl_started_at_ns := now, sl_predict_ns := 0, sl_step_ns := 0\<rparr>
          else slot1, dropped))"

definition drop_episode :: "string option \<Rightarrow> route \<Rightarrow> route" where
  "drop_episode dropped r = (case dropped of
      None \<Rightarrow> r
    | Some e \<Rightarrow> r\<lparr>ro_seed_by_episode := (ro_seed_by_episode r)(e := None),
                  ro_trial_by_episode := (ro_trial_by_episode r)(e := None),
                  ro_surplus := ro_surplus r - {e}\<rparr>)"

definition sync_lane ::
  "(nat \<Rightarrow> int) \<Rightarrow> string list \<Rightarrow> string list \<Rightarrow> bool \<Rightarrow> bool \<Rightarrow> nat \<times> nat \<Rightarrow> route \<Rightarrow> route" where
  "sync_lane now ids rids reset_steps auto = (\<lambda>(index, pos) r.
     case nth_opt (ro_slots r) pos of
       None \<Rightarrow> r
     | Some slot \<Rightarrow>
         (case sync_slot (ro_records r) (now index) reset_steps auto
                (case nth_opt ids index of None \<Rightarrow> [] | Some e \<Rightarrow> e)
                (case nth_opt rids index of None \<Rightarrow> [] | Some e \<Rightarrow> e) slot of
            (slot', dropped) \<Rightarrow> drop_episode dropped (r\<lparr>ro_slots := (ro_slots r)[pos := slot']\<rparr>)))"

definition sync_slots ::
  "(nat \<Rightarrow> int) \<Rightarrow> nat list \<Rightarrow> string list \<Rightarrow> string list \<Rightarrow> bool \<Rightarrow> bool \<Rightarrow> route \<Rightarrow> route" where
  "sync_slots now positions ids rids reset_steps auto r =
     fold (sync_lane now ids rids reset_steps auto) (zip [0..<length positions] positions) r"

definition started_of :: "(string \<times> episode_record) list \<Rightarrow> started_episode list" where
  "started_of st = map (\<lambda>(e, rec). \<lparr>st_episode_id = e, st_record = rec\<rparr>) st"

definition start_episodes_at ::
  "(nat \<Rightarrow> int) \<Rightarrow> nat list \<Rightarrow> string list \<Rightarrow> bool \<Rightarrow> nat list \<Rightarrow> route \<Rightarrow> started_episode list \<times> route" where
  "start_episodes_at now positions ids auto slots r =
     (let indices = map (\<lambda>i. map_option (\<lambda>slot. as_i64 slot + 1) (nth_opt slots i)) [0..<length positions]
      in case ensure_for_slots ids auto indices (ro_records r) of (records, rids, started) \<Rightarrow>
           (started_of started,
            sync_slots now positions ids rids True auto (r\<lparr>ro_records := records\<rparr>)))"

definition observe_episode_ids_at ::
  "(nat \<Rightarrow> int) \<Rightarrow> nat list \<Rightarrow> string list \<Rightarrow> nat option list \<Rightarrow> route \<Rightarrow> started_episode list \<times> route" where
  "observe_episode_ids_at now positions ids slots r =
     (let indices = map (\<lambda>i. case nth_opt slots i of Some (Some slot) \<Rightarrow> Some (as_i64 slot + 1)
                                                   | _ \<Rightarrow> None) [0..<length positions]
      in case ensure_for_slots ids True indices (ro_records r) of (records, rids, started) \<Rightarrow>
           (started_of started,
            sync_slots now positions ids rids False True (r\<lparr>ro_records := records\<rparr>)))"

definition step_lane :: "f64 list \<Rightarrow> nat \<Rightarrow> nat \<Rightarrow> nat \<times> nat \<Rightarrow> route \<Rightarrow> route" where
  "step_lane rewards step_ns predict_ns = (\<lambda>(i, pos) r.
     case nth_opt (ro_slots r) pos of
       None \<Rightarrow> r
     | Some slot \<Rightarrow> r\<lparr>ro_slots := (ro_slots r)[pos := slot\<lparr>
          sl_step := sl_step slot + 1, sl_reset := False,
          sl_cumulative_reward := f64_add (sl_cumulative_reward slot)
            (case nth_opt rewards i of None \<Rightarrow> f64_zero | Some w \<Rightarrow> w),
          sl_step_ns := sl_step_ns slot + step_ns mod 2 ^ 64,
          sl_predict_ns := sl_predict_ns slot + predict_ns mod 2 ^ 64\<rparr>]\<rparr>)"

definition record_step_at :: "nat list \<Rightarrow> f64 list \<Rightarrow> nat \<Rightarrow> nat \<Rightarrow> route \<Rightarrow> route" where
  "record_step_at positions rewards step_ns predict_ns r =
     fold (step_lane rewards step_ns predict_ns) (zip [0..<length positions] positions)
       (r\<lparr>ro_total_steps := ro_total_steps r + 1\<rparr>)"

definition complete_episode :: "string \<Rightarrow> route \<Rightarrow> episode_record option \<times> route" where
  "complete_episode e r =
     (record_for e (ro_records r), r\<lparr>ro_total_episodes := ro_total_episodes r + 1\<rparr>)"

definition seed_for_episode :: "string \<Rightarrow> route \<Rightarrow> int option" where
  "seed_for_episode e r = ro_seed_by_episode r e"

section \<open>The model-side life of an episode\<close>

definition end_episode_at :: "nat \<Rightarrow> route \<Rightarrow> string option \<times> route" where
  "end_episode_at env_index r =
     (case slot_position env_index r of
        None \<Rightarrow> (None, r)
      | Some p \<Rightarrow> (case nth_opt (ro_slots r) p of
          None \<Rightarrow> (None, r)
        | Some slot \<Rightarrow> (case sl_episode slot of
            None \<Rightarrow> (None, r)
          | Some e \<Rightarrow>
              (if es_ended e then (None, r)
               else (Some (es_episode_id e),
                     r\<lparr>ro_slots := (ro_slots r)[p := slot\<lparr>sl_episode := Some (e\<lparr>es_ended := True\<rparr>)\<rparr>]\<rparr>)))))"

definition live_unended :: "slot_state \<Rightarrow> bool" where
  "live_unended slot = (case sl_episode slot of
      None \<Rightarrow> False | Some e \<Rightarrow> es_predicted e \<and> \<not> es_ended e)"

definition set_ended :: "slot_state \<Rightarrow> slot_state" where
  "set_ended slot = slot\<lparr>sl_episode := map_option (\<lambda>e. e\<lparr>es_ended := True\<rparr>) (sl_episode slot)\<rparr>"

definition end_live_episodes :: "route \<Rightarrow> string list \<times> route" where
  "end_live_episodes r =
     (map slot_episode_id (filter live_unended (ro_slots r)),
      r\<lparr>ro_slots := map (\<lambda>slot. if live_unended slot then set_ended slot else slot) (ro_slots r)\<rparr>)"

definition set_predicted :: "slot_state \<Rightarrow> slot_state" where
  "set_predicted slot = slot\<lparr>sl_episode := map_option (\<lambda>e. e\<lparr>es_predicted := True\<rparr>) (sl_episode slot)\<rparr>"

definition mark_predicted :: "nat list \<Rightarrow> route \<Rightarrow> route" where
  "mark_predicted positions r = fold (\<lambda>p r. case nth_opt (ro_slots r) p of
      None \<Rightarrow> r
    | Some slot \<Rightarrow> r\<lparr>ro_slots := (ro_slots r)[p := set_predicted slot]\<rparr>) positions r"

definition adapter_context_for :: "string \<Rightarrow> route \<Rightarrow> adapter_context \<times> route" where
  "adapter_context_for phase r = (case next_request_id phase r of (rid, r') \<Rightarrow>
     (\<lparr>ac_session_id = ro_session_id r, ac_env_id = ro_env_id r, ac_request_id = rid\<rparr>, r'))"

definition predict_request_at ::
  "nat list \<Rightarrow> leaves option \<Rightarrow> request_phase \<Rightarrow> route \<Rightarrow> predict_request \<times> route" where
  "predict_request_at positions observation phase r =
     (let info = map (\<lambda>e. \<lparr>ei_episode_id = e, ei_seed = seed_for_episode e r\<rparr>)
                   (episode_ids_at positions r)
      in case adapter_context_for (phase_str phase) r of (ctx, r') \<Rightarrow>
           (\<lparr>pq_context = Some ctx, pq_observation = observation, pq_episode_info = info,
             pq_history = [], pq_step = None\<rparr>, r'))"

definition reset_adapter_request :: "string list \<Rightarrow> route \<Rightarrow> reset_adapter_request \<times> route" where
  "reset_adapter_request ids r = (case adapter_context_for ''reset_adapter'' r of (ctx, r') \<Rightarrow>
     (\<lparr>ra_context = Some ctx, ra_episode_ids = ids\<rparr>, r'))"

definition release_adapter_request :: "string \<Rightarrow> route \<Rightarrow> release_adapter_request \<times> route" where
  "release_adapter_request reason r = (case adapter_context_for ''release_adapter'' r of (ctx, r') \<Rightarrow>
     (\<lparr>rl_context = Some ctx, rl_reason = reason\<rparr>, r'))"

end
