(* ===== verification/DriverState.thy ===== *)
theory DriverState
  imports RouteState Relay
begin

text \<open>
  The data of the runtime driver (\<^verbatim>\<open>crates/rlmesh-runtime/src/driver.rs\<close>, \<open>driver/error.rs\<close> and
  \<open>hooks/events.rs\<close>): its error type, the hook events, the groups of lanes it drives, the
  operations it has in flight, and the state its loop advances.

  \<^item> Everything fixed for a session is a field of the record \<open>cfg\<close>: the validated spec, the model's
    two answers (\<open>fuses_predicts\<close>, \<open>wants_history\<close>), the relay policy, the source of episode ids,
    and prost's \<open>encoded_len\<close> of each message.
  \<^item> Everything the outside world decides during one turn is a field of the record \<open>io\<close>: clock
    readings, what a transform hook answers, what the scheduler plans, how an eviction ends.
  \<^item> What the driver does to the outside world is appended to a trace: every hook event and every
    call to the env and the model, in order.
  \<^item> A Rust panic is the fault \<open>Panic\<close>, so that its absence is a theorem about the model.
\<close>

section \<open>Errors\<close>

datatype protocol_error =
    Stalled
  | EnvTaskFailed string
  | GroupedCount nat nat
  | NoActions
  | HistoryBacklog nat
  | RelayRefused leg string string

datatype runtime_error =
    InvalidSpec spec_error
  | OperationTimeout string string string int nat
  | RouteCancelled string int string
  | EnvRpc string int string bool
  | ModelRpc string string bool
  | ModelRouteMismatch string string
  | Protocol protocol_error
  | HookFailed string

text \<open>The places the driver code would panic, one constructor each.\<close>

datatype panic =
    IndexOutOfBounds
  | EnvHandleMissing
  | StartNotStaged
  | UnplannedPredict
  | LaneInfoIndex
  | TrialOverflow
  | DurationOverflow

datatype fault = Err runtime_error | Panic panic

section \<open>Events\<close>

record started_event =
  ev_session_id :: string
  ev_route :: env_context
  ev_episode_id :: string
  ev_episode_record_id :: string
  ev_episode_index :: int
  ev_env_index :: int
  ev_started_from_auto_reset :: bool
  ev_seed :: "int option"
  ev_trial_index :: "nat option"

record completed_event =
  ce_session_id :: string
  ce_route :: env_context
  ce_episode_id :: string
  ce_episode_record_id :: string
  ce_episode_index :: int
  ce_env_index :: int
  ce_step_count :: int
  ce_cumulative_reward :: f64
  ce_terminated :: bool
  ce_truncated :: bool
  ce_duration_ms :: int
  ce_final_info :: "meta_map option"
  ce_success :: "bool option"
  ce_seed :: "int option"
  ce_trial_index :: "nat option"
  ce_predict_ms :: "f64 option"
  ce_step_ms :: "f64 option"

record action_event =
  ae_session_id :: string
  ae_route :: env_context
  ae_episode_id :: string
  ae_episode_record_id :: string
  ae_episode_ids :: "string list"
  ae_episode_record_ids :: "string list"
  ae_step :: int
  ae_env_index :: int
  ae_action_space :: p_space_spec
  ae_action :: "leaves option"
  ae_raw_action :: "leaves option"

record step_event =
  se_session_id :: string
  se_route :: env_context
  se_episode_id :: string
  se_episode_record_id :: string
  se_step :: int
  se_env_index :: int
  se_rewards :: "f64 list"
  se_infos :: "meta_map option"
  se_terminated :: "bool list"
  se_truncated :: "bool list"
  se_autoreset_roll :: "bool list"
  se_predict_ms :: f64
  se_step_ms :: f64

record observation_event =
  oe_session_id :: string
  oe_route :: env_context
  oe_episode_id :: string
  oe_episode_record_id :: string
  oe_episode_ids :: "string list"
  oe_episode_record_ids :: "string list"
  oe_step :: int
  oe_env_index :: int
  oe_is_reset :: bool
  oe_num_envs :: nat
  oe_observation_space :: p_space_spec
  oe_observation :: "leaves option"
  oe_raw_observation :: "leaves option"
  oe_infos :: "meta_map option"

datatype evict_outcome = EvictCancelled | EvictAnswered nat | EvictTimedOut

datatype trace_item =
    SessionStarted string env_context string
  | SessionEnded string env_context string int int
  | SessionFailed string env_context runtime_error
  | ResetLogged string env_context nat nat
  | EpisodeStarted started_event
  | EpisodeCompleted completed_event
  | ActionReceived action_event
  | StepCompleted step_event
  | ObservationEmitted observation_event
  | RelayAdvised string env_context leg advisory
  | TelemetryPushed string env_context snapshot
  | CallReset nat reset_request
  | CallStep nat step_request
  | CallPredict "(nat \<times> predict_request) list"
  | CallEvict reset_adapter_request evict_outcome
  | CallRelease release_adapter_request
  | CallEnvClose

section \<open>Groups\<close>

datatype env_phase = Ready | Stepping | Resetting | Idle

definition history_backlog_cap :: nat where
  "history_backlog_cap = 1023"

datatype predict_state =
    PNone
  | PWanted predict_request
  | PInFlight bool
  | PReady "leaves list"

record group =
  g_lanes :: "nat list"
  g_positions :: "nat list"
  g_lane_group :: bool
  g_whole :: bool
  g_phase :: env_phase
  g_predict :: predict_state
  g_env :: bool
  g_replay :: "leaves list"
  g_obs_msg :: "predict_request option"
  g_history :: "history_frame list"
  g_steps :: int
  g_pending_roll :: "(nat \<times> string) list"
  g_pending_completed :: "completed_event list"
  g_pending_start :: "(string list \<times> nat list) option"
  g_reset_generation :: nat
  g_pending_predict :: nat

definition g_width :: "group \<Rightarrow> nat" where
  "g_width g = length (g_lanes g)"

definition g_busy :: "group \<Rightarrow> bool" where
  "g_busy g = (g_phase g = Stepping \<or> g_phase g = Resetting)"

section \<open>Configuration, inputs and state\<close>

record cfg =
  cf_spec :: session_spec
  cf_prefetch_lead :: nat
  cf_deliver_history :: bool
  cf_fuses :: bool
  cf_policy :: relay_policy
  cf_uuid :: "nat \<Rightarrow> string"
  cf_cancellation_reason :: string
  cf_len_reset_request :: "reset_request \<Rightarrow> nat"
  cf_len_step_request :: "step_request \<Rightarrow> nat"
  cf_len_predict_request :: "predict_request \<Rightarrow> nat"
  cf_len_reset_response :: "reset_response \<Rightarrow> nat"
  cf_len_step_response :: "step_response \<Rightarrow> nat"
  cf_len_predict_response :: "predict_response \<Rightarrow> nat"
  cf_len_contract :: "env_contract \<Rightarrow> nat"

record io =
  io_now :: "nat \<Rightarrow> int"
  io_elapsed :: nat
  io_hook_elapsed :: nat
  io_transform_action :: "action_event \<Rightarrow> string + leaves option"
  io_transform_observation :: "observation_event \<Rightarrow> string + leaves option"
  io_plan :: "nat list \<Rightarrow> nat \<Rightarrow> nat list"
  io_evict :: evict_outcome

datatype env_op_kind = ResetOp bool reset_request | StepOp step_request

record env_op =
  eo_gid :: nat
  eo_kind :: env_op_kind
  eo_request_bytes :: nat
  eo_timeout_error :: runtime_error

text \<open>A predict in flight: per request its group, the request and its size; and its timeout error.\<close>

record predict_op =
  po_requests :: "(nat \<times> predict_request \<times> nat) list"
  po_timeout_error :: runtime_error

record drv =
  dr_route :: route
  dr_groups :: "group list"
  dr_env_ops :: "env_op list"
  dr_predicts :: "predict_op list"
  dr_pending_evictions :: "string list"
  dr_held_evictions :: "(nat \<times> string) list"
  dr_advisories :: "advisory list"
  dr_trial_options_warned :: bool
  dr_vector_replay_warned :: bool
  dr_agg :: aggregator
  dr_minted :: nat
  dr_trace :: "trace_item list"

section \<open>Peer replies\<close>

record env_reset_reply =
  er_response :: reset_response
  er_endpoint_total_ns :: "nat option"
  er_phases :: endpoint_phases

record env_step_reply =
  es_response :: step_response
  es_endpoint_total_ns :: "nat option"
  es_phases :: endpoint_phases

record prediction =
  pd_response :: predict_response
  pd_endpoint_total_ns :: "nat option"
  pd_phases :: endpoint_phases
  pd_group_size :: "nat option"

section \<open>Small steps on the state\<close>

definition emit :: "trace_item \<Rightarrow> drv \<Rightarrow> drv" where
  "emit t d = d\<lparr>dr_trace := dr_trace d @ [t]\<rparr>"

definition emit_all :: "trace_item list \<Rightarrow> drv \<Rightarrow> drv" where
  "emit_all ts d = d\<lparr>dr_trace := dr_trace d @ ts\<rparr>"

definition set_group :: "nat \<Rightarrow> group \<Rightarrow> drv \<Rightarrow> drv" where
  "set_group gid g d = d\<lparr>dr_groups := (dr_groups d)[gid := g]\<rparr>"

definition on_agg :: "(aggregator \<Rightarrow> aggregator) \<Rightarrow> drv \<Rightarrow> drv" where
  "on_agg f d = d\<lparr>dr_agg := f (dr_agg d)\<rparr>"

definition set_route :: "route \<Rightarrow> drv \<Rightarrow> drv" where
  "set_route r d = d\<lparr>dr_route := r\<rparr>"

text \<open>
  An operation leaves the state it reached and, when it failed, the fault: after an error the
  route is torn down from the state the failed operation left. \<open>and_then\<close> is \<open>?\<close> followed by the rest.
\<close>

type_synonym step_result = "drv \<times> fault option"

definition and_then :: "step_result \<Rightarrow> (drv \<Rightarrow> step_result) \<Rightarrow> step_result" where
  "and_then r f = (case r of (d, None) \<Rightarrow> f d | (d, Some e) \<Rightarrow> (d, Some e))"

fun for_each :: "('a \<Rightarrow> drv \<Rightarrow> step_result) \<Rightarrow> 'a list \<Rightarrow> drv \<Rightarrow> step_result" where
  "for_each f [] d = (d, None)"
| "for_each f (x # xs) d = and_then (f x d) (for_each f xs)"

lemma and_then_simps [simp]:
  "and_then (d, None) f = f d"
  "and_then (d, Some e) f = (d, Some e)"
  by (simp_all add: and_then_def)

lemma and_then_None_iff:
  "and_then r f = (d', None) \<longleftrightarrow> (\<exists>d. r = (d, None) \<and> f d = (d', None))"
  by (cases r; cases "snd r") auto

text \<open>An invariant of every step is an invariant of the loop, whether it ends normally or not.\<close>

lemma for_each_invariant:
  assumes "\<And>x d. x \<in> set xs \<Longrightarrow> P d \<Longrightarrow> P (fst (f x d))" "P d"
  shows "P (fst (for_each f xs d))"
  using assms
proof (induction xs arbitrary: d)
  case (Cons x xs)
  then show ?case by (cases "f x d"; cases "snd (f x d)") (auto simp: and_then_def; metis fst_conv)+
qed simp

end
