(* ===== verification/Driver.thy ===== *)
theory Driver
  imports DriverState
begin

text \<open>
  The operations of the runtime driver (\<^verbatim>\<open>crates/rlmesh-runtime/src/driver.rs\<close>), one definition
  per method, each the whole method: episode restarts (\<open>begin_reset\<close>), the dispatch of steps and
  predicts, the handlers of finished operations (\<open>on_predict_outcome\<close>, \<open>on_env_outcome\<close>, \<open>on_step\<close>,
  \<open>observe\<close>), the eviction queue, the relay seam, the loop head, and the epilogue that tears a
  route down. A hash map is an association list in some order; nothing proved depends on which.
\<close>

unbundle bit_operations_syntax

section \<open>Pure helpers\<close>

definition success_from_final_info :: "string list \<Rightarrow> meta_map option \<Rightarrow> bool option" where
  "success_from_final_info keys final_info = (case final_info of
      None \<Rightarrow> None
    | Some entries \<Rightarrow> find_map (\<lambda>key. case map_of entries key of
          Some (MetaBool v) \<Rightarrow> Some v
        | Some (MetaInteger v) \<Rightarrow> Some (v \<noteq> 0)
        | Some (MetaNumber v) \<Rightarrow> Some (\<not> f64_eq v f64_zero)
        | _ \<Rightarrow> None) keys)"

definition fnv_offset :: "64 word" where "fnv_offset = 0xcbf29ce484222325"
definition fnv_prime :: "64 word" where "fnv_prime = 0x100000001b3"

definition fnv_update :: "64 word \<Rightarrow> 64 word list \<Rightarrow> 64 word" where
  "fnv_update = foldl (\<lambda>h b. (h XOR b) * fnv_prime)"

text \<open>The eight bytes of a 64-bit value, least significant first, and those of a string.\<close>

definition le_bytes :: "64 word \<Rightarrow> 64 word list" where
  "le_bytes w = map (\<lambda>i. drop_bit (8 * i) w AND 0xff) [0..<8]"

definition str_bytes :: "string \<Rightarrow> 64 word list" where
  "str_bytes s = map (\<lambda>c. word_of_nat (of_char c)) s"

definition deterministic_reset_seed :: "int \<Rightarrow> string \<Rightarrow> nat \<Rightarrow> nat \<Rightarrow> int" where
  "deterministic_reset_seed base_seed session_id reset_generation env_index =
     (let h = fnv_update fnv_offset (le_bytes (word_of_int base_seed));
          h = fnv_update h [0xff];
          h = fnv_update h (str_bytes session_id);
          h = fnv_update h [0xfd];
          h = fnv_update h (le_bytes (word_of_nat reset_generation));
          h = fnv_update h [0xfc];
          h = fnv_update h (le_bytes (word_of_nat env_index))
      in uint (h AND 0x7fffffffffffffff))"

definition episode_ids_with_roll :: "string list \<Rightarrow> nat list \<Rightarrow> (nat \<times> string) list \<Rightarrow> string list" where
  "episode_ids_with_roll ids lanes roll = fold (\<lambda>(env_index, new_id) ids.
     case position (\<lambda>lane. lane = env_index) lanes of
       Some p \<Rightarrow> ids[p := new_id] | None \<Rightarrow> ids) roll ids"

section \<open>Session facts\<close>

definition driver_autoreset_mode :: "cfg \<Rightarrow> autoreset_mode" where
  "driver_autoreset_mode c = (case autoreset_try_from (ec_autoreset_mode (ss_env_contract (cf_spec c))) of
      Some m \<Rightarrow> m | None \<Rightarrow> Disabled)"

definition driver_owns_resets :: "cfg \<Rightarrow> bool" where
  "driver_owns_resets c =
     (driver_autoreset_mode c \<in> set (ed_driver_owned_reset_modes (spec_defaults (cf_spec c))))"

definition lane_partitions :: "cfg \<Rightarrow> nat list list" where
  "lane_partitions c = (let n = max (ss_num_envs (cf_spec c)) 1 in
     if ss_subset_step (cf_spec c) \<and> n > 1 then map (\<lambda>lane. [lane]) [0..<n] else [[0..<n]])"

definition group_new :: "cfg \<Rightarrow> nat list \<Rightarrow> group" where
  "group_new c lanes =
     (let lane_group = (ss_subset_step (cf_spec c) \<and> max (ss_num_envs (cf_spec c)) 1 > 1) in
      \<lparr>g_lanes = lanes, g_positions = lanes, g_lane_group = lane_group, g_whole = (\<not> lane_group),
       g_phase = Ready, g_predict = PNone, g_env = True, g_replay = [], g_obs_msg = None,
       g_history = [], g_steps = 0, g_pending_roll = [], g_pending_completed = [],
       g_pending_start = None, g_reset_generation = 0, g_pending_predict = 0\<rparr>)"

definition driver_groups :: "cfg \<Rightarrow> group list" where
  "driver_groups c = map (group_new c) (lane_partitions c)"

definition seeds_for :: "cfg \<Rightarrow> group \<Rightarrow> nat list \<Rightarrow> int list" where
  "seeds_for c g slots =
     (let spec = cf_spec c in
      if ss_episode_seeds spec \<noteq> [] then
        (let seeds = map (nth_opt (ss_episode_seeds spec)) slots in
         if list_all (\<lambda>s. s \<noteq> None) seeds then map the seeds else [])
      else case ss_base_seed spec of
        None \<Rightarrow> []
      | Some base \<Rightarrow>
          (if g_lane_group g
           then map (\<lambda>slot. deterministic_reset_seed base (ss_session_id spec) slot 0) slots
           else map (\<lambda>lane. deterministic_reset_seed base (ss_session_id spec)
                       (g_reset_generation g) lane) (g_lanes g)))"

text \<open>\<open>None\<close> is the overflow panic of \<open>claim_trial_indices\<close>.\<close>

definition planned_trial_indices :: "cfg \<Rightarrow> nat \<Rightarrow> route \<Rightarrow> (nat list \<times> route) option" where
  "planned_trial_indices c lanes r =
     (if driver_owns_resets c then claim_trial_indices (trial_index_base (cf_spec c)) lanes r
      else Some ([], r))"

definition trial_options :: "cfg \<Rightarrow> nat list \<Rightarrow> drv \<Rightarrow> meta_map option \<times> drv" where
  "trial_options c trials d =
     (let key = ed_trial_index_option_key (spec_defaults (cf_spec c));
          options = reset_options_for (ss_env_contract (cf_spec c)) key trials
      in (options,
          if options = None \<and> trials \<noteq> [] \<and> trial_index_base (cf_spec c) \<noteq> 0
          then d\<lparr>dr_trial_options_warned := True\<rparr> else d))"

definition mint_ids :: "cfg \<Rightarrow> nat \<Rightarrow> drv \<Rightarrow> string list \<times> drv" where
  "mint_ids c n d = (map (cf_uuid c) [dr_minted d..<dr_minted d + n], d\<lparr>dr_minted := dr_minted d + n\<rparr>)"

section \<open>Restarting a group\<close>

definition timeout_ms :: "int \<Rightarrow> nat" where
  "timeout_ms ms = nat (max ms 0)"

definition claim_for :: "group \<Rightarrow> route \<Rightarrow> nat list \<times> route" where
  "claim_for g r =
     (if g_lane_group g
      then (case claim_slots (g_width g) True r of (None, r') \<Rightarrow> ([], r') | (Some s, r') \<Rightarrow> (s, r'))
      else claim_slots_upto (g_width g) r)"

text \<open>The route and the staged group of a reset, with its trials; \<open>None\<close> is the trial overflow.\<close>

definition stage_reset ::
  "cfg \<Rightarrow> bool \<Rightarrow> nat list \<Rightarrow> string list \<Rightarrow> group \<Rightarrow> route \<Rightarrow> (int list \<times> nat list \<times> group \<times> route) option" where
  "stage_reset c initial slots ids g0 r =
     (let g1 = (if initial then g0 else g0\<lparr>g_reset_generation := g_reset_generation g0 + 1\<rparr>);
          seeds = seeds_for c g1 slots;
          r1 = note_episode_seeds ids seeds (fold mark_surplus (drop (length slots) ids) r)
      in case planned_trial_indices c (g_width g0) r1 of
           None \<Rightarrow> None
         | Some (trials, r2) \<Rightarrow>
             Some (seeds, trials,
               g1\<lparr>g_pending_start := Some (ids, slots), g_replay := [], g_history := [],
                  g_pending_roll := []\<rparr>, note_episode_trials ids trials r2))"

definition send_reset ::
  "cfg \<Rightarrow> nat \<Rightarrow> bool \<Rightarrow> int list \<Rightarrow> nat list \<Rightarrow> string list \<Rightarrow> group \<Rightarrow> drv \<Rightarrow> step_result" where
  "send_reset c gid initial seeds trials ids g d0 =
     (case trial_options c trials (set_group gid g d0) of (options, d) \<Rightarrow>
        (let request = \<lparr>rq_seeds = seeds, rq_options = options,
               rq_timeout_ms = timeout_ms (env_reset_timeout_ms (ss_limits (cf_spec c))),
               rq_env_indices = (if g_whole g then [] else g_lanes g), rq_episode_ids = ids\<rparr>
         in if \<not> g_env g then (d, Some (Panic EnvHandleMissing))
            else (emit (CallReset gid request)
                   (set_group gid (g\<lparr>g_env := False, g_phase := Resetting\<rparr>)
                    (d\<lparr>dr_env_ops := dr_env_ops d @ [\<lparr>eo_gid = gid, eo_kind = ResetOp initial request,
                        eo_request_bytes = cf_len_reset_request c request,
                        eo_timeout_error = OperationTimeout (ro_env_id (dr_route d))
                          (ro_env_component_id (dr_route d)) ''env.reset'' 0
                          (rl_env_reset_timeout (ss_limits (cf_spec c)))\<rparr>]\<rparr>)), None)))"

definition begin_reset :: "cfg \<Rightarrow> nat \<Rightarrow> bool \<Rightarrow> drv \<Rightarrow> step_result" where
  "begin_reset c gid initial d =
     (case nth_opt (dr_groups d) gid of
        None \<Rightarrow> (d, Some (Panic IndexOutOfBounds))
      | Some g0 \<Rightarrow>
         (case claim_for g0 (dr_route d) of (slots, rt1) \<Rightarrow>
            (if slots = []
             then (set_group gid (g0\<lparr>g_phase := Idle, g_predict := PNone\<rparr>) (set_route rt1 d), None)
             else (case mint_ids c (g_width g0) (set_route rt1 d) of (ids, d2) \<Rightarrow>
                (case stage_reset c initial slots ids g0 (dr_route d2) of
                   None \<Rightarrow> (d2, Some (Panic TrialOverflow))
                 | Some (seeds, trials, g, rt) \<Rightarrow>
                     send_reset c gid initial seeds trials ids g (set_route rt d2))))))"

section \<open>The relay seam\<close>

definition driver_ceiling :: "cfg \<Rightarrow> leg \<Rightarrow> peer_ceiling option" where
  "driver_ceiling c l = (case l of
      EnvToModel \<Rightarrow> ss_model_ceiling (cf_spec c) | ModelToEnv \<Rightarrow> ss_env_ceiling (cf_spec c))"

definition driver_observation_space :: "cfg \<Rightarrow> p_space_spec" where
  "driver_observation_space c = observation_space_validated (cf_spec c)"

definition driver_action_space :: "cfg \<Rightarrow> p_space_spec" where
  "driver_action_space c = action_space_validated (cf_spec c)"

definition raise_advisory :: "string \<Rightarrow> env_context \<Rightarrow> leg \<Rightarrow> advisory \<Rightarrow> drv \<Rightarrow> drv" where
  "raise_advisory session_id ctx l adv d =
     (if adv \<in> set (dr_advisories d) then d
      else emit (RelayAdvised session_id ctx l adv)
             (d\<lparr>dr_advisories := dr_advisories d @ [adv]\<rparr>))"

definition relay ::
  "cfg \<Rightarrow> leg \<Rightarrow> string \<Rightarrow> env_context \<Rightarrow> p_space_spec \<Rightarrow> leaves option \<Rightarrow> drv
    \<Rightarrow> (runtime_error + leaves option \<times> p_space_spec option) \<times> drv" where
  "relay c l session_id ctx space payload d =
     (case driver_ceiling c l of
        None \<Rightarrow> (Inr (payload, None), d)
      | Some ceiling \<Rightarrow>
         (case payload of
            None \<Rightarrow> (Inr (None, None), d)
          | Some lvs \<Rightarrow>
             (case cf_policy c l ceiling (payload_facts_new space lvs) of
                Forward \<Rightarrow> (Inr (Some lvs, None), d)
              | Convert lvs' space' adv \<Rightarrow>
                  (Inr (Some lvs', space'), raise_advisory session_id ctx l adv d)
              | Refuse reason \<Rightarrow> (Inl (Protocol (RelayRefused l ''payload'' reason)), d))))"

definition contract_facts :: "cfg \<Rightarrow> payload_facts" where
  "contract_facts c = (payload_facts_new
      (PSpaceSpec [] 0 (Some (PTuple [driver_observation_space c, driver_action_space c]))) [])
     \<lparr>pf_byte_len := cf_len_contract c (ss_env_contract (cf_spec c))\<rparr>"

definition relay_contract :: "cfg \<Rightarrow> drv \<Rightarrow> step_result" where
  "relay_contract c d = (case driver_ceiling c EnvToModel of
      None \<Rightarrow> (d, None)
    | Some ceiling \<Rightarrow>
       (case cf_policy c EnvToModel ceiling (contract_facts c) of
          Forward \<Rightarrow> (d, None)
        | Convert lvs space adv \<Rightarrow>
            (raise_advisory (ro_session_id (dr_route d)) (route_env_context (dr_route d)) EnvToModel adv d, None)
        | Refuse reason \<Rightarrow> (d, Some (Err (Protocol (RelayRefused EnvToModel ''contract'' reason))))))"

definition invoke_transform_action ::
  "cfg \<Rightarrow> io \<Rightarrow> action_event \<Rightarrow> drv
    \<Rightarrow> (runtime_error + leaves option \<times> p_space_spec option) \<times> drv" where
  "invoke_transform_action c i ev d0 =
     (let d = on_agg (agg_record (sample_dur SRC_TRANSFORM_ACTION RPC_TOTAL (io_hook_elapsed i))) d0
      in case io_transform_action i ev of
           Inr action \<Rightarrow> relay c ModelToEnv (ae_session_id ev) (ae_route ev) (driver_action_space c) action d
         | Inl err \<Rightarrow> (Inl (HookFailed err), d))"

definition invoke_transform_observation ::
  "cfg \<Rightarrow> io \<Rightarrow> observation_event \<Rightarrow> drv
    \<Rightarrow> (runtime_error + leaves option \<times> p_space_spec option) \<times> drv" where
  "invoke_transform_observation c i ev d0 =
     (let d = on_agg (agg_record (sample_dur SRC_TRANSFORM_OBS RPC_TOTAL (io_hook_elapsed i))) d0
      in case io_transform_observation i ev of
           Inr obs \<Rightarrow> relay c EnvToModel (oe_session_id ev) (oe_route ev) (driver_observation_space c) obs d
         | Inl err \<Rightarrow> (Inl (HookFailed err), d))"

section \<open>Dispatch\<close>

definition last_step :: "history_frame list \<Rightarrow> int option" where
  "last_step rows = (if rows = [] then None else Some (hf_step (last rows)))"

text \<open>The request, the group and the telemetry after \<open>latest_request\<close>.\<close>

definition latest_request ::
  "cfg \<Rightarrow> group \<Rightarrow> aggregator \<Rightarrow> predict_request option \<times> group \<times> aggregator" where
  "latest_request c g agg = (case g_obs_msg g of
      None \<Rightarrow> (None, g, agg)
    | Some msg \<Rightarrow>
       (if cf_deliver_history c then
          (if last_step (g_history g) \<noteq> pq_step msg then (None, g, agg)
           else let msg' = msg\<lparr>pq_history := butlast (g_history g)\<rparr>
                in (Some msg', g\<lparr>g_history := []\<rparr>, record_history_rows msg' agg))
        else (Some msg, g, agg)))"

definition prefetch :: "cfg \<Rightarrow> nat \<Rightarrow> group \<Rightarrow> drv \<Rightarrow> group \<times> drv" where
  "prefetch c gid g d =
     (if cf_prefetch_lead c > 0 \<and> length (g_replay g) \<le> cf_prefetch_lead c \<and> g_predict g = PNone
      then (case latest_request c g (dr_agg d) of (m, g', agg') \<Rightarrow>
              (let g'' = (case m of Some msg \<Rightarrow> g'\<lparr>g_predict := PWanted msg\<rparr> | None \<Rightarrow> g')
               in (g'', set_group gid g'' (d\<lparr>dr_agg := agg'\<rparr>))))
      else (g, set_group gid g d))"

definition action_event_for :: "cfg \<Rightarrow> group \<Rightarrow> leaves \<Rightarrow> route \<Rightarrow> action_event" where
  "action_event_for c g model_action r =
     (let snap = snapshot_at (g_positions g) r in
      \<lparr>ae_session_id = ro_session_id r, ae_route = group_context (g_positions g) (g_lane_group g) r,
       ae_episode_id = sp_episode_id snap, ae_episode_record_id = sp_episode_record_id snap,
       ae_episode_ids = sp_episode_ids snap, ae_episode_record_ids = sp_episode_record_ids snap,
       ae_step = sp_step snap + 1, ae_env_index = sp_env_index snap,
       ae_action_space = driver_action_space c, ae_action = Some model_action,
       ae_raw_action = Some model_action\<rparr>)"

text \<open>The rest of one group's dispatch, once its frame \<open>model_action\<close> is off the replay buffer.\<close>

definition send_step :: "cfg \<Rightarrow> io \<Rightarrow> nat \<Rightarrow> group \<Rightarrow> leaves \<Rightarrow> drv \<Rightarrow> step_result" where
  "send_step c i gid g model_action d =
     (let ev = action_event_for c g model_action (dr_route d) in
      case invoke_transform_action c i ev d of
        (Inl e, d1) \<Rightarrow> (d1, Some (Err e))
      | (Inr (action, relayed), d1) \<Rightarrow>
         (let ev' = ev\<lparr>ae_action := action,
                       ae_action_space := (case relayed of Some s \<Rightarrow> s | None \<Rightarrow> ae_action_space ev)\<rparr>;
              d2 = emit (ActionReceived ev') d1;
              request = \<lparr>sq_action = action,
                 sq_timeout_ms = timeout_ms (env_step_timeout_ms (ss_limits (cf_spec c))),
                 sq_env_indices = (if g_whole g then [] else g_lanes g),
                 sq_episode_ids = episode_ids_with_roll (episode_ids_at (g_positions g) (dr_route d2))
                    (g_lanes g) (g_pending_roll g)\<rparr>
          in if \<not> g_env g then (d2, Some (Panic EnvHandleMissing))
             else (emit (CallStep gid request)
                    (set_group gid (g\<lparr>g_env := False, g_phase := Stepping\<rparr>)
                     (d2\<lparr>dr_env_ops := dr_env_ops d2 @ [\<lparr>eo_gid = gid, eo_kind = StepOp request,
                         eo_request_bytes = cf_len_step_request c request,
                         eo_timeout_error = OperationTimeout (ro_env_id (dr_route d2))
                           (ro_env_component_id (dr_route d2)) ''env.step'' (ae_step ev)
                           (rl_env_step_timeout (ss_limits (cf_spec c)))\<rparr>]\<rparr>)), None)))"

definition dispatch_step :: "cfg \<Rightarrow> io \<Rightarrow> nat \<Rightarrow> drv \<Rightarrow> step_result" where
  "dispatch_step c i gid d = (case nth_opt (dr_groups d) gid of
      None \<Rightarrow> (d, Some (Panic IndexOutOfBounds))
    | Some g0 \<Rightarrow>
       (if g_phase g0 \<noteq> Ready then (d, None)
        else
         (let g1 = (case (g_replay g0, g_predict g0) of
                ([], PReady frames) \<Rightarrow> g0\<lparr>g_replay := frames, g_predict := PNone\<rparr> | _ \<Rightarrow> g0)
          in case g_replay g1 of
               [] \<Rightarrow> (set_group gid g1 d, None)
             | model_action # rest \<Rightarrow>
                 (case prefetch c gid (g1\<lparr>g_replay := rest\<rparr>) d of (g2, d2) \<Rightarrow>
                    send_step c i gid g2 model_action d2))))"

definition dispatch_steps :: "cfg \<Rightarrow> io \<Rightarrow> drv \<Rightarrow> step_result" where
  "dispatch_steps c i d = for_each (dispatch_step c i) [0..<length (dr_groups d)] d"

definition is_wanted :: "group \<Rightarrow> bool" where
  "is_wanted g = (case g_predict g of PWanted _ \<Rightarrow> True | _ \<Rightarrow> False)"

definition is_in_flight :: "group \<Rightarrow> bool" where
  "is_in_flight g = (case g_predict g of PInFlight _ \<Rightarrow> True | _ \<Rightarrow> False)"

text \<open>The loop of \<open>predict_for\<close> over the chosen groups, gathering requests and the largest step.\<close>

fun gather :: "cfg \<Rightarrow> nat list \<Rightarrow> int \<Rightarrow> (nat \<times> predict_request \<times> nat) list \<Rightarrow> drv
    \<Rightarrow> (fault + int \<times> (nat \<times> predict_request \<times> nat) list) \<times> drv" where
  "gather c [] step acc d = (Inr (step, acc), d)"
| "gather c (gid # rest) step acc d = (case nth_opt (dr_groups d) gid of
      None \<Rightarrow> (Inl (Panic IndexOutOfBounds), d)
    | Some g \<Rightarrow>
       (case g_predict g of
          PWanted msg \<Rightarrow>
            (let d' = set_route (mark_predicted (g_positions g) (dr_route d))
                        (set_group gid (g\<lparr>g_predict := PInFlight False\<rparr>) d)
             in gather c rest (max step (sp_step (snapshot_at (g_positions g) (dr_route d))))
                  (acc @ [(gid, msg, cf_len_predict_request c msg)]) d')
        | _ \<Rightarrow> (Inl (Panic UnplannedPredict), d)))"

definition predict_for :: "cfg \<Rightarrow> nat list \<Rightarrow> drv \<Rightarrow> step_result" where
  "predict_for c chosen d = (case gather c chosen 0 [] d of
      (Inl f, d') \<Rightarrow> (d', Some f)
    | (Inr (step, reqs), d') \<Rightarrow>
       (emit (CallPredict (map (\<lambda>(gid, msg, _). (gid, msg)) reqs))
         (d'\<lparr>dr_predicts := dr_predicts d' @ [\<lparr>po_requests = reqs,
             po_timeout_error = OperationTimeout (ro_env_id (dr_route d'))
               (ro_model_component_id (dr_route d')) ''model.predict'' step
               (rl_model_predict_timeout (ss_limits (cf_spec c)))\<rparr>]\<rparr>), None))"

definition dispatch_predict :: "cfg \<Rightarrow> io \<Rightarrow> bool \<Rightarrow> drv \<Rightarrow> step_result" where
  "dispatch_predict c i force d =
     (if cf_fuses c \<and> dr_predicts d \<noteq> [] then (d, None)
      else
       (let waiting = filter (\<lambda>gid. is_wanted (dr_groups d ! gid)) [0..<length (dr_groups d)] in
        if waiting = [] then (d, None)
        else
         (let busy = length (filter g_busy (dr_groups d));
              planned = filter (\<lambda>gid. gid \<in> set waiting) (io_plan i waiting busy)
          in if planned = [] \<and> \<not> force then (d, None)
             else
              (let chosen = (if planned = [] then waiting else planned) in
               if cf_fuses c then predict_for c chosen d
               else for_each (\<lambda>gid. predict_for c [gid]) chosen d))))"

section \<open>Evictions\<close>

fun end_all :: "nat list \<Rightarrow> route \<Rightarrow> string list \<times> route" where
  "end_all [] r = ([], r)"
| "end_all (env_index # rest) r = (case end_episode_at env_index r of (e, r1) \<Rightarrow>
     (case end_all rest r1 of (ids, r2) \<Rightarrow> ((case e of Some x \<Rightarrow> x # ids | None \<Rightarrow> ids), r2)))"

definition queue_evictions :: "nat \<Rightarrow> group \<Rightarrow> nat list \<Rightarrow> drv \<Rightarrow> drv" where
  "queue_evictions gid g env_indices d =
     (case end_all env_indices (dr_route d) of (ids, rt) \<Rightarrow>
        (if is_in_flight g
         then d\<lparr>dr_route := rt, dr_held_evictions := dr_held_evictions d @ map (\<lambda>e. (gid, e)) ids\<rparr>
         else d\<lparr>dr_route := rt, dr_pending_evictions := dr_pending_evictions d @ ids\<rparr>))"

definition flush_evictions :: "evict_outcome \<Rightarrow> drv \<Rightarrow> drv" where
  "flush_evictions outcome d =
     (if dr_pending_evictions d = [] then d
      else (case reset_adapter_request (dr_pending_evictions d) (dr_route d) of (request, rt) \<Rightarrow>
        (let d1 = emit (CallEvict request outcome) (d\<lparr>dr_pending_evictions := [], dr_route := rt\<rparr>) in
         case outcome of
           EvictAnswered elapsed \<Rightarrow>
             on_agg (agg_record (sample_dur SRC_RESET_ADAPTER RPC_TOTAL elapsed)) d1
         | _ \<Rightarrow> d1)))"

section \<open>A finished predict\<close>

definition record_predict_op ::
  "cfg \<Rightarrow> nat \<Rightarrow> nat \<Rightarrow> nat \<Rightarrow> prediction \<Rightarrow> drv \<Rightarrow> drv" where
  "record_predict_op c group_count rpc request_bytes p d =
     on_agg (record_op SRC_PREDICT rpc \<lparr>pr_endpoint_total_ns = pd_endpoint_total_ns p,
        pr_phases = pd_phases p,
        pr_group_size = (if group_count > 1 then Some group_count else pd_group_size p)\<rparr>
        request_bytes (cf_len_predict_response c (pd_response p))) d"

text \<open>The new predict state of a group whose frames arrived, with the group it leaves.\<close>

definition land_predict :: "cfg \<Rightarrow> group \<Rightarrow> leaves list \<Rightarrow> aggregator \<Rightarrow> group \<times> aggregator" where
  "land_predict c g frames agg = (case g_predict g of
      PInFlight stale \<Rightarrow>
        (if stale then
           (if g_phase g = Ready \<and> g_replay g = [] then
              (case latest_request c g agg of (m, g', agg') \<Rightarrow>
                 (g'\<lparr>g_predict := (case m of Some msg \<Rightarrow> PWanted msg | None \<Rightarrow> PNone)\<rparr>, agg'))
            else (g\<lparr>g_predict := PNone\<rparr>, agg))
         else
           (if g_replay g = [] then (g\<lparr>g_replay := frames, g_predict := PNone\<rparr>, agg)
            else (g\<lparr>g_predict := PReady frames\<rparr>, agg)))
    | _ \<Rightarrow> (g, agg))"

definition release_held :: "nat \<Rightarrow> drv \<Rightarrow> drv" where
  "release_held gid d = d\<lparr>
     dr_pending_evictions := dr_pending_evictions d
        @ map snd (filter (\<lambda>(held, _). held = gid) (dr_held_evictions d)),
     dr_held_evictions := filter (\<lambda>(held, _). held \<noteq> gid) (dr_held_evictions d)\<rparr>"

text \<open>One request of the outcome; \<open>first\<close> says whether its reply records the operation.\<close>

definition apply_prediction ::
  "cfg \<Rightarrow> nat \<Rightarrow> nat \<Rightarrow> bool \<times> (nat \<times> predict_request \<times> nat) \<times> (runtime_error + prediction)
    \<Rightarrow> drv \<Rightarrow> step_result" where
  "apply_prediction c group_count rpc = (\<lambda>(first, (gid, msg, request_bytes), res) d.
     case res of
       Inl e \<Rightarrow> (d, Some (Err e))
     | Inr p \<Rightarrow>
        (if pp_context (pd_response p) \<noteq> pq_context msg then
           (d, Some (Err (ModelRouteMismatch (ro_model_component_id (dr_route d))
              (case pq_context msg of None \<Rightarrow> [] | Some ctx \<Rightarrow> ac_request_id ctx))))
         else
          (let d1 = (if first then record_predict_op c group_count rpc request_bytes p d else d) in
           if pp_actions (pd_response p) = [] then (d1, Some (Err (Protocol NoActions)))
           else (case nth_opt (dr_groups d1) gid of
               None \<Rightarrow> (d1, Some (Panic IndexOutOfBounds))
             | Some g0 \<Rightarrow>
                (case land_predict c (g0\<lparr>g_pending_predict := g_pending_predict g0 + rpc\<rparr>)
                        (pp_actions (pd_response p)) (dr_agg d1) of (g, agg) \<Rightarrow>
                   (release_held gid (set_group gid g (d1\<lparr>dr_agg := agg\<rparr>)), None))))))"

definition on_predict_outcome ::
  "cfg \<Rightarrow> (nat \<times> predict_request \<times> nat) list \<Rightarrow> nat \<Rightarrow> runtime_error + (runtime_error + prediction) list
    \<Rightarrow> drv \<Rightarrow> step_result" where
  "on_predict_outcome c requests rpc result d = (case result of
      Inl e \<Rightarrow> (d, Some (Err e))
    | Inr results \<Rightarrow>
       (if length results \<noteq> length requests
        then (d, Some (Err (Protocol (GroupedCount (length results) (length requests)))))
        else for_each (apply_prediction c (length requests) rpc)
               (zip (map (\<lambda>k. k = 0) [0..<length requests]) (zip requests results)) d))"

section \<open>Observing\<close>

definition observation_event_for ::
  "cfg \<Rightarrow> group \<Rightarrow> bool \<Rightarrow> leaves option \<Rightarrow> meta_map option \<Rightarrow> route \<Rightarrow> observation_event" where
  "observation_event_for c g is_reset observation infos r =
     (let snap = snapshot_at (g_positions g) r in
      \<lparr>oe_session_id = ro_session_id r, oe_route = group_context (g_positions g) (g_lane_group g) r,
       oe_episode_id = sp_episode_id snap, oe_episode_record_id = sp_episode_record_id snap,
       oe_episode_ids = sp_episode_ids snap, oe_episode_record_ids = sp_episode_record_ids snap,
       oe_step = sp_step snap, oe_env_index = sp_env_index snap, oe_is_reset = is_reset,
       oe_num_envs = g_width g, oe_observation_space = driver_observation_space c,
       oe_observation = observation, oe_raw_observation = observation, oe_infos = infos\<rparr>)"

definition replans :: "group \<Rightarrow> bool" where
  "replans g = (g_replay g = [] \<and> g_predict g = PNone)"

text \<open>The end of \<open>observe\<close>: the message becomes the group's, as a request or as a history row.\<close>

definition take_observation ::
  "cfg \<Rightarrow> predict_request \<Rightarrow> group \<Rightarrow> aggregator \<Rightarrow> protocol_error + group \<times> aggregator" where
  "take_observation c msg0 g agg =
     (let settle = (\<lambda>msg g'. g'\<lparr>g_obs_msg := Some msg, g_phase := Ready,
                        g_predict := (if replans g then PWanted msg else g_predict g')\<rparr>)
      in if cf_deliver_history c then
           (let msg = msg0\<lparr>pq_step := Some (g_steps g)\<rparr> in
            if replans g then
              (let msg' = msg\<lparr>pq_history := g_history g\<rparr>
               in Inr (settle msg' (g\<lparr>g_history := []\<rparr>), record_history_rows msg' agg))
            else if length (g_history g) \<ge> history_backlog_cap
              then Inl (HistoryBacklog (length (g_history g)))
            else Inr (settle msg (g\<lparr>g_history := g_history g @ [\<lparr>hf_observation = pq_observation msg,
                    hf_episode_info = pq_episode_info msg, hf_step = g_steps g\<rparr>]\<rparr>), agg))
         else Inr (settle msg0 g, agg))"

definition observe ::
  "cfg \<Rightarrow> io \<Rightarrow> nat \<Rightarrow> leaves option \<Rightarrow> meta_map option \<Rightarrow> request_phase \<Rightarrow> bool \<Rightarrow> drv \<Rightarrow> step_result" where
  "observe c i gid observation infos phase is_reset d = (case nth_opt (dr_groups d) gid of
      None \<Rightarrow> (d, Some (Panic IndexOutOfBounds))
    | Some g \<Rightarrow>
       (case predict_request_at (g_positions g) observation phase (dr_route d) of (msg, rt) \<Rightarrow>
         (let d1 = set_route rt d;
              ev = observation_event_for c g is_reset observation infos rt
          in case invoke_transform_observation c i ev d1 of
               (Inl e, d2) \<Rightarrow> (d2, Some (Err e))
             | (Inr (transformed, relayed), d2) \<Rightarrow>
                (let ev' = ev\<lparr>oe_observation := transformed, oe_observation_space :=
                        (case relayed of Some s \<Rightarrow> s | None \<Rightarrow> oe_observation_space ev)\<rparr>;
                     d3 = emit (ObservationEmitted ev') d2
                 in case take_observation c (msg\<lparr>pq_observation := transformed\<rparr>) g (dr_agg d3) of
                      Inl e \<Rightarrow> (d3, Some (Err (Protocol e)))
                    | Inr (g', agg) \<Rightarrow> (set_group gid g' (d3\<lparr>dr_agg := agg\<rparr>), None)))))"

section \<open>Completions\<close>

definition started_event_for :: "env_context \<Rightarrow> started_episode \<Rightarrow> route \<Rightarrow> started_event" where
  "started_event_for ctx st r =
     \<lparr>ev_session_id = ro_session_id r, ev_route = ctx, ev_episode_id = st_episode_id st,
      ev_episode_record_id = er_record_id (st_record st), ev_episode_index = er_index (st_record st),
      ev_env_index = er_env_index (st_record st),
      ev_started_from_auto_reset = er_started_from_auto_reset (st_record st),
      ev_seed = seed_for_episode (st_episode_id st) r,
      ev_trial_index = trial_for_episode (st_episode_id st) r\<rparr>"

definition invoke_started_episodes :: "env_context \<Rightarrow> started_episode list \<Rightarrow> drv \<Rightarrow> drv" where
  "invoke_started_episodes ctx episodes d =
     emit_all (map (\<lambda>st. EpisodeStarted (started_event_for ctx st (dr_route d)))
       (filter (\<lambda>st. \<not> is_surplus (st_episode_id st) (dr_route d)) episodes)) d"

definition step_cap :: "cfg \<Rightarrow> int option" where
  "step_cap c = (case ss_max_episode_steps (cf_spec c) of
      Some cap \<Rightarrow> Some cap
    | None \<Rightarrow> (if driver_owns_resets c
               then Some (ed_default_max_episode_steps (spec_defaults (cf_spec c))) else None))"

definition lane_capped :: "cfg \<Rightarrow> int \<Rightarrow> slot_state \<Rightarrow> bool" where
  "lane_capped c now slot =
     ((case step_cap c of None \<Rightarrow> False | Some cap \<Rightarrow> sl_step slot \<ge> cap) \<or>
      (case ss_max_episode_seconds (cf_spec c) of None \<Rightarrow> False
       | Some cap \<Rightarrow> f64_le cap (f64_div (f64_of_int (max (now - sl_started_at_ns slot) 0))
                                          (f64_of_nat 1000000000))))"

text \<open>
  The lanes of \<open>capped_completions\<close> from index \<open>lane\<close> of the group on; \<open>None\<close> is the index panic
  of \<open>lane_final_info\<close>.
\<close>

fun capped_lanes ::
  "cfg \<Rightarrow> int \<Rightarrow> nat list \<Rightarrow> meta_map option \<Rightarrow> nat \<Rightarrow> nat \<Rightarrow> slot_state list \<Rightarrow> episode_metadata list option" where
  "capped_lanes c now env_done infos width lane [] = Some []"
| "capped_lanes c now env_done infos width lane (slot # slots) =
     (case capped_lanes c now env_done infos width (lane + 1) slots of
        None \<Rightarrow> None
      | Some rest \<Rightarrow>
         (case (sl_episode slot, u32_of_i32 (sl_env_index slot)) of
            (Some e, Some env_index) \<Rightarrow>
              (if env_index \<in> set env_done \<or> \<not> lane_capped c now slot then Some rest
               else (case lane_final_info infos lane width of
                   None \<Rightarrow> None
                 | Some info \<Rightarrow> Some (\<lparr>em_episode_id = es_episode_id e, em_seed = None,
                       em_env_index = env_index, em_step_count = sl_step slot,
                       em_cumulative_reward = sl_cumulative_reward slot, em_terminated = False,
                       em_truncated = True, em_start_timestamp_ns = sl_started_at_ns slot,
                       em_end_timestamp_ns = now, em_final_info = info\<rparr> # rest)))
          | _ \<Rightarrow> Some rest))"

definition capped_completions ::
  "cfg \<Rightarrow> int \<Rightarrow> nat list \<Rightarrow> episode_metadata list \<Rightarrow> meta_map option \<Rightarrow> route
    \<Rightarrow> episode_metadata list option" where
  "capped_completions c now positions env_completed infos r =
     (if step_cap c = None \<and> ss_max_episode_seconds (cf_spec c) = None then Some []
      else capped_lanes c now (map em_env_index env_completed) infos (length positions) 0
             (slots_at positions r))"

definition duration_ms :: "episode_metadata \<Rightarrow> int" where
  "duration_ms m = max (em_end_timestamp_ns m - em_start_timestamp_ns m) 0 div 1000000"

definition complete_one ::
  "cfg \<Rightarrow> env_context \<Rightarrow> episode_metadata \<Rightarrow> route \<Rightarrow> completed_event option \<times> route" where
  "complete_one c ctx m r =
     (if is_surplus (em_episode_id m) r then (None, r)
      else
       (let (predict_ms, step_ms) = slot_timings_ms (em_env_index m) r;
            (rec, r1) = complete_episode (em_episode_id m) r;
            env_index = (case i32_of_u32 (em_env_index m) of Some k \<Rightarrow> k | None \<Rightarrow> 2147483647);
            seed = seed_for_episode (em_episode_id m) r1;
            trial = trial_for_episode (em_episode_id m) r1;
            index = (case rec of None \<Rightarrow> 0 | Some x \<Rightarrow> er_index x);
            success = success_from_final_info
               (ed_success_info_keys (spec_defaults (cf_spec c))) (em_final_info m);
            r2 = (if ss_max_episodes (cf_spec c) \<noteq> None then record_episode_summary
                \<lparr>su_episode_index = index, su_env_index = env_index, su_seed = seed,
                 su_trial_index = trial, su_step_count = em_step_count m,
                 su_cumulative_reward = em_cumulative_reward m, su_terminated = em_terminated m,
                 su_truncated = em_truncated m, su_duration_ms = duration_ms m,
                 su_success = success, su_predict_ms = predict_ms, su_step_ms = step_ms\<rparr> r1
               else r1)
        in (Some \<lparr>ce_session_id = ro_session_id r1, ce_route = ctx,
              ce_episode_id = em_episode_id m,
              ce_episode_record_id = (case rec of None \<Rightarrow> [] | Some x \<Rightarrow> er_record_id x),
              ce_episode_index = index, ce_env_index = env_index,
              ce_step_count = em_step_count m, ce_cumulative_reward = em_cumulative_reward m,
              ce_terminated = em_terminated m, ce_truncated = em_truncated m,
              ce_duration_ms = duration_ms m, ce_final_info = em_final_info m,
              ce_success = success, ce_seed = seed, ce_trial_index = trial,
              ce_predict_ms = predict_ms, ce_step_ms = step_ms\<rparr>, r2)))"

fun complete_episodes ::
  "cfg \<Rightarrow> env_context \<Rightarrow> episode_metadata list \<Rightarrow> route \<Rightarrow> completed_event list \<times> route" where
  "complete_episodes c ctx [] r = ([], r)"
| "complete_episodes c ctx (m # ms) r = (case complete_one c ctx m r of (e, r1) \<Rightarrow>
     (case complete_episodes c ctx ms r1 of (es, r2) \<Rightarrow>
        ((case e of Some x \<Rightarrow> x # es | None \<Rightarrow> es), r2)))"

definition fan_out_completions :: "completed_event list \<Rightarrow> drv \<Rightarrow> drv" where
  "fan_out_completions events d = emit_all (map EpisodeCompleted events) d"

text \<open>
  The subtraction of two peer-reported timestamps overflows \<open>i64\<close>: \<open>complete_episodes\<close> panics.
\<close>

definition duration_overflows :: "episode_metadata \<Rightarrow> bool" where
  "duration_overflows m =
     (let x = em_end_timestamp_ns m - em_start_timestamp_ns m in x < i64_min \<or> i64_max < x)"

section \<open>A finished env operation\<close>

text \<open>
  \<open>on_step\<close> in the order of the method: account the step and find the completed episodes
  (\<open>account_step\<close>), apply an autoreset roll (\<open>apply_roll\<close>), complete the episodes and drop what they
  make stale (\<open>finish_episodes\<close>, \<open>flush_stale\<close>), then stop the group, restart it or observe.
\<close>

definition live_completions :: "episode_metadata list \<Rightarrow> route \<Rightarrow> episode_metadata list" where
  "live_completions ms r = filter (\<lambda>m. episode_id_at (em_env_index m) r = Some (em_episode_id m)) ms"

definition lane_flags :: "(episode_metadata \<Rightarrow> bool) \<Rightarrow> episode_metadata list \<Rightarrow> string list \<Rightarrow> bool list" where
  "lane_flags ended completed ids =
     map (\<lambda>e. list_ex (\<lambda>m. em_episode_id m = e \<and> ended m) completed) ids"

definition step_event_for ::
  "env_context \<Rightarrow> group \<Rightarrow> step_response \<Rightarrow> nat \<Rightarrow> nat \<Rightarrow> episode_metadata list \<Rightarrow> route \<Rightarrow> step_event" where
  "step_event_for ctx g resp rpc predict completed r =
     (let snap = snapshot_at (g_positions g) r; ids = episode_ids_at (g_positions g) r in
      \<lparr>se_session_id = ro_session_id r, se_route = ctx, se_episode_id = sp_episode_id snap,
       se_episode_record_id = sp_episode_record_id snap, se_step = sp_step snap,
       se_env_index = sp_env_index snap, se_rewards = sr_rewards resp,
       se_infos = (if g_pending_roll g \<noteq> [] then None else sr_infos resp),
       se_terminated = lane_flags em_terminated completed ids,
       se_truncated = lane_flags em_truncated completed ids,
       se_autoreset_roll = map (\<lambda>lane. map_of (g_pending_roll g) lane \<noteq> None) (g_lanes g),
       se_predict_ms = f64_mul (as_secs_f64 predict) (f64_of_nat 1000),
       se_step_ms = f64_mul (as_secs_f64 rpc) (f64_of_nat 1000)\<rparr>)"

definition account_step ::
  "cfg \<Rightarrow> io \<Rightarrow> nat \<Rightarrow> group \<Rightarrow> step_response \<Rightarrow> nat \<Rightarrow> drv
    \<Rightarrow> (fault + episode_metadata list) \<times> drv" where
  "account_step c i gid g0 resp rpc d =
     (let ctx = group_context (g_positions g0) (g_lane_group g0) (dr_route d);
          predict = g_pending_predict g0;
          g1 = g0\<lparr>g_phase := Ready, g_steps := g_steps g0 + 1, g_pending_predict := 0\<rparr>;
          rt = record_step_at (g_positions g0) (sr_rewards resp) rpc predict (dr_route d);
          d1 = set_route rt (set_group gid g1
                 (on_agg (agg_record (sample_dur SRC_ROUND RPC_TOTAL (io_elapsed i))) d));
          live = live_completions (sr_completed_episodes resp) rt
      in case capped_completions c (io_now i 0) (g_positions g0) live (sr_infos resp) rt of
           None \<Rightarrow> (Inl (Panic LaneInfoIndex), d1)
         | Some capped \<Rightarrow>
             (Inr (live @ capped),
              emit (StepCompleted (step_event_for ctx g1 resp rpc predict (live @ capped) rt)) d1))"

text \<open>Each rolling lane claims a slot of its own, in lane order, while the budget has one.\<close>

fun claim_rolls :: "(nat \<times> string) list \<Rightarrow> nat list \<Rightarrow> route \<Rightarrow> nat option list \<times> route" where
  "claim_rolls roll [] r = ([], r)"
| "claim_rolls roll (lane # lanes) r =
     (case (if map_of roll lane \<noteq> None then claim_slots 1 True r else (None, r)) of (claim, r1) \<Rightarrow>
        (case claim_rolls roll lanes r1 of (rest, r2) \<Rightarrow>
           (Option.bind claim first_opt # rest, r2)))"

definition mark_unclaimed ::
  "(nat \<times> string) list \<Rightarrow> nat list \<Rightarrow> string list \<Rightarrow> nat option list \<Rightarrow> route \<Rightarrow> route" where
  "mark_unclaimed roll lanes ids slots r =
     fold (\<lambda>((lane, e), slot) r.
        if map_of roll lane \<noteq> None \<and> slot = None then mark_surplus e r else r)
       (zip (zip lanes ids) slots) r"

definition apply_roll :: "io \<Rightarrow> nat \<Rightarrow> env_context \<Rightarrow> group \<Rightarrow> drv \<Rightarrow> drv" where
  "apply_roll i gid ctx g d =
     (if g_pending_roll g = [] then d
      else
       (let roll = g_pending_roll g;
            g1 = g\<lparr>g_pending_completed := [], g_pending_roll := []\<rparr>;
            d1 = set_group gid g1 (fan_out_completions (g_pending_completed g) d);
            d2 = queue_evictions gid g1 (map fst roll) d1;
            roll_ids = episode_ids_with_roll (episode_ids_at (g_positions g) (dr_route d2))
                         (g_lanes g) roll;
            (rolling, rt3) = claim_rolls roll (g_lanes g) (dr_route d2);
            rt4 = mark_unclaimed roll (g_lanes g) roll_ids rolling rt3;
            (started, rt5) = observe_episode_ids_at (io_now i) (g_positions g) roll_ids rolling rt4
        in invoke_started_episodes ctx started (set_route rt5 d2)))"

definition finish_episodes ::
  "cfg \<Rightarrow> nat \<Rightarrow> env_context \<Rightarrow> episode_metadata list \<Rightarrow> group \<Rightarrow> drv \<Rightarrow> drv" where
  "finish_episodes c gid ctx completed g d =
     (case complete_episodes c ctx completed (dr_route d) of (events, rt) \<Rightarrow>
        (let d1 = set_route rt d in
         if driver_owns_resets c
         then queue_evictions gid g (map em_env_index completed) (fan_out_completions events d1)
         else set_group gid (g\<lparr>g_pending_completed := g_pending_completed g @ events\<rparr>) d1))"

text \<open>\<open>pending_roll.entry(env_index).or_insert_with(mint_episode_id)\<close> for each completion.\<close>

fun stage_rolls ::
  "cfg \<Rightarrow> episode_metadata list \<Rightarrow> (nat \<times> string) list \<Rightarrow> drv \<Rightarrow> (nat \<times> string) list \<times> drv" where
  "stage_rolls c [] roll d = (roll, d)"
| "stage_rolls c (m # ms) roll d =
     (if map_of roll (em_env_index m) \<noteq> None then stage_rolls c ms roll d
      else (case mint_ids c 1 d of (ids, d1) \<Rightarrow>
              stage_rolls c ms (roll @ map (\<lambda>e. (em_env_index m, e)) ids) d1))"

definition flush_stale ::
  "cfg \<Rightarrow> nat \<Rightarrow> episode_metadata list \<Rightarrow> group \<Rightarrow> drv \<Rightarrow> drv" where
  "flush_stale c gid completed g d =
     (if completed = [] then d
      else
       (let d1 = (if g_replay g \<noteq> [] \<and> g_width g > 1 then d\<lparr>dr_vector_replay_warned := True\<rparr> else d);
            g1 = g\<lparr>g_replay := [], g_predict :=
                     (if is_in_flight g then PInFlight True else PNone)\<rparr>
        in if driver_owns_resets c then set_group gid g1 d1
           else (case stage_rolls c completed (g_pending_roll g1) d1 of (roll, d2) \<Rightarrow>
                   set_group gid (g1\<lparr>g_pending_roll := roll\<rparr>) d2)))"

definition budget_spent :: "cfg \<Rightarrow> route \<Rightarrow> bool" where
  "budget_spent c r = (case ss_max_episodes (cf_spec c) of
      None \<Rightarrow> False | Some limit \<Rightarrow> ro_total_episodes r \<ge> as_i64 limit)"

definition group_stops :: "cfg \<Rightarrow> group \<Rightarrow> route \<Rightarrow> bool" where
  "group_stops c g r =
     (((\<not> g_lane_group g \<or> \<not> driver_owns_resets c) \<and> budget_spent c r)
      \<or> all_surplus_at (g_positions g) r)"

definition stop_group :: "nat \<Rightarrow> group \<Rightarrow> drv \<Rightarrow> drv" where
  "stop_group gid g d =
     (let g1 = g\<lparr>g_pending_completed := [], g_pending_roll := []\<rparr>;
          d1 = set_group gid g1 (fan_out_completions (g_pending_completed g) d);
          d2 = queue_evictions gid g1 (map fst (g_pending_roll g)) d1
      in set_group gid (g1\<lparr>g_phase := Idle, g_predict := PNone\<rparr>) d2)"

definition on_step :: "cfg \<Rightarrow> io \<Rightarrow> nat \<Rightarrow> step_response \<Rightarrow> nat \<Rightarrow> drv \<Rightarrow> step_result" where
  "on_step c i gid resp rpc d = (case nth_opt (dr_groups d) gid of
      None \<Rightarrow> (d, Some (Panic IndexOutOfBounds))
    | Some g0 \<Rightarrow>
       (let ctx = group_context (g_positions g0) (g_lane_group g0) (dr_route d);
            rolled = (g_pending_roll g0 \<noteq> [])
        in case account_step c i gid g0 resp rpc d of
             (Inl f, d1) \<Rightarrow> (d1, Some f)
           | (Inr completed, d1) \<Rightarrow>
              (let d2 = apply_roll i gid ctx (dr_groups d1 ! gid) d1 in
               if list_ex (\<lambda>m. \<not> is_surplus (em_episode_id m) (dr_route d2) \<and> duration_overflows m) completed
               then (d2, Some (Panic DurationOverflow))
               else
                (let d3 = finish_episodes c gid ctx completed (dr_groups d2 ! gid) d2;
                     d4 = flush_stale c gid completed (dr_groups d3 ! gid) d3
                 in if group_stops c (dr_groups d4 ! gid) (dr_route d4)
                    then (stop_group gid (dr_groups d4 ! gid) d4, None)
                    else if driver_owns_resets c \<and> completed \<noteq> [] then begin_reset c gid False d4
                    else observe c i gid (sr_observation resp)
                           (if rolled then sr_infos resp else None) StepObservation False d4))))"

definition on_reset :: "cfg \<Rightarrow> io \<Rightarrow> nat \<Rightarrow> bool \<Rightarrow> reset_response \<Rightarrow> nat \<Rightarrow> drv \<Rightarrow> step_result" where
  "on_reset c i gid initial resp rpc d = (case nth_opt (dr_groups d) gid of
      None \<Rightarrow> (d, Some (Panic IndexOutOfBounds))
    | Some g \<Rightarrow>
       (case g_pending_start g of
          None \<Rightarrow> (d, Some (Panic StartNotStaged))
        | Some (ids, slots) \<Rightarrow>
           (let ctx = group_context (g_positions g) (g_lane_group g) (dr_route d);
                d1 = set_group gid (g\<lparr>g_pending_start := None\<rparr>) d;
                d2 = (if initial then emit (ResetLogged (ro_session_id (dr_route d)) ctx rpc (length ids)) d1
                      else d1);
                (started, rt) = start_episodes_at (io_now i) (g_positions g) ids (\<not> initial) slots (dr_route d2);
                d3 = invoke_started_episodes ctx started (set_route rt d2)
            in observe c i gid (rr_observation resp) (rr_infos resp) ResetObservation True d3)))"

datatype env_result =
    ResetDone "runtime_error + env_reset_reply"
  | StepDone "runtime_error + env_step_reply"

definition on_env_outcome :: "cfg \<Rightarrow> io \<Rightarrow> env_op \<Rightarrow> nat \<Rightarrow> env_result \<Rightarrow> drv \<Rightarrow> step_result" where
  "on_env_outcome c i op rpc result d = (case nth_opt (dr_groups d) (eo_gid op) of
      None \<Rightarrow> (d, Some (Panic IndexOutOfBounds))
    | Some g \<Rightarrow>
       (let d1 = set_group (eo_gid op) (g\<lparr>g_env := True\<rparr>) d in
        case (eo_kind op, result) of
          (ResetOp initial _, ResetDone (Inr reply)) \<Rightarrow>
            on_reset c i (eo_gid op) initial (er_response reply) rpc
              (on_agg (record_op SRC_RESET rpc \<lparr>pr_endpoint_total_ns = er_endpoint_total_ns reply,
                   pr_phases = er_phases reply, pr_group_size = None\<rparr>
                 (eo_request_bytes op) (cf_len_reset_response c (er_response reply))) d1)
        | (StepOp _, StepDone (Inr reply)) \<Rightarrow>
            on_step c i (eo_gid op) (es_response reply) rpc
              (on_agg (record_op SRC_STEP rpc \<lparr>pr_endpoint_total_ns = es_endpoint_total_ns reply,
                   pr_phases = es_phases reply, pr_group_size = None\<rparr>
                 (eo_request_bytes op) (cf_len_step_response c (es_response reply))) d1)
        | (_, ResetDone (Inl e)) \<Rightarrow> (d1, Some (Err e))
        | (_, StepDone (Inl e)) \<Rightarrow> (d1, Some (Err e))
        | _ \<Rightarrow> (d1, None)))"

section \<open>The loop\<close>

definition drv_new :: "cfg \<Rightarrow> (nat \<Rightarrow> int) \<Rightarrow> drv" where
  "drv_new c now = \<lparr>dr_route = route_new now (cf_spec c), dr_groups = [], dr_env_ops = [],
     dr_predicts = [], dr_pending_evictions = [], dr_held_evictions = [], dr_advisories = [],
     dr_trial_options_warned = False, dr_vector_replay_warned = False, dr_agg = [],
     dr_minted = 0, dr_trace = []\<rparr>"

text \<open>\<open>run_loop\<close> before its loop.\<close>

definition start_loop :: "cfg \<Rightarrow> drv \<Rightarrow> step_result" where
  "start_loop c d0 =
     (let d = emit (SessionStarted (ro_session_id (dr_route d0)) (route_env_context (dr_route d0))
                (ss_env_id (cf_spec c))) d0
      in and_then (relay_contract c d) (\<lambda>d.
           let d = d\<lparr>dr_groups := driver_groups c\<rparr>
           in for_each (\<lambda>gid. begin_reset c gid True) [0..<length (dr_groups d)] d))"

definition cancelled_error :: "cfg \<Rightarrow> drv \<Rightarrow> runtime_error" where
  "cancelled_error c d = RouteCancelled (ro_env_id (dr_route d))
     (let steps = map (\<lambda>g. sp_step (snapshot_at (g_positions g) (dr_route d))) (dr_groups d)
      in if steps = [] then 0 else Max (set steps)) (cf_cancellation_reason c)"

datatype loop_exit = Completed | Failed fault

text \<open>One turn of the loop up to its \<open>select!\<close>: the state, and the exit if the loop returned.\<close>

definition loop_head :: "cfg \<Rightarrow> io \<Rightarrow> bool \<Rightarrow> drv \<Rightarrow> drv \<times> loop_exit option" where
  "loop_head c i cancelled d =
     (if cancelled then (d, Some (Failed (Err (cancelled_error c d))))
      else if list_all (\<lambda>g. g_phase g = Idle) (dr_groups d) \<and> dr_env_ops d = [] \<and> dr_predicts d = []
        then (d, Some Completed)
      else
       (let d1 = (if dr_predicts d = [] then flush_evictions (io_evict i) d else d) in
        case dispatch_steps c i d1 of
          (d2, Some f) \<Rightarrow> (d2, Some (Failed f))
        | (d2, None) \<Rightarrow>
           (case dispatch_predict c i (dr_env_ops d2 = [] \<and> dr_predicts d2 = []) d2 of
              (d3, Some f) \<Rightarrow> (d3, Some (Failed f))
            | (d3, None) \<Rightarrow>
                (if dr_env_ops d3 = [] \<and> dr_predicts d3 = []
                 then (d3, Some (Failed (Err (Protocol Stalled))))
                 else (d3, None)))))"

definition result_fits :: "env_op \<Rightarrow> env_result \<Rightarrow> bool" where
  "result_fits op result = (case (eo_kind op, result) of
      (ResetOp _ _, ResetDone _) \<Rightarrow> True | (StepOp _, StepDone _) \<Rightarrow> True | _ \<Rightarrow> False)"

text \<open>
  What the \<open>select!\<close> picks: an env operation in flight that finished, a predict in flight that
  finished, an env task that died, or the cancellation.
\<close>

datatype wake =
    EnvWake nat nat env_result
  | PredictWake nat nat "runtime_error + (runtime_error + prediction) list"
  | TaskDied nat string
  | CancelWake

definition remove_nth :: "nat \<Rightarrow> 'a list \<Rightarrow> 'a list" where
  "remove_nth k xs = take k xs @ drop (Suc k) xs"

definition wake_step :: "cfg \<Rightarrow> io \<Rightarrow> wake \<Rightarrow> drv \<Rightarrow> step_result" where
  "wake_step c i w d = (case w of
      EnvWake k rpc result \<Rightarrow>
        on_env_outcome c i (dr_env_ops d ! k) rpc result (d\<lparr>dr_env_ops := remove_nth k (dr_env_ops d)\<rparr>)
    | PredictWake k rpc result \<Rightarrow>
        on_predict_outcome c (po_requests (dr_predicts d ! k)) rpc result
          (d\<lparr>dr_predicts := remove_nth k (dr_predicts d)\<rparr>)
    | TaskDied k msg \<Rightarrow>
        (d\<lparr>dr_env_ops := remove_nth k (dr_env_ops d)\<rparr>, Some (Err (Protocol (EnvTaskFailed msg))))
    | CancelWake \<Rightarrow> (d, Some (Err (cancelled_error c d))))"

definition wake_ok :: "wake \<Rightarrow> drv \<Rightarrow> bool" where
  "wake_ok w d = (case w of
      EnvWake k rpc result \<Rightarrow> k < length (dr_env_ops d) \<and> result_fits (dr_env_ops d ! k) result
    | PredictWake k rpc result \<Rightarrow> k < length (dr_predicts d)
    | TaskDied k msg \<Rightarrow> k < length (dr_env_ops d)
    | CancelWake \<Rightarrow> True)"

section \<open>The epilogue\<close>

definition shutdown_terminal_route :: "cfg \<Rightarrow> release_adapter_request \<Rightarrow> drv \<Rightarrow> drv" where
  "shutdown_terminal_route c request d =
     emit_all ((if ss_close_env_on_end (cf_spec c) then [CallEnvClose] else []) @ [CallRelease request]) d"

definition completed_reason :: string where
  "completed_reason = ''completed requested episodes''"

text \<open>
  \<open>run_with_cancellation_reason\<close> after the loop: \<open>abandoned\<close> says that the predicts in flight missed
  the close deadline; \<open>reason_of\<close> renders an error. The result is the report, the error, or (\<open>None\<close>)
  a panic of the final snapshot.
\<close>

definition epilogue ::
  "cfg \<Rightarrow> (runtime_error \<Rightarrow> string) \<Rightarrow> bool \<Rightarrow> evict_outcome \<Rightarrow> runtime_error option \<Rightarrow> drv
    \<Rightarrow> (runtime_error + runtime_report) option \<times> drv" where
  "epilogue c reason_of abandoned evict failure d0 =
     (let d1 = d0\<lparr>dr_env_ops := [], dr_predicts := []\<rparr>;
          d2 = (if abandoned then d1\<lparr>dr_pending_evictions := [], dr_held_evictions := []\<rparr>
                else (case end_live_episodes (dr_route d1) of (ids, rt) \<Rightarrow>
                  flush_evictions evict (d1\<lparr>dr_route := rt, dr_held_evictions := [],
                     dr_pending_evictions := dr_pending_evictions d1
                        @ map snd (dr_held_evictions d1) @ ids\<rparr>)))
      in case agg_snapshot Session (dr_agg d2) of
           None \<Rightarrow> (None, d2)
         | Some snap \<Rightarrow>
            (let rt = dr_route d2;
                 d3 = emit (TelemetryPushed (ro_session_id rt) (route_env_context rt) snap) d2
             in case failure of
                  None \<Rightarrow>
                    (case release_adapter_request completed_reason rt of (request, rt4) \<Rightarrow>
                       (let d4 = shutdown_terminal_route c request (set_route rt4 d3);
                            d5 = emit (SessionEnded (ro_session_id rt4) (route_env_context rt4)
                                   completed_reason (ro_total_steps rt4) (ro_total_episodes rt4)) d4
                        in (Some (Inr \<lparr>rp_session_id = ro_session_id rt4,
                              rp_env_id = ss_env_id (cf_spec c), rp_total_steps = ro_total_steps rt4,
                              rp_total_episodes = ro_total_episodes rt4,
                              rp_episodes = fst (take_episode_summaries rt4), rp_telemetry = snap,
                              rp_advisories = dr_advisories d5\<rparr>),
                            (set_route (snd (take_episode_summaries rt4)) d5)\<lparr>dr_advisories := []\<rparr>)))
                | Some e \<Rightarrow>
                    (case release_adapter_request (reason_of e) rt of (request, rt4) \<Rightarrow>
                       (Some (Inl e),
                        emit (SessionFailed (ro_session_id rt4) (route_env_context rt4) e)
                          (shutdown_terminal_route c request (set_route rt4 d3))))))"

end
