(* ===== verification/DriverInv.thy ===== *)
theory DriverInv
  imports Driver
begin

text \<open>
  The structure of a running route: which group has which operation in flight, and why the loop
  always has something to wait for. Reachable states are those the loop is in at the top of a turn;
  the invariant \<open>drv_ok\<close> holds of each, and gives that the loop never stalls and never panics.
\<close>

section \<open>Frame facts\<close>

named_theorems frame

lemma emit_frame [simp, frame]:
  "dr_groups (emit t d) = dr_groups d" "dr_env_ops (emit t d) = dr_env_ops d"
  "dr_predicts (emit t d) = dr_predicts d" "dr_route (emit t d) = dr_route d"
  "dr_pending_evictions (emit t d) = dr_pending_evictions d"
  "dr_held_evictions (emit t d) = dr_held_evictions d" "dr_agg (emit t d) = dr_agg d"
  "dr_minted (emit t d) = dr_minted d" "dr_trace (emit t d) = dr_trace d @ [t]"
  by (simp_all add: emit_def)

lemma emit_all_frame [simp, frame]:
  "dr_groups (emit_all t d) = dr_groups d" "dr_env_ops (emit_all t d) = dr_env_ops d"
  "dr_predicts (emit_all t d) = dr_predicts d" "dr_route (emit_all t d) = dr_route d"
  "dr_pending_evictions (emit_all t d) = dr_pending_evictions d"
  "dr_held_evictions (emit_all t d) = dr_held_evictions d" "dr_agg (emit_all t d) = dr_agg d"
  "dr_minted (emit_all t d) = dr_minted d" "dr_trace (emit_all t d) = dr_trace d @ t"
  by (simp_all add: emit_all_def)

lemma set_group_frame [simp, frame]:
  "dr_groups (set_group gid g d) = (dr_groups d)[gid := g]"
  "dr_env_ops (set_group gid g d) = dr_env_ops d" "dr_predicts (set_group gid g d) = dr_predicts d"
  "dr_route (set_group gid g d) = dr_route d"
  "dr_pending_evictions (set_group gid g d) = dr_pending_evictions d"
  "dr_held_evictions (set_group gid g d) = dr_held_evictions d" "dr_agg (set_group gid g d) = dr_agg d"
  "dr_minted (set_group gid g d) = dr_minted d" "dr_trace (set_group gid g d) = dr_trace d"
  by (simp_all add: set_group_def)

lemma on_agg_frame [simp, frame]:
  "dr_groups (on_agg f d) = dr_groups d" "dr_env_ops (on_agg f d) = dr_env_ops d"
  "dr_predicts (on_agg f d) = dr_predicts d" "dr_route (on_agg f d) = dr_route d"
  "dr_pending_evictions (on_agg f d) = dr_pending_evictions d"
  "dr_held_evictions (on_agg f d) = dr_held_evictions d"
  "dr_minted (on_agg f d) = dr_minted d" "dr_trace (on_agg f d) = dr_trace d"
  by (simp_all add: on_agg_def)

lemma set_route_frame [simp, frame]:
  "dr_groups (set_route r d) = dr_groups d" "dr_env_ops (set_route r d) = dr_env_ops d"
  "dr_predicts (set_route r d) = dr_predicts d" "dr_route (set_route r d) = r"
  "dr_pending_evictions (set_route r d) = dr_pending_evictions d"
  "dr_held_evictions (set_route r d) = dr_held_evictions d" "dr_agg (set_route r d) = dr_agg d"
  "dr_minted (set_route r d) = dr_minted d" "dr_trace (set_route r d) = dr_trace d"
  by (simp_all add: set_route_def)

lemma queue_evictions_frame [simp, frame]:
  "dr_groups (queue_evictions gid g es d) = dr_groups d"
  "dr_env_ops (queue_evictions gid g es d) = dr_env_ops d"
  "dr_predicts (queue_evictions gid g es d) = dr_predicts d"
  "dr_minted (queue_evictions gid g es d) = dr_minted d"
  "dr_trace (queue_evictions gid g es d) = dr_trace d"
  by (auto simp: queue_evictions_def split: prod.splits)

lemma flush_evictions_frame [simp, frame]:
  "dr_groups (flush_evictions out d) = dr_groups d" "dr_env_ops (flush_evictions out d) = dr_env_ops d"
  "dr_predicts (flush_evictions out d) = dr_predicts d"
  "dr_held_evictions (flush_evictions out d) = dr_held_evictions d"
  "dr_minted (flush_evictions out d) = dr_minted d"
  by (auto simp: flush_evictions_def Let_def split: prod.splits evict_outcome.splits)

lemma raise_advisory_frame [simp, frame]:
  "dr_groups (raise_advisory s x l a d) = dr_groups d"
  "dr_env_ops (raise_advisory s x l a d) = dr_env_ops d"
  "dr_predicts (raise_advisory s x l a d) = dr_predicts d"
  "dr_route (raise_advisory s x l a d) = dr_route d"
  "dr_pending_evictions (raise_advisory s x l a d) = dr_pending_evictions d"
  "dr_held_evictions (raise_advisory s x l a d) = dr_held_evictions d"
  "dr_minted (raise_advisory s x l a d) = dr_minted d"
  by (simp_all add: raise_advisory_def)

text \<open>The part of the state the relay seam leaves alone.\<close>

definition same_core :: "drv \<Rightarrow> drv \<Rightarrow> bool" where
  "same_core d d' \<longleftrightarrow> dr_groups d' = dr_groups d \<and> dr_env_ops d' = dr_env_ops d \<and>
     dr_predicts d' = dr_predicts d \<and> dr_route d' = dr_route d \<and>
     dr_pending_evictions d' = dr_pending_evictions d \<and> dr_held_evictions d' = dr_held_evictions d \<and>
     dr_minted d' = dr_minted d"

lemma relay_frame: "relay c l s x sp p d = (r, d') \<Longrightarrow> same_core d d'"
  by (auto simp: relay_def same_core_def split: option.splits relay_decision.splits)

lemma transform_action_frame: "invoke_transform_action c i ev d = (r, d') \<Longrightarrow> same_core d d'"
  unfolding invoke_transform_action_def Let_def
  by (auto simp: same_core_def split: sum.splits dest: relay_frame [unfolded same_core_def])

lemma transform_observation_frame: "invoke_transform_observation c i ev d = (r, d') \<Longrightarrow> same_core d d'"
  unfolding invoke_transform_observation_def Let_def
  by (auto simp: same_core_def split: sum.splits dest: relay_frame [unfolded same_core_def])

lemma mint_ids_frame:
  "mint_ids c n d = (ids, d') \<Longrightarrow> d' = d\<lparr>dr_minted := dr_minted d + n\<rparr> \<and>
     ids = map (cf_uuid c) [dr_minted d..<dr_minted d + n]"
  by (auto simp: mint_ids_def)

lemma trial_options_frame:
  "trial_options c ts d = (o', d') \<Longrightarrow> same_core d d' \<and> dr_trace d' = dr_trace d"
  by (auto simp: trial_options_def same_core_def Let_def)

section \<open>The invariant\<close>

definition is_reset_op :: "env_op \<Rightarrow> bool" where
  "is_reset_op op = (case eo_kind op of ResetOp _ _ \<Rightarrow> True | StepOp _ \<Rightarrow> False)"

definition env_kind :: "env_op list \<Rightarrow> nat \<Rightarrow> bool option" where
  "env_kind ops gid = map_of (map (\<lambda>op. (eo_gid op, is_reset_op op)) ops) gid"

definition flying :: "predict_op list \<Rightarrow> nat list" where
  "flying ps = concat (map (\<lambda>p. map fst (po_requests p)) ps)"

definition phase_op :: "env_phase \<Rightarrow> bool option" where
  "phase_op ph = (case ph of Stepping \<Rightarrow> Some False | Resetting \<Rightarrow> Some True | _ \<Rightarrow> None)"

text \<open>
  \<open>group_ok c g op fly\<close>: the group \<open>g\<close> with the env operation \<open>op\<close> in flight (\<open>Some True\<close> a reset,
  \<open>Some False\<close> a step) and a predict in flight iff \<open>fly\<close>.
\<close>

definition group_ok :: "cfg \<Rightarrow> group \<Rightarrow> bool option \<Rightarrow> bool \<Rightarrow> bool" where
  "group_ok c g op fly \<longleftrightarrow>
     op = phase_op (g_phase g) \<and> (g_env g \<longleftrightarrow> op = None) \<and>
     (g_pending_start g \<noteq> None \<longleftrightarrow> g_phase g = Resetting) \<and>
     (is_in_flight g \<longrightarrow> fly) \<and> (fly \<longrightarrow> is_in_flight g \<or> g_phase g = Idle) \<and>
     (g_phase g = Idle \<longrightarrow> g_predict g = PNone) \<and>
     (g_phase g = Ready \<longrightarrow> g_replay g \<noteq> [] \<or> g_predict g \<noteq> PNone) \<and>
     g_predict g \<noteq> PReady [] \<and>
     (g_predict g = PInFlight True \<longrightarrow> g_replay g = [] \<and>
        (g_phase g = Ready \<longrightarrow> (\<exists>m. g_obs_msg g = Some m \<and>
           (cf_deliver_history c \<longrightarrow> last_step (g_history g) = pq_step m))))"

definition drv_ok :: "cfg \<Rightarrow> drv \<Rightarrow> bool" where
  "drv_ok c d \<longleftrightarrow>
     distinct (map eo_gid (dr_env_ops d)) \<and> distinct (flying (dr_predicts d)) \<and>
     (\<forall>gid \<in> set (map eo_gid (dr_env_ops d)) \<union> set (flying (dr_predicts d)). gid < length (dr_groups d)) \<and>
     (\<forall>gid < length (dr_groups d).
        group_ok c (dr_groups d ! gid) (env_kind (dr_env_ops d) gid) (gid \<in> set (flying (dr_predicts d))))"

lemma drv_okI:
  assumes "distinct (map eo_gid (dr_env_ops d))" "distinct (flying (dr_predicts d))"
    and "\<And>gid. gid \<in> set (map eo_gid (dr_env_ops d)) \<Longrightarrow> gid < length (dr_groups d)"
    and "\<And>gid. gid \<in> set (flying (dr_predicts d)) \<Longrightarrow> gid < length (dr_groups d)"
    and "\<And>gid. gid < length (dr_groups d) \<Longrightarrow> group_ok c (dr_groups d ! gid)
           (env_kind (dr_env_ops d) gid) (gid \<in> set (flying (dr_predicts d)))"
  shows "drv_ok c d"
  using assms unfolding drv_ok_def by blast

lemma drv_okD:
  assumes "drv_ok c d"
  shows "distinct (map eo_gid (dr_env_ops d))" "distinct (flying (dr_predicts d))"
    and "gid \<in> set (map eo_gid (dr_env_ops d)) \<Longrightarrow> gid < length (dr_groups d)"
    and "gid \<in> set (flying (dr_predicts d)) \<Longrightarrow> gid < length (dr_groups d)"
    and "gid < length (dr_groups d) \<Longrightarrow> group_ok c (dr_groups d ! gid)
           (env_kind (dr_env_ops d) gid) (gid \<in> set (flying (dr_predicts d)))"
  using assms unfolding drv_ok_def by blast+

lemma env_kind_None_iff: "env_kind ops gid = None \<longleftrightarrow> gid \<notin> eo_gid ` set ops"
  by (force simp: env_kind_def map_of_eq_None_iff image_image)

lemma env_kind_append:
  "env_kind (ops @ [op]) gid = (case env_kind ops gid of
      None \<Rightarrow> (if gid = eo_gid op then Some (is_reset_op op) else None) | Some b \<Rightarrow> Some b)"
  by (simp add: env_kind_def map_add_def split: option.splits)

lemma flying_append: "flying (ps @ qs) = flying ps @ flying qs"
  by (simp add: flying_def)

text \<open>Only groups, operations and predicts matter to the invariant.\<close>

lemma drv_ok_cong:
  "dr_groups d' = dr_groups d \<Longrightarrow> dr_env_ops d' = dr_env_ops d \<Longrightarrow> dr_predicts d' = dr_predicts d \<Longrightarrow>
   drv_ok c d' \<longleftrightarrow> drv_ok c d"
  by (simp add: drv_ok_def)

lemma drv_ok_same_core: "same_core d d' \<Longrightarrow> drv_ok c d' \<longleftrightarrow> drv_ok c d"
  by (rule drv_ok_cong) (simp_all add: same_core_def)

text \<open>The invariant with one group exempted, while a handler works on that group.\<close>

definition drv_ok_but :: "cfg \<Rightarrow> nat \<Rightarrow> drv \<Rightarrow> bool" where
  "drv_ok_but c gid d \<longleftrightarrow>
     distinct (map eo_gid (dr_env_ops d)) \<and> distinct (flying (dr_predicts d)) \<and>
     (\<forall>k \<in> set (map eo_gid (dr_env_ops d)) \<union> set (flying (dr_predicts d)). k < length (dr_groups d)) \<and>
     (\<forall>k < length (dr_groups d). k \<noteq> gid \<longrightarrow>
        group_ok c (dr_groups d ! k) (env_kind (dr_env_ops d) k) (k \<in> set (flying (dr_predicts d))))"

lemma drv_ok_imp_but: "drv_ok c d \<Longrightarrow> drv_ok_but c gid d"
  by (simp add: drv_ok_def drv_ok_but_def)

lemma drv_ok_but_cong:
  assumes "dr_groups d' = (dr_groups d)[gid := g]" "dr_env_ops d' = dr_env_ops d"
    "dr_predicts d' = dr_predicts d"
  shows "drv_ok_but c gid d' \<longleftrightarrow> drv_ok_but c gid d"
  using assms by (simp add: drv_ok_but_def)

lemma drv_ok_finish:
  assumes "drv_ok_but c gid d"
    and "dr_groups d' = (dr_groups d)[gid := g]" "dr_env_ops d' = dr_env_ops d"
    "dr_predicts d' = dr_predicts d"
    and "group_ok c g (env_kind (dr_env_ops d) gid) (gid \<in> set (flying (dr_predicts d)))"
  shows "drv_ok c d'"
proof (rule drv_okI)
  show "k < length (dr_groups d') \<Longrightarrow> group_ok c (dr_groups d' ! k) (env_kind (dr_env_ops d') k)
      (k \<in> set (flying (dr_predicts d')))" for k
    using assms by (cases "k = gid") (auto simp: drv_ok_but_def)
qed (use assms in \<open>auto simp: drv_ok_but_def\<close>)

text \<open>A group that just put an env operation in flight.\<close>

lemma drv_ok_finish_op:
  assumes but: "drv_ok_but c gid d" and "gid < length (dr_groups d)"
    and none: "env_kind (dr_env_ops d) gid = None"
    and "eo_gid op = gid" "group_ok c g (Some (is_reset_op op)) (gid \<in> set (flying (dr_predicts d)))"
    and "dr_groups d' = (dr_groups d)[gid := g]" "dr_env_ops d' = dr_env_ops d @ [op]"
    and "dr_predicts d' = dr_predicts d"
  shows "drv_ok c d'"
proof (rule drv_okI)
  have new: "gid \<notin> eo_gid ` set (dr_env_ops d)" using none by (simp add: env_kind_None_iff)
  show "distinct (map eo_gid (dr_env_ops d'))" using but new assms(4,7) by (simp add: drv_ok_but_def)
  show "k \<in> set (map eo_gid (dr_env_ops d')) \<Longrightarrow> k < length (dr_groups d')" for k
    using but assms(2,4,6,7) by (auto simp: drv_ok_but_def)
  show "k < length (dr_groups d') \<Longrightarrow> group_ok c (dr_groups d' ! k) (env_kind (dr_env_ops d') k)
      (k \<in> set (flying (dr_predicts d')))" for k
    using but assms new
    by (cases "k = gid") (auto simp: drv_ok_but_def env_kind_append split: option.splits)
qed (use but assms in \<open>auto simp: drv_ok_but_def\<close>)

text \<open>
  \<open>between\<close>: a group whose env operation has been handed back and whose next one is not yet out,
  as every handler finds it and passes it on.
\<close>

definition between :: "group \<Rightarrow> bool \<Rightarrow> bool" where
  "between g fly \<longleftrightarrow> g_env g \<and> g_pending_start g = None \<and> (is_in_flight g \<longleftrightarrow> fly) \<and>
     g_predict g \<noteq> PReady [] \<and> (g_predict g = PInFlight True \<longrightarrow> g_replay g = [])"

definition between_at :: "cfg \<Rightarrow> nat \<Rightarrow> drv \<Rightarrow> bool" where
  "between_at c gid d \<longleftrightarrow> drv_ok_but c gid d \<and> gid < length (dr_groups d) \<and>
     env_kind (dr_env_ops d) gid = None \<and>
     between (dr_groups d ! gid) (gid \<in> set (flying (dr_predicts d)))"

lemma between_at_update:
  assumes "between_at c gid d" "dr_groups d' = (dr_groups d)[gid := g]"
    "dr_env_ops d' = dr_env_ops d" "dr_predicts d' = dr_predicts d"
    and "between g (gid \<in> set (flying (dr_predicts d)))"
  shows "between_at c gid d'"
  using assms drv_ok_but_cong [OF assms(2-4)] by (simp add: between_at_def)

lemma between_at_cong:
  assumes "dr_groups d' = dr_groups d" "dr_env_ops d' = dr_env_ops d" "dr_predicts d' = dr_predicts d"
  shows "between_at c gid d' \<longleftrightarrow> between_at c gid d"
  using assms by (simp add: between_at_def drv_ok_but_def)

section \<open>Restarting and observing\<close>

lemma stage_reset_group:
  "stage_reset c initial slots ids g0 r = Some (seeds, trials, g, rt) \<Longrightarrow>
   g_env g = g_env g0 \<and> g_predict g = g_predict g0 \<and> g_replay g = [] \<and> g_pending_start g = Some (ids, slots) \<and>
   g_history g = [] \<and> g_pending_roll g = [] \<and> g_lanes g = g_lanes g0 \<and> g_positions g = g_positions g0 \<and>
   g_lane_group g = g_lane_group g0 \<and> g_whole g = g_whole g0 \<and> g_obs_msg g = g_obs_msg g0 \<and>
   g_pending_completed g = g_pending_completed g0 \<and> g_steps g = g_steps g0"
  by (auto simp: stage_reset_def Let_def split: option.splits prod.splits if_splits)

text \<open>What a restart does to the driver: the group goes idle, or its reset is in flight.\<close>

lemma begin_reset_cases:
  assumes "begin_reset c gid initial d = (d', None)" "gid < length (dr_groups d)"
  obtains (idle) rt where "claim_for (dr_groups d ! gid) (dr_route d) = ([], rt)"
      "d' = set_group gid ((dr_groups d ! gid)\<lparr>g_phase := Idle, g_predict := PNone\<rparr>) (set_route rt d)"
  | (reset) slots rt1 ids seeds trials g rt op where
      "claim_for (dr_groups d ! gid) (dr_route d) = (slots, rt1)" "slots \<noteq> []"
      "ids = map (cf_uuid c) [dr_minted d..<dr_minted d + g_width (dr_groups d ! gid)]"
      "stage_reset c initial slots ids (dr_groups d ! gid) rt1 = Some (seeds, trials, g, rt)"
      "g_env (dr_groups d ! gid)" "eo_gid op = gid" "is_reset_op op"
      "dr_groups d' = (dr_groups d)[gid := g\<lparr>g_env := False, g_phase := Resetting\<rparr>]"
      "dr_env_ops d' = dr_env_ops d @ [op]" "dr_predicts d' = dr_predicts d" "dr_route d' = rt"
      "dr_minted d' = dr_minted d + g_width (dr_groups d ! gid)"
      "dr_pending_evictions d' = dr_pending_evictions d" "dr_held_evictions d' = dr_held_evictions d"
      "\<exists>request. dr_trace d' = dr_trace d @ [CallReset gid request] \<and> rq_episode_ids request = ids"
proof (cases "claim_for (dr_groups d ! gid) (dr_route d)")
  case (Pair slots rt1)
  let ?g = "dr_groups d ! gid"
  let ?ids = "map (cf_uuid c) [dr_minted d..<dr_minted d + g_width ?g]"
  show thesis
  proof (cases "slots = []")
    case True
    with assms Pair show thesis by (intro idle) (auto simp: begin_reset_def nth_opt_eq)
  next
    case False
    from assms Pair False obtain seeds trials g rt where
      st: "stage_reset c initial slots ?ids ?g rt1 = Some (seeds, trials, g, rt)"
      and snd: "send_reset c gid initial seeds trials ?ids g
          (set_route rt ((set_route rt1 d)\<lparr>dr_minted := dr_minted d + g_width ?g\<rparr>)) = (d', None)"
      by (auto simp: begin_reset_def nth_opt_eq mint_ids_def split: option.splits)
    obtain options d3 where opt: "trial_options c trials (set_group gid g
        (set_route rt ((set_route rt1 d)\<lparr>dr_minted := dr_minted d + g_width ?g\<rparr>))) = (options, d3)"
      by (cases "trial_options c trials (set_group gid g
        (set_route rt ((set_route rt1 d)\<lparr>dr_minted := dr_minted d + g_width ?g\<rparr>)))")
    have core: "dr_groups d3 = (dr_groups d)[gid := g]" "dr_env_ops d3 = dr_env_ops d"
      "dr_predicts d3 = dr_predicts d" "dr_route d3 = rt" "dr_minted d3 = dr_minted d + g_width ?g"
      "dr_pending_evictions d3 = dr_pending_evictions d" "dr_held_evictions d3 = dr_held_evictions d"
      "dr_trace d3 = dr_trace d"
      using trial_options_frame [OF opt] by (simp_all add: same_core_def)
    from snd opt have env: "g_env g" by (auto simp: send_reset_def Let_def split: if_splits)
    from snd opt env obtain req op where
      d': "d' = emit (CallReset gid req) (set_group gid (g\<lparr>g_env := False, g_phase := Resetting\<rparr>)
          (d3\<lparr>dr_env_ops := dr_env_ops d3 @ [op]\<rparr>))"
      and op: "eo_gid op = gid" "is_reset_op op" "rq_episode_ids req = ?ids"
      by (simp add: send_reset_def Let_def is_reset_op_def) fastforce
    have envg: "g_env ?g" using env stage_reset_group [OF st] by simp
    show thesis
      by (rule reset [OF Pair False refl st envg op(1,2)]) (simp_all add: d' core op(3))
  qed
qed

lemma begin_reset_faults:
  assumes "begin_reset c gid initial d = (d', Some f)" "between_at c gid d"
  shows "f = Panic TrialOverflow"
  using assms
  by (auto simp: begin_reset_def between_at_def between_def nth_opt_eq send_reset_def Let_def
      split: option.splits prod.splits if_splits dest!: stage_reset_group)

lemma begin_reset_ok:
  assumes "between_at c gid d" "begin_reset c gid initial d = (d', None)"
  shows "drv_ok c d'"
proof -
  from assms(1) have but: "drv_ok_but c gid d" and lt: "gid < length (dr_groups d)"
    and none: "env_kind (dr_env_ops d) gid = None"
    and btw: "between (dr_groups d ! gid) (gid \<in> set (flying (dr_predicts d)))"
    by (auto simp: between_at_def)
  from assms(2) lt show ?thesis
  proof (cases rule: begin_reset_cases)
    case (idle rt)
    with btw none show ?thesis
      by (intro drv_ok_finish [OF but]) (auto simp: group_ok_def between_def phase_op_def is_in_flight_def)
  next
    case (reset slots rt1 ids seeds trials g rt op)
    from stage_reset_group [OF reset(4)] btw reset(7)
    have "group_ok c (g\<lparr>g_env := False, g_phase := Resetting\<rparr>) (Some (is_reset_op op))
        (gid \<in> set (flying (dr_predicts d)))"
      by (auto simp: group_ok_def between_def phase_op_def is_in_flight_def)
    then show ?thesis
      by (rule drv_ok_finish_op [OF but lt none reset(6) _ reset(8,9,10)])
  qed
qed

text \<open>The group and the messages an observation leaves.\<close>

lemma take_observation_group:
  assumes "take_observation c msg g agg = Inr (g', agg')"
  shows "g_phase g' = Ready \<and> g_env g' = g_env g \<and> g_pending_start g' = g_pending_start g \<and>
    g_replay g' = g_replay g \<and> g_positions g' = g_positions g \<and> g_lanes g' = g_lanes g \<and>
    g_lane_group g' = g_lane_group g \<and> g_whole g' = g_whole g \<and> g_steps g' = g_steps g \<and>
    g_pending_roll g' = g_pending_roll g \<and> g_pending_completed g' = g_pending_completed g \<and>
    (\<exists>m. g_obs_msg g' = Some m \<and> pq_episode_info m = pq_episode_info msg \<and>
         pq_context m = pq_context msg \<and>
         (cf_deliver_history c \<longrightarrow> pq_step m = Some (g_steps g)) \<and>
         (if replans g then g_predict g' = PWanted m
          else g_predict g' = g_predict g \<and> (cf_deliver_history c \<longrightarrow> last_step (g_history g') = pq_step m)))"
  using assms
  by (auto simp: take_observation_def Let_def last_step_def split: if_splits)

lemma observe_cases:
  assumes "observe c i gid ob infos ph is_reset d = (d', None)" "gid < length (dr_groups d)"
  obtains msg rt g' agg where
    "\<exists>obs0. predict_request_at (g_positions (dr_groups d ! gid)) obs0 ph (dr_route d) = (msg, rt)"
    "\<exists>obs1 aggx. take_observation c (msg\<lparr>pq_observation := obs1\<rparr>) (dr_groups d ! gid) aggx = Inr (g', agg)"
    "dr_groups d' = (dr_groups d)[gid := g']" "dr_env_ops d' = dr_env_ops d"
    "dr_predicts d' = dr_predicts d" "dr_route d' = rt" "dr_minted d' = dr_minted d"
    "dr_pending_evictions d' = dr_pending_evictions d" "dr_held_evictions d' = dr_held_evictions d"
proof -
  let ?g = "dr_groups d ! gid"
  obtain msg rt where m: "predict_request_at (g_positions ?g) ob ph (dr_route d) = (msg, rt)"
    by (cases "predict_request_at (g_positions ?g) ob ph (dr_route d)")
  let ?ev = "observation_event_for c ?g is_reset ob infos rt"
  obtain r d2 where t: "invoke_transform_observation c i ?ev (set_route rt d) = (r, d2)"
    by (cases "invoke_transform_observation c i ?ev (set_route rt d)")
  have core: "dr_groups d2 = dr_groups d" "dr_env_ops d2 = dr_env_ops d" "dr_predicts d2 = dr_predicts d"
    "dr_route d2 = rt" "dr_minted d2 = dr_minted d" "dr_pending_evictions d2 = dr_pending_evictions d"
    "dr_held_evictions d2 = dr_held_evictions d"
    using transform_observation_frame [OF t] by (simp_all add: same_core_def)
  from assms m t obtain tr rel where r: "r = Inr (tr, rel)"
    by (auto simp: observe_def nth_opt_eq Let_def split: sum.splits prod.splits)
  from assms m t r obtain g' agg where
    tk: "\<exists>aggx. take_observation c (msg\<lparr>pq_observation := tr\<rparr>) ?g aggx = Inr (g', agg)"
    and d': "\<exists>ev. d' = set_group gid g' ((emit (ObservationEmitted ev) d2)\<lparr>dr_agg := agg\<rparr>)"
    by (auto simp: observe_def nth_opt_eq Let_def split: sum.splits prod.splits)
  show thesis
    by (rule that [of msg rt g' agg]) (use m tk d' core in auto)
qed

lemma between_in_flight: "between g fly \<Longrightarrow> is_in_flight g \<longleftrightarrow> fly"
  by (simp add: between_def)

lemma take_observation_ok:
  assumes "take_observation c msg g agg = Inr (g', agg')" "between g fly"
  shows "group_ok c g' None fly"
proof -
  from take_observation_group [OF assms(1)] obtain m where m:
    "g_phase g' = Ready" "g_env g' = g_env g" "g_pending_start g' = g_pending_start g"
    "g_replay g' = g_replay g" "g_obs_msg g' = Some m"
    "if replans g then g_predict g' = PWanted m
     else g_predict g' = g_predict g \<and> (cf_deliver_history c \<longrightarrow> last_step (g_history g') = pq_step m)"
    by blast
  show ?thesis
  proof (cases "replans g")
    case True
    with m assms(2) show ?thesis
      by (auto simp: group_ok_def between_def phase_op_def is_in_flight_def replans_def)
  next
    case False
    with m assms(2) show ?thesis
      by (auto simp: group_ok_def between_def phase_op_def is_in_flight_def replans_def)
  qed
qed

lemma observe_ok:
  assumes "between_at c gid d" "observe c i gid ob infos ph is_reset d = (d', None)"
  shows "drv_ok c d'"
proof -
  from assms(1) have but: "drv_ok_but c gid d" and lt: "gid < length (dr_groups d)"
    and none: "env_kind (dr_env_ops d) gid = None"
    and btw: "between (dr_groups d ! gid) (gid \<in> set (flying (dr_predicts d)))"
    by (auto simp: between_at_def)
  from assms(2) lt show ?thesis
  proof (cases rule: observe_cases)
    case (1 msg rt g' agg)
    then have "group_ok c g' None (gid \<in> set (flying (dr_predicts d)))"
      using take_observation_ok [OF _ btw] by blast
    then show ?thesis by (intro drv_ok_finish [OF but 1(3-5)]) (simp add: none)
  qed
qed

lemma observe_faults:
  assumes "observe c i gid ob infos ph is_reset d = (d', Some f)" "gid < length (dr_groups d)"
  shows "\<exists>e. f = Err e"
  using assms
  by (auto simp: observe_def nth_opt_eq Let_def split: sum.splits prod.splits)

section \<open>Steps and resets\<close>

lemma invoke_started_frame [simp]:
  "dr_groups (invoke_started_episodes ctx st d) = dr_groups d"
  "dr_env_ops (invoke_started_episodes ctx st d) = dr_env_ops d"
  "dr_predicts (invoke_started_episodes ctx st d) = dr_predicts d"
  "dr_route (invoke_started_episodes ctx st d) = dr_route d"
  "dr_pending_evictions (invoke_started_episodes ctx st d) = dr_pending_evictions d"
  "dr_held_evictions (invoke_started_episodes ctx st d) = dr_held_evictions d"
  "dr_minted (invoke_started_episodes ctx st d) = dr_minted d"
  by (simp_all add: invoke_started_episodes_def)

lemma fan_out_frame [simp]:
  "dr_groups (fan_out_completions es d) = dr_groups d"
  "dr_env_ops (fan_out_completions es d) = dr_env_ops d"
  "dr_predicts (fan_out_completions es d) = dr_predicts d"
  "dr_route (fan_out_completions es d) = dr_route d"
  "dr_pending_evictions (fan_out_completions es d) = dr_pending_evictions d"
  "dr_held_evictions (fan_out_completions es d) = dr_held_evictions d"
  "dr_minted (fan_out_completions es d) = dr_minted d"
  by (simp_all add: fan_out_completions_def)

lemma account_step_group:
  assumes "account_step c i gid g resp rpc d = (Inr completed, d1)"
  shows "dr_groups d1 = (dr_groups d)[gid := g\<lparr>g_phase := Ready, g_steps := g_steps g + 1, g_pending_predict := 0\<rparr>]"
    "dr_env_ops d1 = dr_env_ops d" "dr_predicts d1 = dr_predicts d"
    "dr_route d1 = record_step_at (g_positions g) (sr_rewards resp) rpc (g_pending_predict g) (dr_route d)"
    "dr_minted d1 = dr_minted d" "dr_pending_evictions d1 = dr_pending_evictions d"
    "dr_held_evictions d1 = dr_held_evictions d"
    "\<exists>capped. capped_completions c (io_now i 0) (g_positions g)
         (live_completions (sr_completed_episodes resp) (dr_route d1)) (sr_infos resp) (dr_route d1) = Some capped \<and>
       completed = live_completions (sr_completed_episodes resp) (dr_route d1) @ capped"
  using assms by (auto simp: account_step_def Let_def split: option.splits)

lemma apply_roll_group:
  assumes "gid < length (dr_groups d)" "dr_groups d ! gid = g"
  shows "dr_groups (apply_roll i gid ctx g d) =
     (dr_groups d)[gid := (if g_pending_roll g = [] then g else g\<lparr>g_pending_completed := [], g_pending_roll := []\<rparr>)]"
    "dr_env_ops (apply_roll i gid ctx g d) = dr_env_ops d"
    "dr_predicts (apply_roll i gid ctx g d) = dr_predicts d"
    "dr_minted (apply_roll i gid ctx g d) = dr_minted d"
  using assms by (auto simp: apply_roll_def Let_def split: prod.splits)

lemma finish_episodes_group:
  assumes "gid < length (dr_groups d)" "dr_groups d ! gid = g"
  shows "\<exists>pc. dr_groups (finish_episodes c gid ctx completed g d) = (dr_groups d)[gid := g\<lparr>g_pending_completed := pc\<rparr>]"
    "dr_env_ops (finish_episodes c gid ctx completed g d) = dr_env_ops d"
    "dr_predicts (finish_episodes c gid ctx completed g d) = dr_predicts d"
    "dr_minted (finish_episodes c gid ctx completed g d) = dr_minted d"
proof -
  have self: "dr_groups d = (dr_groups d)[gid := g\<lparr>g_pending_completed := g_pending_completed g\<rparr>]"
    using assms by auto
  show "\<exists>pc. dr_groups (finish_episodes c gid ctx completed g d) = (dr_groups d)[gid := g\<lparr>g_pending_completed := pc\<rparr>]"
  proof (cases "driver_owns_resets c")
    case True
    with self show ?thesis
      by (intro exI [of _ "g_pending_completed g"]) (simp add: finish_episodes_def Let_def split: prod.splits)
  next
    case False
    then show ?thesis by (auto simp: finish_episodes_def Let_def split: prod.splits)
  qed
qed (auto simp: finish_episodes_def Let_def split: prod.splits)

lemma stage_rolls_frame:
  "stage_rolls c ms roll d = (roll', d') \<Longrightarrow>
     dr_groups d' = dr_groups d \<and> dr_env_ops d' = dr_env_ops d \<and> dr_predicts d' = dr_predicts d \<and>
     dr_route d' = dr_route d \<and> dr_pending_evictions d' = dr_pending_evictions d \<and>
     dr_held_evictions d' = dr_held_evictions d"
  by (induction c ms roll d arbitrary: roll' d' rule: stage_rolls.induct)
    (auto simp: mint_ids_def split: if_splits)

lemma flush_stale_group:
  assumes "gid < length (dr_groups d)" "dr_groups d ! gid = g"
  shows "\<exists>roll. dr_groups (flush_stale c gid completed g d) = (dr_groups d)[gid :=
       (if completed = [] then g else g\<lparr>g_replay := [], g_predict := (if is_in_flight g then PInFlight True else PNone),
          g_pending_roll := roll\<rparr>)]"
    "dr_env_ops (flush_stale c gid completed g d) = dr_env_ops d"
    "dr_predicts (flush_stale c gid completed g d) = dr_predicts d"
    "dr_route (flush_stale c gid completed g d) = dr_route d"
    "dr_pending_evictions (flush_stale c gid completed g d) = dr_pending_evictions d"
    "dr_held_evictions (flush_stale c gid completed g d) = dr_held_evictions d"
proof -
  obtain roll d2 where st: "stage_rolls c completed (g_pending_roll g)
      (if g_replay g \<noteq> [] \<and> g_width g > 1 then d\<lparr>dr_vector_replay_warned := True\<rparr> else d) = (roll, d2)"
    by (cases "stage_rolls c completed (g_pending_roll g)
      (if g_replay g \<noteq> [] \<and> g_width g > 1 then d\<lparr>dr_vector_replay_warned := True\<rparr> else d)")
  have same: "g\<lparr>g_replay := [], g_predict := p\<rparr> = g\<lparr>g_replay := [], g_predict := p, g_pending_roll := g_pending_roll g\<rparr>" for p
    by simp
  have f: "dr_groups d2 = dr_groups d" "dr_env_ops d2 = dr_env_ops d" "dr_predicts d2 = dr_predicts d"
    "dr_route d2 = dr_route d" "dr_pending_evictions d2 = dr_pending_evictions d"
    "dr_held_evictions d2 = dr_held_evictions d"
    using stage_rolls_frame [OF st] by (auto split: if_splits)
  show "\<exists>roll. dr_groups (flush_stale c gid completed g d) = (dr_groups d)[gid :=
       (if completed = [] then g else g\<lparr>g_replay := [], g_predict := (if is_in_flight g then PInFlight True else PNone),
          g_pending_roll := roll\<rparr>)]"
  proof (cases "completed = []")
    case True
    then show ?thesis by (simp add: flush_stale_def assms(2) [symmetric])
  next
    case False
    show ?thesis
    proof (cases "driver_owns_resets c")
      case True
      with False show ?thesis
        by (intro exI [of _ "g_pending_roll g"]) (simp add: flush_stale_def Let_def)
    next
      case own: False
      with False st f show ?thesis
        by (intro exI [of _ roll]) (simp add: flush_stale_def Let_def)
    qed
  qed
  show "dr_env_ops (flush_stale c gid completed g d) = dr_env_ops d"
    "dr_predicts (flush_stale c gid completed g d) = dr_predicts d"
    "dr_route (flush_stale c gid completed g d) = dr_route d"
    "dr_pending_evictions (flush_stale c gid completed g d) = dr_pending_evictions d"
    "dr_held_evictions (flush_stale c gid completed g d) = dr_held_evictions d"
    using st f by (simp_all add: flush_stale_def Let_def)
qed

text \<open>The state of \<open>on_step\<close> when it decides whether to stop, restart or observe.\<close>

definition after_step :: "cfg \<Rightarrow> io \<Rightarrow> nat \<Rightarrow> env_context \<Rightarrow> episode_metadata list \<Rightarrow> drv \<Rightarrow> drv" where
  "after_step c i gid ctx completed d1 =
     (let d2 = apply_roll i gid ctx (dr_groups d1 ! gid) d1;
          d3 = finish_episodes c gid ctx completed (dr_groups d2 ! gid) d2
      in flush_stale c gid completed (dr_groups d3 ! gid) d3)"

lemma apply_roll_between:
  assumes "between_at c gid d"
  shows "between_at c gid (apply_roll i gid ctx (dr_groups d ! gid) d)"
proof -
  from assms have lt: "gid < length (dr_groups d)" by (simp add: between_at_def)
  note f = apply_roll_group [OF lt refl, of i ctx]
  show ?thesis
    by (rule between_at_update [OF assms f(1-3)])
      (use assms in \<open>auto simp: between_at_def between_def is_in_flight_def\<close>)
qed

lemma finish_episodes_between:
  assumes "between_at c gid d"
  shows "between_at c gid (finish_episodes c gid ctx completed (dr_groups d ! gid) d)"
proof -
  from assms have lt: "gid < length (dr_groups d)" by (simp add: between_at_def)
  note f = finish_episodes_group [OF lt refl, of c ctx completed]
  from f(1) obtain pc where
    g: "dr_groups (finish_episodes c gid ctx completed (dr_groups d ! gid) d)
        = (dr_groups d)[gid := (dr_groups d ! gid)\<lparr>g_pending_completed := pc\<rparr>]" by blast
  show ?thesis
    by (rule between_at_update [OF assms g f(2,3)])
      (use assms in \<open>auto simp: between_at_def between_def is_in_flight_def\<close>)
qed

lemma flush_stale_between:
  assumes "between_at c gid d"
  shows "between_at c gid (flush_stale c gid completed (dr_groups d ! gid) d)"
proof -
  from assms have lt: "gid < length (dr_groups d)"
    and btw: "between (dr_groups d ! gid) (gid \<in> set (flying (dr_predicts d)))"
    by (simp_all add: between_at_def)
  note f = flush_stale_group [OF lt refl, of c completed]
  from f(1) obtain roll where
    g: "dr_groups (flush_stale c gid completed (dr_groups d ! gid) d) = (dr_groups d)[gid :=
       (if completed = [] then dr_groups d ! gid else (dr_groups d ! gid)\<lparr>g_replay := [],
          g_predict := (if is_in_flight (dr_groups d ! gid) then PInFlight True else PNone),
          g_pending_roll := roll\<rparr>)]" by blast
  show ?thesis
    by (rule between_at_update [OF assms g f(2,3)])
      (use btw in \<open>auto simp: between_def is_in_flight_def\<close>)
qed

lemma after_step_between: "between_at c gid d1 \<Longrightarrow> between_at c gid (after_step c i gid ctx completed d1)"
  by (simp add: after_step_def Let_def apply_roll_between finish_episodes_between flush_stale_between)

lemma account_step_between:
  assumes "between_at c gid d" "account_step c i gid (dr_groups d ! gid) resp rpc d = (Inr completed, d1)"
  shows "between_at c gid d1"
  by (rule between_at_update [OF assms(1) account_step_group(1-3) [OF assms(2)]])
    (use assms(1) in \<open>auto simp: between_at_def between_def is_in_flight_def\<close>)

lemma on_step_cases:
  assumes "on_step c i gid resp rpc d = (d', None)" "gid < length (dr_groups d)"
  obtains completed d1 d4 where
    "account_step c i gid (dr_groups d ! gid) resp rpc d = (Inr completed, d1)"
    "d4 = after_step c i gid (group_context (g_positions (dr_groups d ! gid))
        (g_lane_group (dr_groups d ! gid)) (dr_route d)) completed d1"
    "(group_stops c (dr_groups d4 ! gid) (dr_route d4) \<and> d' = stop_group gid (dr_groups d4 ! gid) d4) \<or>
     (\<not> group_stops c (dr_groups d4 ! gid) (dr_route d4) \<and> driver_owns_resets c \<and> completed \<noteq> [] \<and>
        begin_reset c gid False d4 = (d', None)) \<or>
     (\<not> group_stops c (dr_groups d4 ! gid) (dr_route d4) \<and> \<not> (driver_owns_resets c \<and> completed \<noteq> []) \<and>
        (\<exists>ob infos. observe c i gid ob infos StepObservation False d4 = (d', None)))"
  using assms
  by (auto simp: on_step_def nth_opt_eq after_step_def Let_def split: prod.splits sum.splits if_splits)

lemma stop_group_group:
  assumes "gid < length (dr_groups d)"
  shows "dr_groups (stop_group gid g d) = (dr_groups d)[gid := g\<lparr>g_pending_completed := [],
        g_pending_roll := [], g_phase := Idle, g_predict := PNone\<rparr>]"
    "dr_env_ops (stop_group gid g d) = dr_env_ops d" "dr_predicts (stop_group gid g d) = dr_predicts d"
    "dr_minted (stop_group gid g d) = dr_minted d"
  by (simp_all add: stop_group_def Let_def)

lemma stop_group_ok:
  assumes "between_at c gid d"
  shows "drv_ok c (stop_group gid (dr_groups d ! gid) d)"
proof -
  from assms have but: "drv_ok_but c gid d" and lt: "gid < length (dr_groups d)"
    and none: "env_kind (dr_env_ops d) gid = None"
    and btw: "between (dr_groups d ! gid) (gid \<in> set (flying (dr_predicts d)))"
    by (auto simp: between_at_def)
  show ?thesis
    by (rule drv_ok_finish [OF but stop_group_group(1-3) [OF lt]])
      (use btw none in \<open>auto simp: group_ok_def between_def phase_op_def is_in_flight_def\<close>)
qed

lemma on_step_ok:
  assumes "between_at c gid d" "on_step c i gid resp rpc d = (d', None)"
  shows "drv_ok c d'"
proof -
  from assms(1) have lt: "gid < length (dr_groups d)" by (simp add: between_at_def)
  from assms(2) lt show ?thesis
  proof (cases rule: on_step_cases)
    case (1 completed d1 d4)
    have "between_at c gid d4"
      unfolding 1(2) by (intro after_step_between account_step_between [OF assms(1) 1(1)])
    with 1(3) show ?thesis using stop_group_ok begin_reset_ok observe_ok by blast
  qed
qed

lemma on_reset_ok:
  assumes but: "drv_ok_but c gid d" and lt: "gid < length (dr_groups d)"
    and none: "env_kind (dr_env_ops d) gid = None"
    and btw: "between ((dr_groups d ! gid)\<lparr>g_pending_start := None\<rparr>) (gid \<in> set (flying (dr_predicts d)))"
    and "on_reset c i gid initial resp rpc d = (d', None)"
  shows "drv_ok c d'"
proof -
  from assms(5) lt obtain d3 ob infos where obs: "observe c i gid ob infos ResetObservation True d3 = (d', None)"
    and d3: "dr_groups d3 = (dr_groups d)[gid := (dr_groups d ! gid)\<lparr>g_pending_start := None\<rparr>]"
      "dr_env_ops d3 = dr_env_ops d" "dr_predicts d3 = dr_predicts d"
    by (auto simp: on_reset_def nth_opt_eq Let_def split: option.splits prod.splits if_splits)
  have "between_at c gid d3"
    using but lt none btw d3 drv_ok_but_cong [OF d3] by (simp add: between_at_def)
  then show ?thesis using obs by (rule observe_ok)
qed

text \<open>Taking an operation out of flight.\<close>

lemma remove_nth_split: "k < length xs \<Longrightarrow> xs = take k xs @ xs ! k # drop (Suc k) xs"
  by (simp add: id_take_nth_drop)

lemma env_kind_remove:
  assumes "k < length ops" "distinct (map eo_gid ops)"
  shows "env_kind (remove_nth k ops) gid = (if gid = eo_gid (ops ! k) then None else env_kind ops gid)"
    and "env_kind ops (eo_gid (ops ! k)) = Some (is_reset_op (ops ! k))"
    and "distinct (map eo_gid (remove_nth k ops))"
    and "set (map eo_gid (remove_nth k ops)) = set (map eo_gid ops) - {eo_gid (ops ! k)}"
proof -
  define xs x ys where "xs = take k ops" and "x = ops ! k" and "ys = drop (Suc k) ops"
  have ops: "ops = xs @ x # ys" using remove_nth_split [OF assms(1)] by (simp add: xs_def x_def ys_def)
  have rm: "remove_nth k ops = xs @ ys" by (simp add: remove_nth_def xs_def ys_def)
  have d: "eo_gid x \<notin> eo_gid ` set xs" "eo_gid x \<notin> eo_gid ` set ys" "distinct (map eo_gid (xs @ ys))"
    using assms(2) unfolding ops by auto
  then have nx: "env_kind xs (eo_gid x) = None" "env_kind ys (eo_gid x) = None"
    by (simp_all add: env_kind_None_iff)
  have app: "env_kind (as @ bs) j = (case env_kind as j of None \<Rightarrow> env_kind bs j | Some b \<Rightarrow> Some b)" for as bs j
    by (simp add: env_kind_def map_add_def split: option.splits)
  have cons: "env_kind (x # ys) j = (if j = eo_gid x then Some (is_reset_op x) else env_kind ys j)" for j
    by (simp add: env_kind_def)
  show "env_kind (remove_nth k ops) gid = (if gid = eo_gid (ops ! k) then None else env_kind ops gid)"
    unfolding rm x_def [symmetric] using nx by (simp add: ops app cons split: option.split)
  show "env_kind ops (eo_gid (ops ! k)) = Some (is_reset_op (ops ! k))"
    unfolding x_def [symmetric] using nx by (simp add: ops app cons)
  show "distinct (map eo_gid (remove_nth k ops))" unfolding rm by (rule d(3))
  show "set (map eo_gid (remove_nth k ops)) = set (map eo_gid ops) - {eo_gid (ops ! k)}"
    unfolding rm x_def [symmetric] using d by (auto simp: ops)
qed

lemma env_wake_ok:
  assumes ok: "drv_ok c d" and k: "k < length (dr_env_ops d)" and fits: "result_fits (dr_env_ops d ! k) result"
    and run: "on_env_outcome c i (dr_env_ops d ! k) rpc result
        (d\<lparr>dr_env_ops := remove_nth k (dr_env_ops d)\<rparr>) = (d', None)"
  shows "drv_ok c d'"
proof -
  define op where "op = dr_env_ops d ! k"
  define gid where "gid = eo_gid op"
  define g where "g = dr_groups d ! gid"
  define d0 where "d0 = d\<lparr>dr_env_ops := remove_nth k (dr_env_ops d)\<rparr>"
  note rm = env_kind_remove [OF k drv_okD(1) [OF ok]]
  have lt: "gid < length (dr_groups d)" using drv_okD(3) [OF ok, of gid] k by (simp add: gid_def op_def)
  have gok: "group_ok c g (Some (is_reset_op op)) (gid \<in> set (flying (dr_predicts d)))"
    using drv_okD(5) [OF ok lt] rm(2) by (simp add: g_def gid_def op_def)
  have but: "drv_ok_but c gid d0"
    using ok rm(1,3,4) by (auto simp: drv_ok_but_def drv_ok_def d0_def gid_def op_def)
  have none: "env_kind (dr_env_ops d0) gid = None" using rm(1) [of gid] by (simp add: d0_def gid_def op_def)
  let ?d1 = "set_group gid (g\<lparr>g_env := True\<rparr>) d0"
  have but1: "drv_ok_but c gid ?d1" using but drv_ok_but_cong [of ?d1 d0 gid] by simp
  have r: "on_env_outcome c i op rpc result d0 = (d', None)" using run by (simp add: op_def d0_def)
  have g0: "nth_opt (dr_groups d0) gid = Some g" using lt by (simp add: nth_opt_eq d0_def g_def)
  show ?thesis
  proof (cases "is_reset_op op")
    case True
    with fits r g0 obtain initial resp agg where
      "on_reset c i gid initial resp rpc (on_agg agg ?d1) = (d', None)"
      by (auto simp: on_env_outcome_def Let_def result_fits_def is_reset_op_def gid_def [symmetric] op_def [symmetric]
          split: env_op_kind.splits env_result.splits sum.splits)
    moreover have "between ((g\<lparr>g_env := True\<rparr>)\<lparr>g_pending_start := None\<rparr>) (gid \<in> set (flying (dr_predicts d)))"
      using gok True by (auto simp: group_ok_def between_def is_in_flight_def phase_op_def split: env_phase.splits)
    ultimately show ?thesis
      using but1 lt none
      by (intro on_reset_ok [of c gid "on_agg agg ?d1"])
        (simp_all add: d0_def drv_ok_but_def)
  next
    case False
    with fits r g0 obtain resp agg where
      "on_step c i gid resp rpc (on_agg agg ?d1) = (d', None)"
      by (auto simp: on_env_outcome_def Let_def result_fits_def is_reset_op_def gid_def [symmetric] op_def [symmetric]
          split: env_op_kind.splits env_result.splits sum.splits)
    moreover have "between (g\<lparr>g_env := True\<rparr>) (gid \<in> set (flying (dr_predicts d)))"
      using gok False by (cases "g_pending_start g") (auto simp: group_ok_def between_def is_in_flight_def phase_op_def split: env_phase.splits)
    then have "between_at c gid (on_agg agg ?d1)"
      using but1 lt none by (simp add: between_at_def d0_def drv_ok_but_def)
    ultimately show ?thesis by (intro on_step_ok)
  qed
qed

end
