(* ===== verification/DriverRun.thy ===== *)
theory DriverRun
  imports DriverInv
begin

text \<open>
  The driver's loop keeps the invariant of \<open>DriverInv\<close>: dispatching steps and predicts, applying a
  finished predict, starting up, and a whole turn. The states the loop reaches are the inductive
  predicate \<open>reach\<close>; on them the loop never stalls and never panics on its own account.
\<close>

section \<open>Dispatching steps and predicts\<close>

lemma latest_request_group:
  "latest_request c g agg = (m, g', agg') \<Longrightarrow>
   g_env g' = g_env g \<and> g_phase g' = g_phase g \<and> g_pending_start g' = g_pending_start g \<and>
   g_replay g' = g_replay g \<and> g_predict g' = g_predict g"
  by (auto simp: latest_request_def Let_def split: option.splits if_splits)

lemma prefetch_group:
  assumes "prefetch c gid g d = (g2, d2)"
  shows "dr_groups d2 = (dr_groups d)[gid := g2]" "dr_env_ops d2 = dr_env_ops d"
    "dr_predicts d2 = dr_predicts d"
    "g_env g2 = g_env g" "g_phase g2 = g_phase g" "g_pending_start g2 = g_pending_start g"
    "g_replay g2 = g_replay g"
    "g_predict g2 = g_predict g \<or> g_predict g = PNone \<and> (\<exists>m. g_predict g2 = PWanted m)"
  using assms
  by (auto simp: prefetch_def Let_def dest!: latest_request_group split: if_splits prod.splits option.splits)

lemma transform_action_error:
  "invoke_transform_action c i ev d = (Inl e, d') \<Longrightarrow> e \<noteq> Protocol Stalled"
  by (auto simp: invoke_transform_action_def relay_def Let_def
      split: sum.splits option.splits relay_decision.splits prod.splits)

lemma send_step_effect:
  assumes "send_step c i gid g a d = (d', None)"
  obtains op where "eo_gid op = gid" "\<not> is_reset_op op" "dr_env_ops d' = dr_env_ops d @ [op]"
    "dr_groups d' = (dr_groups d)[gid := g\<lparr>g_env := False, g_phase := Stepping\<rparr>]"
    "dr_predicts d' = dr_predicts d"
  using assms
  by (auto simp: send_step_def Let_def is_reset_op_def same_core_def dest!: transform_action_frame
      split: prod.splits sum.splits if_splits)

lemma send_step_faults:
  "send_step c i gid g a d = (d', Some f) \<Longrightarrow> g_env g \<Longrightarrow> \<exists>e. f = Err e \<and> e \<noteq> Protocol Stalled"
  by (auto simp: send_step_def Let_def dest!: transform_action_error split: prod.splits sum.splits if_splits)

text \<open>The group with its next chunk moved to the replay buffer.\<close>

definition refill :: "group \<Rightarrow> group" where
  "refill g = (case (g_replay g, g_predict g) of
      ([], PReady frames) \<Rightarrow> g\<lparr>g_replay := frames, g_predict := PNone\<rparr> | _ \<Rightarrow> g)"

lemma dispatch_step_refill:
  "gid < length (dr_groups d) \<Longrightarrow> dispatch_step c i gid d =
     (if g_phase (dr_groups d ! gid) \<noteq> Ready then (d, None)
      else case g_replay (refill (dr_groups d ! gid)) of
        [] \<Rightarrow> (set_group gid (refill (dr_groups d ! gid)) d, None)
      | a # rest \<Rightarrow> (case prefetch c gid ((refill (dr_groups d ! gid))\<lparr>g_replay := rest\<rparr>) d of
          (g2, d2) \<Rightarrow> send_step c i gid g2 a d2))"
  unfolding dispatch_step_def Let_def refill_def by (simp add: nth_opt_eq)

lemma refill_empty:
  "g_predict g \<noteq> PReady [] \<Longrightarrow> g_replay (refill g) = [] \<Longrightarrow> refill g = g \<and> (\<forall>fs. g_predict g \<noteq> PReady fs)"
  by (auto simp: refill_def split: list.splits predict_state.splits)

lemma refill_full:
  assumes "group_ok c g None fly" "g_phase g = Ready" "g_replay (refill g) \<noteq> []"
  shows "g_env (refill g)" "g_pending_start (refill g) = None" "g_phase (refill g) = Ready"
    "is_in_flight (refill g) \<longleftrightarrow> fly" "g_predict (refill g) \<noteq> PReady []" "g_predict (refill g) \<noteq> PInFlight True"
  using assms
  by (cases "g_replay g"; cases "g_predict g"; cases "g_pending_start g";
      simp add: refill_def group_ok_def is_in_flight_def phase_op_def)+

lemma dispatch_step_ok:
  assumes ok: "drv_ok c d" and lt: "gid < length (dr_groups d)"
    and run: "dispatch_step c i gid d = (d', None)"
  shows "drv_ok c d'"
proof (cases "g_phase (dr_groups d ! gid) = Ready")
  case True
  define g where "g = dr_groups d ! gid"
  have gok: "group_ok c g (env_kind (dr_env_ops d) gid) (gid \<in> set (flying (dr_predicts d)))"
    using drv_okD(5) [OF ok lt] by (simp add: g_def)
  then have none: "env_kind (dr_env_ops d) gid = None" using True by (simp add: g_def group_ok_def phase_op_def)
  show ?thesis
  proof (cases "g_replay (refill g)")
    case Nil
    then have "d' = d" using run True refill_empty [of g] gok lt
      by (simp add: dispatch_step_refill g_def set_group_def group_ok_def)
    then show ?thesis using ok by simp
  next
    case (Cons a rest)
    obtain g2 d2 where pf: "prefetch c gid ((refill g)\<lparr>g_replay := rest\<rparr>) d = (g2, d2)"
      by (cases "prefetch c gid ((refill g)\<lparr>g_replay := rest\<rparr>) d") auto
    note f = prefetch_group [OF pf]
    from run True Cons pf lt have "send_step c i gid g2 a d2 = (d', None)"
      by (simp add: dispatch_step_refill g_def [symmetric])
    then obtain op where op: "eo_gid op = gid" "\<not> is_reset_op op" "dr_env_ops d' = dr_env_ops d2 @ [op]"
      "dr_groups d' = (dr_groups d2)[gid := g2\<lparr>g_env := False, g_phase := Stepping\<rparr>]"
      "dr_predicts d' = dr_predicts d2"
      by (rule send_step_effect)
    have r: "g_env (refill g)" "g_pending_start (refill g) = None" "is_in_flight (refill g) \<longleftrightarrow> gid \<in> set (flying (dr_predicts d))"
      "g_predict (refill g) \<noteq> PReady []" "g_predict (refill g) \<noteq> PInFlight True"
      using refill_full [of c g] gok none True Cons by (auto simp: g_def)
    show ?thesis
    proof (rule drv_ok_finish_op [OF drv_ok_imp_but [OF ok] lt none op(1)])
      show "group_ok c (g2\<lparr>g_env := False, g_phase := Stepping\<rparr>) (Some (is_reset_op op))
          (gid \<in> set (flying (dr_predicts d)))"
        using f(4-8) r op(2) by (auto simp: group_ok_def phase_op_def is_in_flight_def)
    qed (use op f in auto)
  qed
next
  case False
  then show ?thesis using ok run lt by (simp add: dispatch_step_refill)
qed

lemma dispatch_step_faults:
  assumes ok: "drv_ok c d" and lt: "gid < length (dr_groups d)"
    and run: "dispatch_step c i gid d = (d', Some f)"
  shows "\<exists>e. f = Err e \<and> e \<noteq> Protocol Stalled"
proof -
  define g where "g = dr_groups d ! gid"
  from run lt obtain a rest g2 d2 where ready: "g_phase g = Ready" and ne: "g_replay (refill g) = a # rest"
    and pf: "prefetch c gid ((refill g)\<lparr>g_replay := rest\<rparr>) d = (g2, d2)"
    and send: "send_step c i gid g2 a d2 = (d', Some f)"
    by (auto simp: dispatch_step_refill g_def split: if_splits list.splits prod.splits)
  have gok: "group_ok c g (env_kind (dr_env_ops d) gid) (gid \<in> set (flying (dr_predicts d)))"
    using drv_okD(5) [OF ok lt] by (simp add: g_def)
  then have "env_kind (dr_env_ops d) gid = None" using ready by (simp add: group_ok_def phase_op_def)
  then have "g_env g2" using prefetch_group(4) [OF pf] refill_full(1) [of c g] gok ready ne by auto
  with send show ?thesis by (rule send_step_faults)
qed

lemma dispatch_step_length:
  "length (dr_groups (fst (dispatch_step c i gid d))) = length (dr_groups d)"
proof (cases "gid < length (dr_groups d)")
  case True
  have "length (dr_groups (fst (send_step c i gid g a d2))) = length (dr_groups d2)" for g a d2
    by (auto simp: send_step_def Let_def same_core_def dest!: transform_action_frame split: prod.splits sum.splits)
  moreover have "length (dr_groups d2) = length (dr_groups d)" if "prefetch c gid g d = (g2, d2)" for g g2 d2
    using prefetch_group(1) [OF that] by simp
  ultimately show ?thesis using True by (auto simp: dispatch_step_refill split: list.splits prod.splits)
qed (simp add: dispatch_step_def nth_opt_eq)

lemma for_each_ok:
  assumes "for_each f xs d = (d', None)" "P d"
    and "\<And>x d d'. x \<in> set xs \<Longrightarrow> P d \<Longrightarrow> f x d = (d', None) \<Longrightarrow> P d'"
  shows "P d'"
  using assms
proof (induction xs arbitrary: d)
  case (Cons x xs)
  from Cons.prems(1) obtain d1 where d1: "f x d = (d1, None)" "for_each f xs d1 = (d', None)"
    by (auto simp: and_then_None_iff)
  have "P d1" using Cons.prems(3) [of x d d1] Cons.prems(2) d1(1) by simp
  then show ?case using Cons.IH [OF d1(2)] Cons.prems(3) by (meson list.set_intros(2))
qed simp

lemma for_each_faults:
  assumes "for_each f xs d = (d', Some e)" "P d"
    and "\<And>x d d'. x \<in> set xs \<Longrightarrow> P d \<Longrightarrow> f x d = (d', None) \<Longrightarrow> P d'"
    and "\<And>x d d' e. x \<in> set xs \<Longrightarrow> P d \<Longrightarrow> f x d = (d', Some e) \<Longrightarrow> Q e"
  shows "Q e"
  using assms
proof (induction xs arbitrary: d)
  case (Cons x xs)
  show ?case
  proof (cases "snd (f x d)")
    case None
    then obtain d1 where d1: "f x d = (d1, None)" by (cases "f x d") simp
    then have "P d1" using Cons.prems(3) [of x d d1] Cons.prems(2) by simp
    moreover have "for_each f xs d1 = (d', Some e)" using Cons.prems(1) d1 by simp
    ultimately show ?thesis using Cons.IH [of d1] Cons.prems(3,4) by (meson list.set_intros(2))
  next
    case (Some e1)
    then obtain d1 where "f x d = (d1, Some e1)" by (cases "f x d") simp
    then show ?thesis using Cons.prems(1,2) Cons.prems(4) [of x d d1 e1] by simp
  qed
qed simp

lemma dispatch_steps_ok:
  assumes ok: "drv_ok c d"
  shows "dispatch_steps c i d = (d', None) \<Longrightarrow> drv_ok c d' \<and> length (dr_groups d') = length (dr_groups d)"
    and "dispatch_steps c i d = (d', Some f) \<Longrightarrow> \<exists>e. f = Err e \<and> e \<noteq> Protocol Stalled"
proof -
  let ?P = "\<lambda>d1. drv_ok c d1 \<and> length (dr_groups d1) = length (dr_groups d)"
  have step: "?P d2" if "gid \<in> set [0..<length (dr_groups d)]" "?P d1" "dispatch_step c i gid d1 = (d2, None)" for gid d1 d2
    using that dispatch_step_ok [of c d1 gid i d2] dispatch_step_length [of c i gid d1] by auto
  have err: "\<exists>e. f = Err e \<and> e \<noteq> Protocol Stalled" if "gid \<in> set [0..<length (dr_groups d)]" "?P d1" "dispatch_step c i gid d1 = (d2, Some f)" for gid d1 d2 f
    using that dispatch_step_faults [of c d1 gid i d2 f] by auto
  show "dispatch_steps c i d = (d', None) \<Longrightarrow> ?P d'"
    unfolding dispatch_steps_def by (erule for_each_ok [where P = ?P, OF _ _ step]) (simp_all add: ok)
  show "dispatch_steps c i d = (d', Some f) \<Longrightarrow> \<exists>e. f = Err e \<and> e \<noteq> Protocol Stalled"
    unfolding dispatch_steps_def
    by (erule for_each_faults [where P = ?P and Q = "\<lambda>f. \<exists>e. f = Err e \<and> e \<noteq> Protocol Stalled", OF _ _ step err]) (simp_all only: ok)
qed

text \<open>After a pass over the groups none of them holds a frame it could step with.\<close>

definition settled :: "group \<Rightarrow> bool" where
  "settled g \<longleftrightarrow> (g_phase g = Ready \<longrightarrow> g_replay g = [] \<and> (\<forall>fs. g_predict g \<noteq> PReady fs))"

lemma dispatch_step_effect:
  assumes ok: "drv_ok c d" and lt: "gid < length (dr_groups d)"
    and run: "dispatch_step c i gid d = (d', None)"
  obtains g' ops where "dr_groups d' = (dr_groups d)[gid := g']" "settled g'"
    "g_phase g' = Idle \<longleftrightarrow> g_phase (dr_groups d ! gid) = Idle"
    "dr_env_ops d' = dr_env_ops d @ ops" "dr_predicts d' = dr_predicts d"
proof (cases "g_phase (dr_groups d ! gid) = Ready")
  case True
  define g where "g = dr_groups d ! gid"
  have nr: "g_predict g \<noteq> PReady []" using drv_okD(5) [OF ok lt] by (simp add: g_def group_ok_def)
  show ?thesis
  proof (cases "g_replay (refill g)")
    case Nil
    then have "d' = d" "settled g" using run True refill_empty [OF nr] lt
      by (simp_all add: dispatch_step_refill g_def set_group_def settled_def)
    then show ?thesis using that [of g "[]"] by (simp add: g_def)
  next
    case (Cons a rest)
    obtain g2 d2 where pf: "prefetch c gid ((refill g)\<lparr>g_replay := rest\<rparr>) d = (g2, d2)"
      by (cases "prefetch c gid ((refill g)\<lparr>g_replay := rest\<rparr>) d") auto
    note f = prefetch_group [OF pf]
    from run True Cons pf lt have "send_step c i gid g2 a d2 = (d', None)"
      by (simp add: dispatch_step_refill g_def [symmetric])
    then obtain op where "dr_env_ops d' = dr_env_ops d2 @ [op]"
      "dr_groups d' = (dr_groups d2)[gid := g2\<lparr>g_env := False, g_phase := Stepping\<rparr>]"
      "dr_predicts d' = dr_predicts d2"
      by (rule send_step_effect)
    then show ?thesis
      using that [of "g2\<lparr>g_env := False, g_phase := Stepping\<rparr>" "[op]"] f(1-3) True
      by (simp add: settled_def g_def)
  qed
next
  case False
  then have "d' = d" using run lt by (simp add: dispatch_step_refill)
  then show ?thesis using that [of "dr_groups d ! gid" "[]"] False by (simp add: settled_def)
qed

lemma for_each_append:
  "for_each f (xs @ ys) d = and_then (for_each f xs d) (for_each f ys)"
proof (induction xs arbitrary: d)
  case (Cons x xs)
  then show ?case by (cases "f x d"; cases "snd (f x d)") simp_all
qed simp

lemma for_each_upt:
  assumes "for_each f [0..<n] d = (d', None)" "P 0 d"
    and "\<And>k d d'. k < n \<Longrightarrow> P k d \<Longrightarrow> f k d = (d', None) \<Longrightarrow> P (Suc k) d'"
  shows "P n d'"
  using assms
proof (induction n arbitrary: d')
  case (Suc n)
  from Suc.prems(1) obtain d1 where d1: "for_each f [0..<n] d = (d1, None)" "f n d1 = (d', None)"
    by (auto simp: for_each_append and_then_None_iff)
  have "P n d1" using Suc.IH [OF d1(1) Suc.prems(2)] Suc.prems(3) by (meson less_SucI)
  then show ?case using Suc.prems(3) [of n d1 d'] d1(2) by simp
qed simp

lemma dispatch_steps_settle:
  assumes ok: "drv_ok c d" and run: "dispatch_steps c i d = (d', None)"
  shows "\<forall>k < length (dr_groups d). settled (dr_groups d' ! k) \<and>
      (g_phase (dr_groups d' ! k) = Idle \<longleftrightarrow> g_phase (dr_groups d ! k) = Idle)"
    and "dr_env_ops d' = [] \<Longrightarrow> dr_env_ops d = []" and "dr_predicts d' = dr_predicts d"
proof -
  let ?P = "\<lambda>n d1. drv_ok c d1 \<and> length (dr_groups d1) = length (dr_groups d) \<and>
     (\<forall>k < n. settled (dr_groups d1 ! k)) \<and>
     (\<forall>k < length (dr_groups d). g_phase (dr_groups d1 ! k) = Idle \<longleftrightarrow> g_phase (dr_groups d ! k) = Idle) \<and>
     (dr_env_ops d1 = [] \<longrightarrow> dr_env_ops d = []) \<and> dr_predicts d1 = dr_predicts d"
  have "?P (length (dr_groups d)) d'"
  proof (rule for_each_upt [where P = ?P, OF run [unfolded dispatch_steps_def]])
    show "?P 0 d" using ok by simp
    fix k d1 d2 assume k: "k < length (dr_groups d)" and P: "?P k d1" and st: "dispatch_step c i k d1 = (d2, None)"
    have ok1: "drv_ok c d1" and lt1: "k < length (dr_groups d1)" using P k by simp_all
    obtain g' ops where e: "dr_groups d2 = (dr_groups d1)[k := g']" "settled g'"
      "g_phase g' = Idle \<longleftrightarrow> g_phase (dr_groups d1 ! k) = Idle"
      "dr_env_ops d2 = dr_env_ops d1 @ ops" "dr_predicts d2 = dr_predicts d1"
      by (rule dispatch_step_effect [OF ok1 lt1 st])
    have "drv_ok c d2" by (rule dispatch_step_ok [OF ok1 lt1 st])
    moreover have "settled (dr_groups d2 ! j)" if "j < Suc k" for j
      using P e(1,2) k that by (cases "j = k") simp_all
    moreover have "g_phase (dr_groups d2 ! j) = Idle \<longleftrightarrow> g_phase (dr_groups d ! j) = Idle"
      if "j < length (dr_groups d)" for j
      using P e(1,3) k that by (cases "j = k") simp_all
    ultimately show "?P (Suc k) d2" using P e(1,4,5) by simp
  qed
  then show "\<forall>k < length (dr_groups d). settled (dr_groups d' ! k) \<and>
      (g_phase (dr_groups d' ! k) = Idle \<longleftrightarrow> g_phase (dr_groups d ! k) = Idle)"
    and "dr_env_ops d' = [] \<Longrightarrow> dr_env_ops d = []" and "dr_predicts d' = dr_predicts d"
    by simp_all
qed

text \<open>Gathering the requests of a predict.\<close>

definition all_wanted :: "nat list \<Rightarrow> drv \<Rightarrow> bool" where
  "all_wanted gids d \<longleftrightarrow> (\<forall>gid \<in> set gids. gid < length (dr_groups d) \<and> is_wanted (dr_groups d ! gid))"

definition fly_off :: "nat list \<Rightarrow> group list \<Rightarrow> group list" where
  "fly_off gids gs = map (\<lambda>k. if k \<in> set gids then (gs ! k)\<lparr>g_predict := PInFlight False\<rparr> else gs ! k) [0..<length gs]"

lemma fly_off_Nil: "fly_off [] gs = gs"
  by (simp add: fly_off_def map_nth)

lemma fly_off_Cons:
  "gid < length gs \<Longrightarrow> gid \<notin> set gids \<Longrightarrow>
   fly_off gids (gs[gid := (gs ! gid)\<lparr>g_predict := PInFlight False\<rparr>]) = fly_off (gid # gids) gs"
  by (rule nth_equalityI) (auto simp: fly_off_def nth_list_update)

lemma fly_off_nth:
  "length (fly_off gids gs) = length gs"
  "k < length gs \<Longrightarrow> fly_off gids gs ! k = (if k \<in> set gids then (gs ! k)\<lparr>g_predict := PInFlight False\<rparr> else gs ! k)"
  by (simp_all add: fly_off_def)

lemma gather_success:
  assumes "gather c gids st acc d = (Inr (st', reqs), d')"
  shows "distinct gids \<and> all_wanted gids d \<and> map fst reqs = map fst acc @ gids \<and>
    dr_groups d' = fly_off gids (dr_groups d) \<and> dr_env_ops d' = dr_env_ops d \<and>
    dr_predicts d' = dr_predicts d \<and> dr_pending_evictions d' = dr_pending_evictions d \<and>
    dr_held_evictions d' = dr_held_evictions d \<and> dr_minted d' = dr_minted d"
  using assms
proof (induction c gids st acc d rule: gather.induct)
  case (2 c gid rest st acc d)
  from "2.prems" obtain msg where lt: "gid < length (dr_groups d)" and w: "g_predict (dr_groups d ! gid) = PWanted msg"
    by (auto simp: nth_opt_eq split: if_splits predict_state.splits)
  define g where "g = dr_groups d ! gid"
  define d1 where "d1 = set_route (mark_predicted (g_positions g) (dr_route d))
                        (set_group gid (g\<lparr>g_predict := PInFlight False\<rparr>) d)"
  have IH: "distinct rest \<and> all_wanted rest d1 \<and>
      map fst reqs = map fst (acc @ [(gid, msg, cf_len_predict_request c msg)]) @ rest \<and>
    dr_groups d' = fly_off rest (dr_groups d1) \<and> dr_env_ops d' = dr_env_ops d1 \<and>
    dr_predicts d' = dr_predicts d1 \<and> dr_pending_evictions d' = dr_pending_evictions d1 \<and>
    dr_held_evictions d' = dr_held_evictions d1 \<and> dr_minted d' = dr_minted d1"
    by (rule "2.IH") (use lt w "2.prems" in \<open>simp_all add: nth_opt_eq Let_def g_def d1_def\<close>)
  have "gid \<notin> set rest"
  proof
    assume "gid \<in> set rest"
    then have "is_wanted (dr_groups d1 ! gid)" using IH by (simp add: all_wanted_def)
    then show False using lt by (simp add: d1_def is_wanted_def)
  qed
  moreover have "all_wanted rest d"
    unfolding all_wanted_def
  proof
    fix k assume k: "k \<in> set rest"
    then have "k \<noteq> gid" using \<open>gid \<notin> set rest\<close> by auto
    moreover have "k < length (dr_groups d1) \<and> is_wanted (dr_groups d1 ! k)"
      using IH k by (simp add: all_wanted_def)
    ultimately show "k < length (dr_groups d) \<and> is_wanted (dr_groups d ! k)" by (simp add: d1_def)
  qed
  ultimately show ?case
    using IH lt w fly_off_Cons [of gid "dr_groups d" rest]
    by (simp add: d1_def g_def all_wanted_def is_wanted_def)
qed (simp add: fly_off_Nil all_wanted_def)

lemma gather_total:
  assumes "distinct gids" "all_wanted gids d"
  shows "\<exists>st' reqs d'. gather c gids st acc d = (Inr (st', reqs), d')"
  using assms
proof (induction gids arbitrary: st acc d)
  case (Cons gid rest)
  from Cons.prems obtain msg where lt: "gid < length (dr_groups d)" and w: "g_predict (dr_groups d ! gid) = PWanted msg"
    by (auto simp: all_wanted_def is_wanted_def split: predict_state.splits)
  show ?case using Cons.prems lt w
    by (simp add: nth_opt_eq Let_def, intro Cons.IH) (auto simp: all_wanted_def nth_list_update)
qed simp

lemma wanted_not_flying:
  assumes "drv_ok c d" "gid < length (dr_groups d)" "is_wanted (dr_groups d ! gid)"
  shows "gid \<notin> set (flying (dr_predicts d))" "g_phase (dr_groups d ! gid) \<noteq> Idle"
  using drv_okD(5) [OF assms(1,2)] assms(3)
  by (auto simp: group_ok_def is_wanted_def is_in_flight_def split: predict_state.splits)

lemma predict_for_success:
  assumes ok: "drv_ok c d" and run: "predict_for c gids d = (d', None)"
  shows "drv_ok c d'" "dr_groups d' = fly_off gids (dr_groups d)" "distinct gids" "all_wanted gids d"
    "dr_env_ops d' = dr_env_ops d" "flying (dr_predicts d') = flying (dr_predicts d) @ gids"
    "dr_predicts d' \<noteq> []"
    "dr_pending_evictions d' = dr_pending_evictions d" "dr_held_evictions d' = dr_held_evictions d"
    "dr_minted d' = dr_minted d"
proof -
  from run obtain st reqs d1 where ga: "gather c gids 0 [] d = (Inr (st, reqs), d1)"
    by (auto simp: predict_for_def split: prod.splits sum.splits)
  note f = gather_success [OF ga]
  from run ga show groups: "dr_groups d' = fly_off gids (dr_groups d)" and ops: "dr_env_ops d' = dr_env_ops d"
    and fl: "flying (dr_predicts d') = flying (dr_predicts d) @ gids" and "dr_predicts d' \<noteq> []"
    and "dr_pending_evictions d' = dr_pending_evictions d" "dr_held_evictions d' = dr_held_evictions d"
      "dr_minted d' = dr_minted d"
    using f by (auto simp: predict_for_def flying_def)
  show dg: "distinct gids" and w: "all_wanted gids d" using f by blast+
  show "drv_ok c d'"
  proof (rule drv_okI)
    show "distinct (flying (dr_predicts d'))"
      using dg w drv_okD(2) [OF ok] wanted_not_flying(1) [OF ok] by (auto simp: fl all_wanted_def)
    show "gid \<in> set (flying (dr_predicts d')) \<Longrightarrow> gid < length (dr_groups d')" for gid
      using w drv_okD(4) [OF ok] by (auto simp: fl groups fly_off_nth all_wanted_def)
    show "gid < length (dr_groups d') \<Longrightarrow> group_ok c (dr_groups d' ! gid) (env_kind (dr_env_ops d') gid)
        (gid \<in> set (flying (dr_predicts d')))" for gid
    proof (cases "gid \<in> set gids")
      case True
      then have lt: "gid < length (dr_groups d)" and wt: "is_wanted (dr_groups d ! gid)"
        using w by (simp_all add: all_wanted_def)
      show ?thesis using drv_okD(5) [OF ok lt] wanted_not_flying [OF ok lt wt] lt True
        by (simp add: groups fly_off_nth ops fl group_ok_def is_in_flight_def)
    qed (use drv_okD(5) [OF ok] in \<open>simp add: groups fly_off_nth ops fl\<close>)
  qed (use drv_okD(1,3) [OF ok] in \<open>simp_all add: groups fly_off_nth ops\<close>)
qed

lemma predict_for_total:
  assumes "distinct gids" "all_wanted gids d"
  shows "\<exists>d'. predict_for c gids d = (d', None)"
  using gather_total [OF assms, of c 0 "[]"] by (auto simp: predict_for_def)

text \<open>One predict per chosen group, when the model does not fuse.\<close>

lemma predict_each_success:
  assumes "drv_ok c d" "for_each (\<lambda>gid. predict_for c [gid]) gids d = (d', None)"
  shows "drv_ok c d' \<and> dr_env_ops d' = dr_env_ops d \<and> (gids \<noteq> [] \<longrightarrow> dr_predicts d' \<noteq> []) \<and>
    dr_groups d' = fly_off gids (dr_groups d) \<and> distinct gids \<and> all_wanted gids d \<and>
    flying (dr_predicts d') = flying (dr_predicts d) @ gids"
  using assms
proof (induction gids arbitrary: d)
  case (Cons gid gids)
  from Cons.prems(2) obtain d1 where d1: "predict_for c [gid] d = (d1, None)"
    "for_each (\<lambda>gid. predict_for c [gid]) gids d1 = (d', None)" by (auto simp: and_then_None_iff)
  note f = predict_for_success [OF Cons.prems(1) d1(1)]
  note IH = Cons.IH [OF f(1) d1(2)]
  have lt: "gid < length (dr_groups d)" using f(4) by (simp add: all_wanted_def)
  have off: "fly_off [gid] (dr_groups d) = (dr_groups d)[gid := (dr_groups d ! gid)\<lparr>g_predict := PInFlight False\<rparr>]"
    by (rule nth_equalityI) (auto simp: fly_off_nth nth_list_update)
  have new: "gid \<notin> set gids"
  proof
    assume "gid \<in> set gids"
    then have "is_wanted (dr_groups d1 ! gid)" using IH by (simp add: all_wanted_def)
    then show False using lt by (simp add: f(2) fly_off_nth is_wanted_def)
  qed
  have w: "all_wanted gids d"
    unfolding all_wanted_def
  proof
    fix k assume k: "k \<in> set gids"
    then have "k \<noteq> gid" using new by auto
    moreover have "k < length (dr_groups d1) \<and> is_wanted (dr_groups d1 ! k)" using IH k by (simp add: all_wanted_def)
    ultimately show "k < length (dr_groups d) \<and> is_wanted (dr_groups d ! k)" by (auto simp: f(2) fly_off_nth)
  qed
  have "dr_predicts d' \<noteq> []"
  proof
    assume "dr_predicts d' = []"
    then have "flying (dr_predicts d') = []" by (simp add: flying_def)
    then show False using IH f(6) by simp
  qed
  then show ?case
    using IH f w new lt fly_off_Cons [of gid "dr_groups d" gids] by (simp add: off all_wanted_def)
qed (simp add: fly_off_Nil all_wanted_def)

lemma predict_each_total:
  assumes "distinct gids" "all_wanted gids d" "drv_ok c d"
  shows "\<exists>d'. for_each (\<lambda>gid. predict_for c [gid]) gids d = (d', None)"
  using assms
proof (induction gids arbitrary: d)
  case (Cons gid gids)
  have "all_wanted [gid] d" using Cons.prems(2) by (simp add: all_wanted_def)
  then obtain d1 where d1: "predict_for c [gid] d = (d1, None)"
    using predict_for_total [of "[gid]" d c] by auto
  note f = predict_for_success [OF Cons.prems(3) d1]
  have "all_wanted gids d1"
    using Cons.prems(1,2) by (auto simp: all_wanted_def f(2) fly_off_nth)
  then show ?case using Cons.IH [of d1] Cons.prems(1) f(1) d1 by auto
qed simp

text \<open>A scheduler names each waiting group at most once.\<close>

definition plans_once :: "io \<Rightarrow> bool" where
  "plans_once i \<longleftrightarrow> (\<forall>waiting busy. distinct waiting \<longrightarrow> distinct (io_plan i waiting busy))"

lemma dispatch_predict_cases:
  obtains (skip) "dispatch_predict c i force d = (d, None)"
      "force \<Longrightarrow> dr_predicts d = [] \<Longrightarrow> \<forall>gid < length (dr_groups d). \<not> is_wanted (dr_groups d ! gid)"
  | (issue) chosen where "chosen \<noteq> []" "all_wanted chosen d" "plans_once i \<Longrightarrow> distinct chosen"
      "dispatch_predict c i force d =
        (if cf_fuses c then predict_for c chosen d else for_each (\<lambda>gid. predict_for c [gid]) chosen d)"
proof -
  define waiting where "waiting = filter (\<lambda>gid. is_wanted (dr_groups d ! gid)) [0..<length (dr_groups d)]"
  define planned where "planned = filter (\<lambda>gid. gid \<in> set waiting) (io_plan i waiting (length (filter g_busy (dr_groups d))))"
  define chosen where "chosen = (if planned = [] then waiting else planned)"
  have w: "all_wanted chosen d" by (auto simp: chosen_def planned_def waiting_def all_wanted_def)
  have dist: "plans_once i \<Longrightarrow> distinct chosen" by (simp add: chosen_def planned_def waiting_def plans_once_def)
  show thesis
  proof (cases "cf_fuses c \<and> dr_predicts d \<noteq> [] \<or> waiting = [] \<or> planned = [] \<and> \<not> force")
    case True
    then have "dispatch_predict c i force d = (d, None)"
      by (auto simp: dispatch_predict_def waiting_def [symmetric] planned_def [symmetric] Let_def)
    moreover have "\<forall>gid < length (dr_groups d). \<not> is_wanted (dr_groups d ! gid)" if "force" "dr_predicts d = []"
    proof -
      have "waiting = []" using True that by auto
      then show ?thesis by (auto simp: waiting_def filter_empty_conv)
    qed
    ultimately show thesis by (rule skip)
  next
    case False
    show thesis
    proof (rule issue [OF _ w dist])
      show "chosen \<noteq> []" using False by (auto simp: chosen_def)
      show "dispatch_predict c i force d =
        (if cf_fuses c then predict_for c chosen d else for_each (\<lambda>gid. predict_for c [gid]) chosen d)"
        using False by (auto simp: dispatch_predict_def waiting_def [symmetric] planned_def [symmetric]
            chosen_def Let_def)
    qed
  qed
qed

lemma dispatch_predict_ok:
  assumes ok: "drv_ok c d"
  shows "dispatch_predict c i force d = (d', None) \<Longrightarrow> drv_ok c d'"
    and "dispatch_predict c i force d = (d', None) \<Longrightarrow> force \<Longrightarrow> dr_predicts d = [] \<Longrightarrow>
      gid < length (dr_groups d) \<Longrightarrow> is_wanted (dr_groups d ! gid) \<Longrightarrow> dr_predicts d' \<noteq> []"
    and "plans_once i \<Longrightarrow> \<exists>d'. dispatch_predict c i force d = (d', None)"
proof -
  show "dispatch_predict c i force d = (d', None) \<Longrightarrow> drv_ok c d'"
    by (rule dispatch_predict_cases [of c i force d])
      (use ok predict_for_success(1) [OF ok] predict_each_success [OF ok] in \<open>auto split: if_splits\<close>)
  show "dispatch_predict c i force d = (d', None) \<Longrightarrow> force \<Longrightarrow> dr_predicts d = [] \<Longrightarrow>
      gid < length (dr_groups d) \<Longrightarrow> is_wanted (dr_groups d ! gid) \<Longrightarrow> dr_predicts d' \<noteq> []"
    by (rule dispatch_predict_cases [of c i force d])
      (use predict_for_success(7) [OF ok] predict_each_success [OF ok] in \<open>auto split: if_splits\<close>)
  show "plans_once i \<Longrightarrow> \<exists>d'. dispatch_predict c i force d = (d', None)"
    by (rule dispatch_predict_cases [of c i force d])
      (use predict_for_total predict_each_total [OF _ _ ok] in \<open>auto split: if_splits\<close>)
qed

section \<open>Applying a finished predict\<close>

lemma latest_request_some:
  assumes "g_obs_msg g = Some m" "cf_deliver_history c \<longrightarrow> last_step (g_history g) = pq_step m"
  shows "\<exists>msg g' agg'. latest_request c g agg = (Some msg, g', agg')"
  using assms by (simp add: latest_request_def Let_def)

lemma land_predict_ok:
  assumes ok: "group_ok c g oper True" and fr: "frames \<noteq> []"
    and land: "land_predict c g frames agg = (g', agg')"
  shows "group_ok c g' oper False"
proof (cases "g_predict g")
  case (PInFlight stale)
  have busy: "g_phase g \<noteq> Idle" using ok PInFlight by (auto simp: group_ok_def)
  show ?thesis
  proof (cases "stale \<and> g_phase g = Ready")
    case True
    then obtain m where "g_obs_msg g = Some m" "cf_deliver_history c \<longrightarrow> last_step (g_history g) = pq_step m"
      and empty: "g_replay g = []"
      using ok PInFlight by (auto simp: group_ok_def)
    then obtain msg g1 agg1 where lr: "latest_request c g agg = (Some msg, g1, agg1)"
      using latest_request_some by blast
    from land PInFlight True lr empty have "g' = g1\<lparr>g_predict := PWanted msg\<rparr>" by (simp add: land_predict_def)
    then show ?thesis using latest_request_group [OF lr] ok True
      by (simp add: group_ok_def is_in_flight_def)
  next
    case False
    then show ?thesis using land PInFlight ok fr busy
      by (auto simp: land_predict_def group_ok_def is_in_flight_def split: if_splits)
  qed
qed (use ok land in \<open>auto simp: land_predict_def group_ok_def is_in_flight_def\<close>)

text \<open>The invariant while the requests \<open>rest\<close> of a finished predict are still to be applied.\<close>

definition drv_ok_with :: "cfg \<Rightarrow> nat list \<Rightarrow> drv \<Rightarrow> bool" where
  "drv_ok_with c rest d \<longleftrightarrow>
     distinct (map eo_gid (dr_env_ops d)) \<and> distinct (flying (dr_predicts d) @ rest) \<and>
     (\<forall>gid \<in> set (map eo_gid (dr_env_ops d)) \<union> set (flying (dr_predicts d) @ rest). gid < length (dr_groups d)) \<and>
     (\<forall>gid < length (dr_groups d). group_ok c (dr_groups d ! gid) (env_kind (dr_env_ops d) gid)
        (gid \<in> set (flying (dr_predicts d) @ rest)))"

lemma drv_ok_with_Nil: "drv_ok_with c [] d \<longleftrightarrow> drv_ok c d"
  by (simp add: drv_ok_with_def drv_ok_def)

lemma drv_ok_take_predict:
  assumes ok: "drv_ok c d" and k: "k < length (dr_predicts d)"
  shows "drv_ok_with c (map fst (po_requests (dr_predicts d ! k)))
    (d\<lparr>dr_predicts := remove_nth k (dr_predicts d)\<rparr>)"
proof -
  define xs op ys where "xs = take k (dr_predicts d)" and "op = dr_predicts d ! k" and "ys = drop (Suc k) (dr_predicts d)"
  have ps: "dr_predicts d = xs @ op # ys" using remove_nth_split [OF k] by (simp add: xs_def op_def ys_def)
  have rm: "remove_nth k (dr_predicts d) = xs @ ys" by (simp add: remove_nth_def xs_def ys_def)
  have fl: "flying (dr_predicts d) = flying xs @ map fst (po_requests op) @ flying ys" by (simp add: ps flying_def)
  have set_eq: "set (flying (dr_predicts d)) = set (flying (xs @ ys) @ map fst (po_requests op))"
    by (auto simp: fl flying_append)
  have "distinct (flying (xs @ ys) @ map fst (po_requests op))"
    using drv_okD(2) [OF ok] by (auto simp: fl flying_append)
  then show ?thesis
    using ok set_eq unfolding drv_ok_with_def drv_ok_def op_def [symmetric]
    by (simp only: rm drv.simps) simp
qed

lemma apply_prediction_effect:
  assumes "apply_prediction c n rpc (first, (gid, msg, bytes), res) d = (d', None)"
  obtains frames agg0 g agg where "gid < length (dr_groups d)" "frames \<noteq> []"
    "land_predict c ((dr_groups d ! gid)\<lparr>g_pending_predict := g_pending_predict (dr_groups d ! gid) + rpc\<rparr>)
       (frames) agg0 = (g, agg)"
    "dr_groups d' = (dr_groups d)[gid := g]" "dr_env_ops d' = dr_env_ops d" "dr_predicts d' = dr_predicts d"
    "dr_route d' = dr_route d" "dr_minted d' = dr_minted d"
    "dr_pending_evictions d' = dr_pending_evictions d
        @ map snd (filter (\<lambda>(held, _). held = gid) (dr_held_evictions d))"
    "dr_held_evictions d' = filter (\<lambda>(held, _). held \<noteq> gid) (dr_held_evictions d)"
proof -
  from assms obtain p where res: "res = Inr p" "pp_context (pd_response p) = pq_context msg"
    and fr: "pp_actions (pd_response p) \<noteq> []"
    by (auto simp: apply_prediction_def Let_def split: sum.splits if_splits)
  define d1 where "d1 = (if first then record_predict_op c n rpc bytes p d else d)"
  have d1: "dr_groups d1 = dr_groups d" "dr_env_ops d1 = dr_env_ops d" "dr_predicts d1 = dr_predicts d"
    "dr_route d1 = dr_route d" "dr_minted d1 = dr_minted d"
    "dr_pending_evictions d1 = dr_pending_evictions d" "dr_held_evictions d1 = dr_held_evictions d"
    by (simp_all add: d1_def record_predict_op_def)
  have lt: "gid < length (dr_groups d)"
    using assms res fr d1(1) by (auto simp: apply_prediction_def d1_def [symmetric] nth_opt_eq split: if_splits)
  obtain g agg where land: "land_predict c
      ((dr_groups d ! gid)\<lparr>g_pending_predict := g_pending_predict (dr_groups d ! gid) + rpc\<rparr>)
      (pp_actions (pd_response p)) (dr_agg d1) = (g, agg)" by fastforce
  have "d' = release_held gid (set_group gid g (d1\<lparr>dr_agg := agg\<rparr>))"
    using assms res fr lt land d1(1) by (simp add: apply_prediction_def d1_def [symmetric] nth_opt_eq)
  then show thesis using lt fr land d1 by (intro that [of "pp_actions (pd_response p)"]) (simp_all add: release_held_def)
qed

lemma apply_prediction_ok:
  assumes ok: "drv_ok_with c (gid # rest) d"
  shows "apply_prediction c n rpc (first, (gid, msg, bytes), res) d = (d', None) \<Longrightarrow> drv_ok_with c rest d'"
    and "apply_prediction c n rpc (first, (gid, msg, bytes), res) d = (d', Some f) \<Longrightarrow> \<exists>e. f = Err e"
proof -
  have lt: "gid < length (dr_groups d)" using ok by (simp add: drv_ok_with_def)
  have gok: "group_ok c (dr_groups d ! gid) (env_kind (dr_env_ops d) gid) True"
    using ok lt unfolding drv_ok_with_def by (metis list.set_intros(1) set_append UnI2)
  have new: "gid \<notin> set (flying (dr_predicts d) @ rest)" using ok by (simp add: drv_ok_with_def)
  show "\<exists>e. f = Err e" if "apply_prediction c n rpc (first, (gid, msg, bytes), res) d = (d', Some f)"
    using that lt by (auto simp: apply_prediction_def nth_opt_eq Let_def record_predict_op_def
        split: sum.splits if_splits prod.splits)
  assume run: "apply_prediction c n rpc (first, (gid, msg, bytes), res) d = (d', None)"
  let ?g0 = "(dr_groups d ! gid)\<lparr>g_pending_predict := g_pending_predict (dr_groups d ! gid) + rpc\<rparr>"
  from apply_prediction_effect [OF run] obtain frames g agg agg0 where fr: "frames \<noteq> []"
    and land: "land_predict c ?g0 frames agg0 = (g, agg)"
    and e: "dr_groups d' = (dr_groups d)[gid := g]" "dr_env_ops d' = dr_env_ops d" "dr_predicts d' = dr_predicts d"
    by metis
  have "group_ok c ?g0 (env_kind (dr_env_ops d) gid) True" using gok by (simp add: group_ok_def is_in_flight_def)
  then have gok': "group_ok c g (env_kind (dr_env_ops d) gid) False" using fr land by (rule land_predict_ok)
  have "group_ok c (dr_groups d' ! k) (env_kind (dr_env_ops d') k) (k \<in> set (flying (dr_predicts d') @ rest))"
    if "k < length (dr_groups d')" for k
    using ok that gok' new lt by (cases "k = gid") (auto simp: drv_ok_with_def e)
  then show "drv_ok_with c rest d'" using ok by (auto simp: drv_ok_with_def e)
qed

lemma apply_predictions_ok:
  assumes "drv_ok_with c (map (\<lambda>(_, rq, _). fst rq) items) d"
  shows "for_each (apply_prediction c n rpc) items d = (d', None) \<Longrightarrow> drv_ok c d'"
    and "for_each (apply_prediction c n rpc) items d = (d', Some f) \<Longrightarrow> \<exists>e. f = Err e"
  using assms
proof (induction items arbitrary: d)
  case (Cons x items)
  obtain first gid msg bytes res where x: "x = (first, (gid, msg, bytes), res)" by (cases x) auto
  {
    case 1
    then obtain d1 where d1: "apply_prediction c n rpc x d = (d1, None)"
      "for_each (apply_prediction c n rpc) items d1 = (d', None)" by (auto simp: and_then_None_iff)
    have "drv_ok_with c (map (\<lambda>(_, rq, _). fst rq) items) d1"
      using apply_prediction_ok(1) [OF _ d1(1) [unfolded x]] 1(2) by (simp add: x)
    then show ?case by (rule Cons.IH(1) [OF d1(2)])
  next
    case 2
    show ?case
    proof (cases "snd (apply_prediction c n rpc x d)")
      case None
      then obtain d1 where d1: "apply_prediction c n rpc x d = (d1, None)" by (cases "apply_prediction c n rpc x d") simp
      have "drv_ok_with c (map (\<lambda>(_, rq, _). fst rq) items) d1"
        using apply_prediction_ok(1) [OF _ d1 [unfolded x]] 2(2) by (simp add: x)
      moreover have "for_each (apply_prediction c n rpc) items d1 = (d', Some f)" using 2(1) d1 by simp
      ultimately show ?thesis using Cons.IH(2) by blast
    next
      case (Some e1)
      then obtain d1 where d1: "apply_prediction c n rpc x d = (d1, Some e1)" by (cases "apply_prediction c n rpc x d") simp
      then have "f = e1" using 2(1) by simp
      then show ?thesis using apply_prediction_ok(2) [OF _ d1 [unfolded x]] 2(2) by (simp add: x)
    qed
  }
qed (auto simp: drv_ok_with_Nil)

lemma predict_wake_ok:
  assumes ok: "drv_ok c d" and k: "k < length (dr_predicts d)"
    and run: "on_predict_outcome c (po_requests (dr_predicts d ! k)) rpc result
          (d\<lparr>dr_predicts := remove_nth k (dr_predicts d)\<rparr>) = (d', fo)"
  shows "fo = None \<Longrightarrow> drv_ok c d'" and "fo = Some f \<Longrightarrow> \<exists>e. f = Err e"
proof -
  let ?reqs = "po_requests (dr_predicts d ! k)"
  have items: "map (\<lambda>(_, rq, _). fst rq) (zip (map (\<lambda>k. k = 0) [0..<length ?reqs]) (zip ?reqs results)) = map fst ?reqs"
    if "length results = length ?reqs" for results :: "(runtime_error + prediction) list"
    using that by (intro nth_equalityI) auto
  consider (err) e where "fo = Some (Err e)"
    | (each) results where "length results = length ?reqs"
        "for_each (apply_prediction c (length ?reqs) rpc)
          (zip (map (\<lambda>k. k = 0) [0..<length ?reqs]) (zip ?reqs results))
          (d\<lparr>dr_predicts := remove_nth k (dr_predicts d)\<rparr>) = (d', fo)"
    using run by (auto simp: on_predict_outcome_def split: sum.splits if_splits)
  then have "(fo = None \<longrightarrow> drv_ok c d') \<and> (\<forall>f. fo = Some f \<longrightarrow> (\<exists>e. f = Err e))"
  proof cases
    case (each results)
    have "drv_ok_with c (map (\<lambda>(_, rq, _). fst rq)
        (zip (map (\<lambda>k. k = 0) [0..<length ?reqs]) (zip ?reqs results)))
        (d\<lparr>dr_predicts := remove_nth k (dr_predicts d)\<rparr>)"
      unfolding items [OF each(1)] by (rule drv_ok_take_predict [OF ok k])
    note a = apply_predictions_ok [OF this, of "length ?reqs" rpc d']
    show ?thesis
    proof (cases fo)
      case None
      then show ?thesis using a(1) each(2) by simp
    next
      case (Some f)
      then show ?thesis using a(2) [of f] each(2) by simp
    qed
  qed simp
  then show "fo = None \<Longrightarrow> drv_ok c d'" and "fo = Some f \<Longrightarrow> \<exists>e. f = Err e" by blast+
qed

section \<open>Where the handlers may fault\<close>

text \<open>The faults an env reply can cause: an error, or one of the two arithmetic overflows.\<close>

definition reply_fault :: "fault \<Rightarrow> bool" where
  "reply_fault f \<longleftrightarrow> (\<exists>e. f = Err e) \<or> f = Panic TrialOverflow \<or> f = Panic DurationOverflow"

lemma reply_fault_Err [simp]: "reply_fault (Err e)"
  by (simp add: reply_fault_def)

lemma capped_lanes_defined:
  "lane + length slots \<le> width \<Longrightarrow> capped_lanes c now env_done infos width lane slots \<noteq> None"
  by (induction slots arbitrary: lane)
    (auto simp: lane_final_info_defined split: option.splits dest!: lane_final_info_defined)

lemma slots_at_length: "length (slots_at positions r) \<le> length positions"
  by (induction positions) (auto simp: slots_at_def split: option.splits)

lemma account_step_total: "\<exists>completed d1. account_step c i gid g resp rpc d = (Inr completed, d1)"
proof -
  have "capped_completions c now ps live infos r \<noteq> None" for now ps live infos r
    using capped_lanes_defined [of 0 "slots_at ps r" "length ps"] slots_at_length [of ps r]
    by (simp add: capped_completions_def)
  then show ?thesis by (auto simp: account_step_def Let_def split: option.splits)
qed

lemma on_step_faults:
  assumes btw: "between_at c gid d" and run: "on_step c i gid resp rpc d = (d', Some f)"
  shows "reply_fault f"
proof -
  have lt: "gid < length (dr_groups d)" using btw by (simp add: between_at_def)
  define ctx where "ctx = group_context (g_positions (dr_groups d ! gid)) (g_lane_group (dr_groups d ! gid)) (dr_route d)"
  obtain completed d1 where acc: "account_step c i gid (dr_groups d ! gid) resp rpc d = (Inr completed, d1)"
    using account_step_total by blast
  have b4: "between_at c gid (after_step c i gid ctx completed d1)"
    by (intro after_step_between account_step_between [OF btw acc])
  then have lt4: "gid < length (dr_groups (after_step c i gid ctx completed d1))" by (simp add: between_at_def)
  from run lt acc consider "f = Panic DurationOverflow"
    | "begin_reset c gid False (after_step c i gid ctx completed d1) = (d', Some f)"
    | ob infos where "observe c i gid ob infos StepObservation False (after_step c i gid ctx completed d1) = (d', Some f)"
    by (auto simp: on_step_def nth_opt_eq after_step_def ctx_def Let_def split: if_splits)
  then show ?thesis
    using begin_reset_faults [OF _ b4] observe_faults [OF _ lt4] by cases (auto simp: reply_fault_def)
qed

lemma on_reset_faults:
  assumes "gid < length (dr_groups d)" "g_pending_start (dr_groups d ! gid) \<noteq> None"
    and "on_reset c i gid initial resp rpc d = (d', Some f)"
  shows "reply_fault f"
proof -
  from assms obtain d3 ob infos where "observe c i gid ob infos ResetObservation True d3 = (d', Some f)"
    "length (dr_groups d3) = length (dr_groups d)"
    by (auto simp: on_reset_def nth_opt_eq Let_def split: option.splits prod.splits if_splits)
  then show ?thesis using observe_faults assms(1) by (metis reply_fault_Err)
qed

lemma env_wake_faults:
  assumes ok: "drv_ok c d" and k: "k < length (dr_env_ops d)" and fits: "result_fits (dr_env_ops d ! k) result"
    and run: "on_env_outcome c i (dr_env_ops d ! k) rpc result
        (d\<lparr>dr_env_ops := remove_nth k (dr_env_ops d)\<rparr>) = (d', Some f)"
  shows "reply_fault f"
proof -
  define op where "op = dr_env_ops d ! k"
  define gid where "gid = eo_gid op"
  define g where "g = dr_groups d ! gid"
  define d0 where "d0 = d\<lparr>dr_env_ops := remove_nth k (dr_env_ops d)\<rparr>"
  note rm = env_kind_remove [OF k drv_okD(1) [OF ok]]
  have lt: "gid < length (dr_groups d)" using drv_okD(3) [OF ok, of gid] k by (simp add: gid_def op_def)
  have gok: "group_ok c g (Some (is_reset_op op)) (gid \<in> set (flying (dr_predicts d)))"
    using drv_okD(5) [OF ok lt] rm(2) by (simp add: g_def gid_def op_def)
  have g0: "nth_opt (dr_groups d0) gid = Some g" using lt by (simp add: nth_opt_eq d0_def g_def)
  let ?d1 = "set_group gid (g\<lparr>g_env := True\<rparr>) d0"
  have r: "on_env_outcome c i op rpc result d0 = (d', Some f)" using run by (simp add: op_def d0_def)
  show ?thesis
  proof (cases "is_reset_op op")
    case True
    have pend: "g_pending_start g \<noteq> None"
      using gok True by (auto simp: group_ok_def phase_op_def split: env_phase.splits)
    from True fits r g0 consider e where "f = Err e"
      | initial resp agg where "on_reset c i gid initial resp rpc (on_agg agg ?d1) = (d', Some f)"
      by (auto simp: on_env_outcome_def Let_def result_fits_def is_reset_op_def gid_def [symmetric] op_def [symmetric]
          split: env_op_kind.splits env_result.splits sum.splits)
    then show ?thesis
    proof cases
      case (2 initial resp agg)
      show ?thesis by (rule on_reset_faults [OF _ _ 2]) (use lt pend in \<open>simp_all add: d0_def\<close>)
    qed simp
  next
    case False
    have "between (g\<lparr>g_env := True\<rparr>) (gid \<in> set (flying (dr_predicts d)))"
      using gok False by (cases "g_pending_start g") (auto simp: group_ok_def between_def is_in_flight_def phase_op_def split: env_phase.splits)
    moreover have "drv_ok_but c gid ?d1"
      using ok rm(1,3,4) by (auto simp: drv_ok_but_def drv_ok_def d0_def gid_def op_def)
    ultimately have btw: "between_at c gid (on_agg agg ?d1)" for agg
      using lt rm(1) [of gid] by (simp add: between_at_def d0_def drv_ok_but_def gid_def op_def)
    from False fits r g0 consider e where "f = Err e"
      | resp agg where "on_step c i gid resp rpc (on_agg agg ?d1) = (d', Some f)"
      by (auto simp: on_env_outcome_def Let_def result_fits_def is_reset_op_def gid_def [symmetric] op_def [symmetric]
          split: env_op_kind.splits env_result.splits sum.splits)
    then show ?thesis
    proof cases
      case (2 resp agg)
      show ?thesis by (rule on_step_faults [OF btw 2])
    qed simp
  qed
qed

section \<open>Start-up\<close>

definition started_upto :: "cfg \<Rightarrow> nat \<Rightarrow> drv \<Rightarrow> bool" where
  "started_upto c n d \<longleftrightarrow>
     dr_predicts d = [] \<and> length (dr_groups d) = length (driver_groups c) \<and>
     distinct (map eo_gid (dr_env_ops d)) \<and> (\<forall>gid \<in> set (map eo_gid (dr_env_ops d)). gid < n) \<and>
     (\<forall>gid < n. group_ok c (dr_groups d ! gid) (env_kind (dr_env_ops d) gid) False) \<and>
     (\<forall>gid < length (driver_groups c). n \<le> gid \<longrightarrow> dr_groups d ! gid = driver_groups c ! gid)"

lemma group_new_idle:
  "gid < length (driver_groups c) \<Longrightarrow> between (driver_groups c ! gid) False"
  by (simp add: driver_groups_def group_new_def Let_def between_def is_in_flight_def)

lemma begin_reset_started:
  assumes st: "started_upto c n d" and n: "n < length (driver_groups c)"
    and run: "begin_reset c n initial d = (d', None)"
  shows "started_upto c (Suc n) d'"
proof -
  have lt: "n < length (dr_groups d)" and g: "dr_groups d ! n = driver_groups c ! n"
    using st n by (simp_all add: started_upto_def)
  have btw: "between (dr_groups d ! n) False" using group_new_idle [OF n] g by simp
  have fresh: "n \<notin> set (map eo_gid (dr_env_ops d))" using st by (auto simp: started_upto_def)
  then have none: "env_kind (dr_env_ops d) n = None" by (simp add: env_kind_None_iff)
  from run lt show ?thesis
  proof (cases rule: begin_reset_cases)
    case (idle rt)
    have "group_ok c ((dr_groups d ! n)\<lparr>g_phase := Idle, g_predict := PNone\<rparr>) None False"
      using btw by (auto simp: group_ok_def between_def phase_op_def is_in_flight_def)
    then show ?thesis using st none lt idle(2)
      by (auto simp: started_upto_def less_Suc_eq nth_list_update)
  next
    case (reset slots rt1 ids seeds trials g rt op)
    have "group_ok c (g\<lparr>g_env := False, g_phase := Resetting\<rparr>) (Some True) False"
      using btw stage_reset_group [OF reset(4)] by (auto simp: group_ok_def between_def phase_op_def is_in_flight_def)
    moreover have "env_kind (dr_env_ops d @ [op]) k = (if k = n then Some True else env_kind (dr_env_ops d) k)" for k
      using none reset(6,7) by (auto simp: env_kind_append split: option.splits)
    ultimately show ?thesis using st lt reset(6-10) fresh
      by (auto simp: started_upto_def less_Suc_eq nth_list_update)
  qed
qed

lemma relay_contract_frame: "relay_contract c d = (d', fo) \<Longrightarrow> same_core d d'"
  by (auto simp: relay_contract_def same_core_def split: option.splits relay_decision.splits)

lemma start_loop_ok:
  assumes "start_loop c (drv_new c now) = (d, None)"
  shows "drv_ok c d"
proof -
  from assms obtain dc where rc: "relay_contract c (emit (SessionStarted (ro_session_id (dr_route (drv_new c now)))
        (route_env_context (dr_route (drv_new c now))) (ss_env_id (cf_spec c))) (drv_new c now)) = (dc, None)"
    and run: "for_each (\<lambda>gid. begin_reset c gid True) [0..<length (driver_groups c)]
        (dc\<lparr>dr_groups := driver_groups c\<rparr>) = (d, None)"
    by (auto simp: start_loop_def and_then_None_iff Let_def)
  have d1: "dr_env_ops dc = []" "dr_predicts dc = []"
    using relay_contract_frame [OF rc] by (simp_all add: same_core_def drv_new_def)
  have "started_upto c (length (driver_groups c)) d"
    by (rule for_each_upt [where P = "started_upto c", OF run])
      (use d1 begin_reset_started in \<open>auto simp: started_upto_def [of c 0]\<close>)
  then show ?thesis by (auto simp: started_upto_def drv_ok_def flying_def)
qed

end
