(* ===== verification/DriverShape.thy ===== *)
theory DriverShape
  imports DriverRun
begin

text \<open>
  What no handler changes: the lanes and slot positions of each group, the env index of each slot
  and the episode budget of the route. The partition the session starts with is therefore the
  partition of every later state: disjoint, aligned with the slots and within them.
\<close>

section \<open>The route\<close>

definition route_shape :: "route \<Rightarrow> int list \<times> nat option" where
  "route_shape r = (map sl_env_index (ro_slots r), ro_max_episodes r)"

named_theorems shape

lemma shape_slot_update:
  "pos < length (ro_slots r) \<Longrightarrow> sl_env_index s = sl_env_index (ro_slots r ! pos) \<Longrightarrow>
   route_shape (r\<lparr>ro_slots := (ro_slots r)[pos := s]\<rparr>) = route_shape r"
  by (simp add: route_shape_def map_update list_update_same_conv)

lemma shape_fold: "(\<And>x r. route_shape (f x r) = route_shape r) \<Longrightarrow> route_shape (fold f xs r) = route_shape r"
  by (induction xs arbitrary: r) simp_all

lemma shape_route_updates [shape]:
  "route_shape (mark_surplus e r) = route_shape r" "route_shape (note_episode_seeds ids ss r) = route_shape r"
  "route_shape (note_episode_trials ids ts r) = route_shape r"
  "route_shape (fold mark_surplus es r) = route_shape r"
  "route_shape (r\<lparr>ro_records := reg\<rparr>) = route_shape r" "route_shape (r\<lparr>ro_next_slot := n\<rparr>) = route_shape r"
  "route_shape (r\<lparr>ro_total_steps := t\<rparr>) = route_shape r"
  "route_shape (drop_episode e' r) = route_shape r" "route_shape (record_episode_summary su r) = route_shape r"
proof -
  show m: "route_shape (mark_surplus e r) = route_shape r" for e r
    by (simp add: mark_surplus_def route_shape_def)
  show "route_shape (fold mark_surplus es r) = route_shape r" by (rule shape_fold) (rule m)
qed (simp_all add: note_episode_seeds_def note_episode_trials_def route_shape_def
      drop_episode_def record_episode_summary_def split: option.splits)

lemma shape_step_lane [shape]: "route_shape (step_lane rw a b x r) = route_shape r"
  by (cases x) (auto simp: step_lane_def nth_opt_eq intro!: shape_slot_update split: option.splits if_splits)

lemma shape_record_step [shape]: "route_shape (record_step_at ps rw a b r) = route_shape r"
  unfolding record_step_at_def by (subst shape_fold) (simp_all add: shape)

lemma shape_sync_lane [shape]: "route_shape (sync_lane now ids rids b auto x r) = route_shape r"
proof (cases x)
  case (Pair index pos)
  show ?thesis
  proof (cases "pos < length (ro_slots r)")
    case True
    let ?s = "sync_slot (ro_records r) (now index) b auto (case nth_opt ids index of None \<Rightarrow> [] | Some e \<Rightarrow> e)
        (case nth_opt rids index of None \<Rightarrow> [] | Some e \<Rightarrow> e) (ro_slots r ! pos)"
    obtain s' dropped where s: "?s = (s', dropped)" by (cases ?s)
    have "sl_env_index (fst ?s) = sl_env_index (ro_slots r ! pos)"
      by (simp add: sync_slot_def Let_def split: prod.splits)
    moreover have "nth_opt (ro_slots r) pos = Some (ro_slots r ! pos)" using True by (simp add: nth_opt_eq)
    ultimately show ?thesis using True s by (simp add: sync_lane_def Pair shape shape_slot_update)
  qed (simp add: sync_lane_def Pair nth_opt_eq)
qed

lemma shape_sync_slots [shape]: "route_shape (sync_slots now ps ids rids b auto r) = route_shape r"
  unfolding sync_slots_def by (rule shape_fold) (rule shape)

lemma shape_starts:
  "start_episodes_at now ps ids auto slots r = (st, r') \<Longrightarrow> route_shape r' = route_shape r"
  "observe_episode_ids_at now ps ids oslots r = (st, r') \<Longrightarrow> route_shape r' = route_shape r"
  by (auto simp: start_episodes_at_def observe_episode_ids_at_def Let_def shape split: prod.splits)

lemma shape_claims:
  "claim_for g r = (slots, r') \<Longrightarrow> route_shape r' = route_shape r"
  "claim_slots k b r = (cl, r') \<Longrightarrow> route_shape r' = route_shape r"
  by (auto simp: claim_for_def claim_slots_def claim_slots_upto_def Let_def shape
      split: if_splits option.splits prod.splits)

lemma shape_trials: "planned_trial_indices c k r = Some (ts, r') \<Longrightarrow> route_shape r' = route_shape r"
  by (auto simp: planned_trial_indices_def claim_trial_indices_def Let_def route_shape_def split: if_splits)

lemma shape_stage_reset: "stage_reset c b slots ids g r = Some (sd, ts, g', r') \<Longrightarrow> route_shape r' = route_shape r"
  by (auto simp: stage_reset_def Let_def shape dest!: shape_trials split: option.splits)

lemma shape_end_episode: "end_episode_at env_index r = (e, r') \<Longrightarrow> route_shape r' = route_shape r"
  by (auto simp: end_episode_at_def nth_opt_eq intro!: shape_slot_update split: option.splits if_splits)

lemma shape_end_all: "end_all idxs r = (ids, r') \<Longrightarrow> route_shape r' = route_shape r"
  by (induction idxs arbitrary: r ids r') (auto dest!: shape_end_episode split: prod.splits)

lemma shape_mark_predicted [shape]: "route_shape (mark_predicted ps r) = route_shape r"
  unfolding mark_predicted_def
  by (rule shape_fold) (auto simp: nth_opt_eq set_predicted_def intro!: shape_slot_update split: option.splits)

lemma shape_requests:
  "predict_request_at ps ob ph r = (m, r') \<Longrightarrow> route_shape r' = route_shape r"
  "reset_adapter_request ids r = (rq, r') \<Longrightarrow> route_shape r' = route_shape r"
  by (auto simp: predict_request_at_def reset_adapter_request_def adapter_context_for_def next_request_id_def
      Let_def route_shape_def split: prod.splits)

lemma shape_complete_one: "complete_one c ctx m r = (e, r') \<Longrightarrow> route_shape r' = route_shape r"
  by (auto simp: complete_one_def complete_episode_def record_episode_summary_def Let_def route_shape_def split: if_splits prod.splits)

lemma shape_complete_episodes: "complete_episodes c ctx ms r = (es, r') \<Longrightarrow> route_shape r' = route_shape r"
  by (induction c ctx ms r arbitrary: es r' rule: complete_episodes.induct)
    (auto dest!: shape_complete_one split: prod.splits)

lemma shape_claim_rolls: "claim_rolls roll lanes r = (cl, r') \<Longrightarrow> route_shape r' = route_shape r"
  by (induction roll lanes r arbitrary: cl r' rule: claim_rolls.induct)
    (auto dest!: shape_claims(2) split: prod.splits if_splits)

lemma shape_mark_unclaimed [shape]: "route_shape (mark_unclaimed roll lanes ids slots r) = route_shape r"
  unfolding mark_unclaimed_def by (rule shape_fold) (auto simp: shape split: prod.splits)

section \<open>The driver\<close>

definition lane_of :: "group \<Rightarrow> nat list \<times> nat list \<times> bool \<times> bool" where
  "lane_of g = (g_lanes g, g_positions g, g_lane_group g, g_whole g)"

definition drv_shape :: "drv \<Rightarrow> (nat list \<times> nat list \<times> bool \<times> bool) list \<times> int list \<times> nat option" where
  "drv_shape d = (map lane_of (dr_groups d), route_shape (dr_route d))"

lemma drv_shape_group:
  "dr_groups d' = (dr_groups d)[gid := g] \<Longrightarrow> (gid < length (dr_groups d) \<Longrightarrow> lane_of g = lane_of (dr_groups d ! gid)) \<Longrightarrow>
   route_shape (dr_route d') = route_shape (dr_route d) \<Longrightarrow> drv_shape d' = drv_shape d"
proof -
  assume g: "dr_groups d' = (dr_groups d)[gid := g]" and r: "route_shape (dr_route d') = route_shape (dr_route d)"
    and l: "gid < length (dr_groups d) \<Longrightarrow> lane_of g = lane_of (dr_groups d ! gid)"
  have "map lane_of ((dr_groups d)[gid := g]) = map lane_of (dr_groups d)"
    by (cases "gid < length (dr_groups d)") (use l in \<open>auto intro!: nth_equalityI simp: nth_list_update\<close>)
  then show ?thesis by (simp add: drv_shape_def g r)
qed

lemma drv_shape_same:
  "dr_groups d' = dr_groups d \<Longrightarrow> route_shape (dr_route d') = route_shape (dr_route d) \<Longrightarrow> drv_shape d' = drv_shape d"
  by (simp add: drv_shape_def)

lemma shape_begin_reset:
  assumes "begin_reset c gid initial d = (d', None)" "gid < length (dr_groups d)"
  shows "drv_shape d' = drv_shape d"
  using assms
proof (cases rule: begin_reset_cases)
  case (idle rt)
  then have g: "dr_groups d' = (dr_groups d)[gid := (dr_groups d ! gid)\<lparr>g_phase := Idle, g_predict := PNone\<rparr>]" by simp
  show ?thesis
    by (rule drv_shape_group [OF g]) (use idle in \<open>auto simp: lane_of_def dest: shape_claims(1)\<close>)
next
  case (reset slots rt1 ids seeds trials g rt op)
  then show ?thesis
    using stage_reset_group [OF reset(4)] shape_stage_reset [OF reset(4)] shape_claims(1) [OF reset(1)]
    by (intro drv_shape_group [OF reset(8)]) (auto simp: lane_of_def)
qed

lemma take_observation_lane: "take_observation c msg g agg = Inr (g', agg') \<Longrightarrow> lane_of g' = lane_of g"
  by (auto simp: take_observation_def Let_def lane_of_def split: if_splits)

lemma shape_observe:
  assumes "observe c i gid ob infos ph b d = (d', None)" "gid < length (dr_groups d)"
  shows "drv_shape d' = drv_shape d"
  using assms
proof (cases rule: observe_cases)
  case (1 msg rt g' agg)
  then show ?thesis
    by (intro drv_shape_group [OF 1(3)]) (auto dest: take_observation_lane shape_requests)
qed

lemma shape_queue: "route_shape (dr_route (queue_evictions gid g idxs d)) = route_shape (dr_route d)"
  by (auto simp: queue_evictions_def dest: shape_end_all split: prod.splits)

lemma shape_apply_roll:
  assumes "gid < length (dr_groups d)"
  shows "drv_shape (apply_roll i gid ctx (dr_groups d ! gid) d) = drv_shape d"
proof (rule drv_shape_group [OF apply_roll_group(1) [OF assms refl]])
  show "route_shape (dr_route (apply_roll i gid ctx (dr_groups d ! gid) d)) = route_shape (dr_route d)"
    by (auto simp: apply_roll_def Let_def shape shape_queue split: prod.splits
        dest!: shape_claim_rolls shape_starts(2))
qed (simp add: lane_of_def)

lemma shape_finish:
  assumes "gid < length (dr_groups d)"
  shows "drv_shape (finish_episodes c gid ctx completed (dr_groups d ! gid) d) = drv_shape d"
proof -
  from finish_episodes_group(1) [OF assms refl] obtain pc where
    g: "dr_groups (finish_episodes c gid ctx completed (dr_groups d ! gid) d)
        = (dr_groups d)[gid := (dr_groups d ! gid)\<lparr>g_pending_completed := pc\<rparr>]" by blast
  show ?thesis
    by (rule drv_shape_group [OF g])
      (auto simp: lane_of_def finish_episodes_def Let_def shape_queue dest: shape_complete_episodes split: prod.splits)
qed

lemma shape_flush_stale:
  assumes "gid < length (dr_groups d)"
  shows "drv_shape (flush_stale c gid completed (dr_groups d ! gid) d) = drv_shape d"
proof -
  from flush_stale_group(1) [OF assms refl, of c completed] obtain roll where
    g: "dr_groups (flush_stale c gid completed (dr_groups d ! gid) d) = (dr_groups d)[gid :=
       (if completed = [] then dr_groups d ! gid else (dr_groups d ! gid)\<lparr>g_replay := [],
          g_predict := (if is_in_flight (dr_groups d ! gid) then PInFlight True else PNone),
          g_pending_roll := roll\<rparr>)]" by blast
  show ?thesis
    by (rule drv_shape_group [OF g]) (simp_all add: lane_of_def flush_stale_group(4) [OF assms refl])
qed

lemma shape_account_step:
  assumes "account_step c i gid (dr_groups d ! gid) resp rpc d = (Inr completed, d1)"
  shows "drv_shape d1 = drv_shape d"
  by (rule drv_shape_group [OF account_step_group(1) [OF assms]])
    (simp_all add: lane_of_def account_step_group(4) [OF assms] shape)

lemma drv_shape_length: "drv_shape d' = drv_shape d \<Longrightarrow> length (dr_groups d') = length (dr_groups d)"
  using map_eq_imp_length_eq by (fastforce simp: drv_shape_def)

lemma shape_after_step:
  assumes "gid < length (dr_groups d)"
  shows "drv_shape (after_step c i gid ctx completed d) = drv_shape d"
proof -
  define d2 where "d2 = apply_roll i gid ctx (dr_groups d ! gid) d"
  define d3 where "d3 = finish_episodes c gid ctx completed (dr_groups d2 ! gid) d2"
  have 2: "drv_shape d2 = drv_shape d" unfolding d2_def by (rule shape_apply_roll [OF assms])
  then have lt2: "gid < length (dr_groups d2)" using drv_shape_length assms by metis
  have 3: "drv_shape d3 = drv_shape d2" unfolding d3_def by (rule shape_finish [OF lt2])
  then have lt3: "gid < length (dr_groups d3)" using drv_shape_length lt2 by metis
  show ?thesis
    using shape_flush_stale [OF lt3, of c completed] 2 3 by (simp add: after_step_def d2_def d3_def Let_def)
qed

lemma shape_stop_group:
  assumes "gid < length (dr_groups d)"
  shows "drv_shape (stop_group gid (dr_groups d ! gid) d) = drv_shape d"
  by (rule drv_shape_group [OF stop_group_group(1) [OF assms]])
    (simp_all add: lane_of_def stop_group_def Let_def shape_queue)

lemma shape_on_step:
  assumes "on_step c i gid resp rpc d = (d', None)" "gid < length (dr_groups d)"
  shows "drv_shape d' = drv_shape d"
  using assms
proof (cases rule: on_step_cases)
  case (1 completed d1 d4)
  have s1: "drv_shape d1 = drv_shape d" by (rule shape_account_step [OF 1(1)])
  then have lt1: "gid < length (dr_groups d1)" using drv_shape_length assms(2) by metis
  have s4: "drv_shape d4 = drv_shape d" unfolding 1(2) using shape_after_step [OF lt1] s1 by simp
  then have lt4: "gid < length (dr_groups d4)" using drv_shape_length assms(2) by metis
  show ?thesis
    using 1(3) s4 shape_stop_group [OF lt4] shape_begin_reset [OF _ lt4] shape_observe [OF _ lt4] by auto
qed

lemma shape_on_reset:
  assumes "on_reset c i gid initial resp rpc d = (d', None)" "gid < length (dr_groups d)"
  shows "drv_shape d' = drv_shape d"
proof -
  from assms obtain d3 ob infos where obs: "observe c i gid ob infos ResetObservation True d3 = (d', None)"
    and g: "dr_groups d3 = (dr_groups d)[gid := (dr_groups d ! gid)\<lparr>g_pending_start := None\<rparr>]"
    and "route_shape (dr_route d3) = route_shape (dr_route d)"
    by (auto simp: on_reset_def nth_opt_eq Let_def split: option.splits prod.splits if_splits
        dest!: shape_starts(1))
  then have "drv_shape d3 = drv_shape d" by (intro drv_shape_group [OF g]) (simp_all add: lane_of_def)
  moreover have "drv_shape d' = drv_shape d3" using shape_observe [OF obs] assms(2) g by simp
  ultimately show ?thesis by simp
qed

lemma shape_on_env_outcome:
  assumes "on_env_outcome c i op rpc result d = (d', None)" "eo_gid op < length (dr_groups d)"
  shows "drv_shape d' = drv_shape d"
proof -
  let ?d1 = "set_group (eo_gid op) ((dr_groups d ! eo_gid op)\<lparr>g_env := True\<rparr>) d"
  have "dr_groups ?d1 = (dr_groups d)[eo_gid op := (dr_groups d ! eo_gid op)\<lparr>g_env := True\<rparr>]" by simp
  then have s1: "drv_shape ?d1 = drv_shape d" by (rule drv_shape_group) (simp_all add: lane_of_def)
  then have s: "drv_shape (on_agg agg ?d1) = drv_shape d" "drv_shape ?d1 = drv_shape d" for agg
    by (simp_all add: drv_shape_def)
  have lt: "eo_gid op < length (dr_groups (on_agg agg ?d1))" for agg using assms(2) by simp
  show ?thesis
  proof (cases "eo_kind op")
    case (ResetOp initial rq)
    show ?thesis
    proof (cases result)
      case (ResetDone r)
      then show ?thesis using assms ResetOp shape_on_reset [OF _ lt] s
        by (cases r) (simp_all add: on_env_outcome_def nth_opt_eq Let_def)
    next
      case (StepDone r)
      then show ?thesis using assms ResetOp s
        by (cases r) (auto simp: on_env_outcome_def nth_opt_eq Let_def)
    qed
  next
    case (StepOp rq)
    show ?thesis
    proof (cases result)
      case (StepDone r)
      then show ?thesis using assms StepOp shape_on_step [OF _ lt] s
        by (cases r) (simp_all add: on_env_outcome_def nth_opt_eq Let_def)
    next
      case (ResetDone r)
      then show ?thesis using assms StepOp s
        by (cases r) (auto simp: on_env_outcome_def nth_opt_eq Let_def)
    qed
  qed
qed

lemma prefetch_lane: "prefetch c gid g d = (g2, d2) \<Longrightarrow> lane_of g2 = lane_of g \<and> dr_route d2 = dr_route d"
  by (auto simp: prefetch_def latest_request_def lane_of_def Let_def split: if_splits option.splits prod.splits)

lemma shape_dispatch_step:
  assumes "dispatch_step c i gid d = (d', None)" "gid < length (dr_groups d)"
  shows "drv_shape d' = drv_shape d"
proof -
  define g where "g = dr_groups d ! gid"
  have rf: "lane_of (refill g) = lane_of g"
    by (auto simp: refill_def lane_of_def split: list.splits predict_state.splits)
  from assms consider "d' = d" | "d' = set_group gid (refill g) d"
    | a rest g2 d2 where "prefetch c gid ((refill g)\<lparr>g_replay := rest\<rparr>) d = (g2, d2)" "send_step c i gid g2 a d2 = (d', None)"
    by (auto simp: dispatch_step_refill g_def split: if_splits list.splits prod.splits)
  then show ?thesis
  proof cases
    case 2
    then have "dr_groups d' = (dr_groups d)[gid := refill g]" by simp
    then show ?thesis by (rule drv_shape_group) (use rf 2 in \<open>simp_all add: g_def\<close>)
  next
    case (3 a rest g2 d2)
    have "lane_of ((refill g)\<lparr>g_replay := rest\<rparr>) = lane_of g" using rf by (simp add: lane_of_def)
    then have l2: "lane_of g2 = lane_of g" "dr_route d2 = dr_route d" using prefetch_lane [OF 3(1)] by auto
    have "dr_route d' = dr_route d2"
      using 3(2) by (auto simp: send_step_def Let_def same_core_def dest!: transform_action_frame
          split: prod.splits sum.splits if_splits)
    moreover have "dr_groups d' = (dr_groups d2)[gid := g2\<lparr>g_env := False, g_phase := Stepping\<rparr>]"
      using send_step_effect [OF 3(2)] by metis
    then have gs: "dr_groups d' = (dr_groups d)[gid := g2\<lparr>g_env := False, g_phase := Stepping\<rparr>]"
      by (simp add: prefetch_group(1) [OF 3(1)])
    ultimately show ?thesis using l2 by (intro drv_shape_group [OF gs]) (auto simp: lane_of_def g_def)
  qed simp
qed

lemma shape_gather: "gather c gids st acc d = (r, d') \<Longrightarrow> drv_shape d' = drv_shape d"
proof (induction c gids st acc d rule: gather.induct)
  case (2 c gid rest st acc d)
  have "drv_shape (set_route (mark_predicted ps (dr_route d)) (set_group gid ((dr_groups d ! gid)\<lparr>g_predict := p\<rparr>) d))
      = drv_shape d" (is "drv_shape ?d = _") for ps p
  proof -
    have "dr_groups ?d = (dr_groups d)[gid := (dr_groups d ! gid)\<lparr>g_predict := p\<rparr>]" by simp
    then show ?thesis by (rule drv_shape_group) (simp_all add: lane_of_def shape)
  qed
  then show ?case using 2 by (auto simp: nth_opt_eq Let_def split: if_splits predict_state.splits)
qed simp

lemma shape_predict_for:
  assumes "predict_for c gids d = (d', None)"
  shows "drv_shape d' = drv_shape d"
  using assms by (auto simp: predict_for_def drv_shape_def dest!: shape_gather split: prod.splits sum.splits)

lemma land_predict_lane: "land_predict c g frames agg = (g', agg') \<Longrightarrow> lane_of g' = lane_of g"
  by (auto simp: land_predict_def latest_request_def lane_of_def Let_def
      split: predict_state.splits if_splits option.splits prod.splits)

lemma shape_apply_prediction:
  assumes "apply_prediction c n rpc x d = (d', None)"
  shows "drv_shape d' = drv_shape d"
proof -
  obtain first gid msg bytes res where x: "x = (first, (gid, msg, bytes), res)" by (cases x) auto
  from apply_prediction_effect [OF assms [unfolded x]] obtain frames g agg agg0 where
    g: "land_predict c ((dr_groups d ! gid)\<lparr>g_pending_predict := g_pending_predict (dr_groups d ! gid) + rpc\<rparr>)
        frames agg0 = (g, agg)"
    and d': "dr_groups d' = (dr_groups d)[gid := g]" "dr_route d' = dr_route d"
    by metis
  show ?thesis using land_predict_lane [OF g] by (intro drv_shape_group [OF d'(1)]) (auto simp: lane_of_def d'(2))
qed

lemma shape_on_predict_outcome:
  assumes "on_predict_outcome c reqs rpc res d = (d', None)"
  shows "drv_shape d' = drv_shape d"
proof -
  from assms obtain items where run: "for_each (apply_prediction c (length reqs) rpc) items d = (d', None)"
    by (auto simp: on_predict_outcome_def split: sum.splits if_splits)
  show ?thesis
    by (rule for_each_ok [OF run, where P = "\<lambda>d1. drv_shape d1 = drv_shape d"])
      (auto dest: shape_apply_prediction)
qed

lemma shape_flush_evictions: "drv_shape (flush_evictions out d) = drv_shape d"
  by (auto simp: flush_evictions_def Let_def drv_shape_def dest: shape_requests(2)
      split: prod.splits evict_outcome.splits)

section \<open>The partition of the session\<close>

definition shape_ok :: "cfg \<Rightarrow> drv \<Rightarrow> bool" where
  "shape_ok c d \<longleftrightarrow> drv_shape d = (map lane_of (driver_groups c),
     map (\<lambda>k. sl_env_index (slot_new (\<lambda>_. 0) k)) [0..<max (ss_num_envs (cf_spec c)) 1],
     ss_max_episodes (cf_spec c))"

lemma shape_ok_cong: "drv_shape d' = drv_shape d \<Longrightarrow> shape_ok c d \<Longrightarrow> shape_ok c d'"
  by (simp add: shape_ok_def)

text \<open>
  Start-up as an induction: what holds once the contract has been relayed and the groups are made,
  and is kept by each first reset, holds when the loop begins.
\<close>

lemma start_loop_induct:
  assumes run: "start_loop c (drv_new c now) = (d, None)"
    and init: "\<And>dc. same_core (drv_new c now) dc \<Longrightarrow>
      (\<And>t. t \<in> set (dr_trace dc) \<Longrightarrow> (\<exists>s x e. t = SessionStarted s x e) \<or> (\<exists>s x l adv. t = RelayAdvised s x l adv)) \<Longrightarrow>
      P (dc\<lparr>dr_groups := driver_groups c\<rparr>)"
    and reset: "\<And>gid d1 d2. P d1 \<Longrightarrow> gid < length (dr_groups d1) \<Longrightarrow> begin_reset c gid True d1 = (d2, None) \<Longrightarrow> P d2"
  shows "P d"
proof -
  let ?d0 = "emit (SessionStarted (ro_session_id (dr_route (drv_new c now)))
      (route_env_context (dr_route (drv_new c now))) (ss_env_id (cf_spec c))) (drv_new c now)"
  from run obtain dc where rc: "relay_contract c ?d0 = (dc, None)"
    and loop: "for_each (\<lambda>gid. begin_reset c gid True) [0..<length (driver_groups c)]
        (dc\<lparr>dr_groups := driver_groups c\<rparr>) = (d, None)"
    by (auto simp: start_loop_def and_then_None_iff Let_def)
  have "same_core (drv_new c now) dc" using relay_contract_frame [OF rc] by (simp add: same_core_def)
  moreover have "(\<exists>s x e. t = SessionStarted s x e) \<or> (\<exists>s x l adv. t = RelayAdvised s x l adv)" if "t \<in> set (dr_trace dc)" for t
    using rc that by (auto simp: relay_contract_def raise_advisory_def emit_def drv_new_def
        split: option.splits relay_decision.splits if_splits)
  ultimately have "P (dc\<lparr>dr_groups := driver_groups c\<rparr>)" by (rule init)
  moreover have "P d2 \<and> length (dr_groups d2) = length (driver_groups c)"
    if "gid \<in> set [0..<length (driver_groups c)]" "begin_reset c gid True d1 = (d2, None)"
      "P d1 \<and> length (dr_groups d1) = length (driver_groups c)" for gid d1 d2
    using that reset [of d1 gid d2] drv_shape_length [OF shape_begin_reset, of c gid True d1 d2] by simp
  ultimately have "P d \<and> length (dr_groups d) = length (driver_groups c)"
    by (intro for_each_ok [OF loop, where P = "\<lambda>d. P d \<and> length (dr_groups d) = length (driver_groups c)"]) auto
  then show ?thesis by simp
qed

lemma shape_ok_start: "start_loop c (drv_new c now) = (d, None) \<Longrightarrow> shape_ok c d"
proof (erule start_loop_induct)
  fix dc assume "same_core (drv_new c now) dc"
  then have "dr_route dc = route_new now (cf_spec c)" by (simp add: same_core_def drv_new_def)
  then show "shape_ok c (dc\<lparr>dr_groups := driver_groups c\<rparr>)"
    by (simp add: shape_ok_def drv_shape_def route_shape_def route_new_def slot_new_def comp_def)
qed (rule shape_ok_cong [OF shape_begin_reset])

lemma shape_lane:
  assumes "shape_ok c d" "gid < length (dr_groups d)"
  shows "lane_of (dr_groups d ! gid) = lane_of (driver_groups c ! gid)" "gid < length (driver_groups c)"
proof -
  have m: "map lane_of (dr_groups d) = map lane_of (driver_groups c)"
    using assms(1) by (simp add: shape_ok_def drv_shape_def)
  then show lt: "gid < length (driver_groups c)" using assms(2) map_eq_imp_length_eq by fastforce
  show "lane_of (dr_groups d ! gid) = lane_of (driver_groups c ! gid)"
    using m assms(2) lt nth_map [of gid "dr_groups d" lane_of] nth_map [of gid "driver_groups c" lane_of] by simp
qed

lemma shape_positions:
  assumes "shape_ok c d" "gid < length (dr_groups d)"
  shows "g_positions (dr_groups d ! gid) = g_lanes (dr_groups d ! gid)"
    "distinct (g_positions (dr_groups d ! gid))" "g_positions (dr_groups d ! gid) \<noteq> []"
    "p \<in> set (g_positions (dr_groups d ! gid)) \<Longrightarrow> p < length (ro_slots (dr_route d))"
    "g_width (dr_groups d ! gid) = length (g_positions (dr_groups d ! gid))"
proof -
  note l = shape_lane [OF assms]
  have lanes: "g_lanes (dr_groups d ! gid) = lane_partitions c ! gid"
    "g_positions (dr_groups d ! gid) = lane_partitions c ! gid"
    using l by (simp_all add: lane_of_def driver_groups_def group_new_def Let_def)
  have lt: "gid < length (lane_partitions c)" using l(2) by (simp add: driver_groups_def)
  have len: "length (ro_slots (dr_route d)) = max (ss_num_envs (cf_spec c)) 1"
    using assms(1) map_eq_imp_length_eq by (fastforce simp: shape_ok_def drv_shape_def route_shape_def)
  show "g_positions (dr_groups d ! gid) = g_lanes (dr_groups d ! gid)" by (simp add: lanes)
  show "g_width (dr_groups d ! gid) = length (g_positions (dr_groups d ! gid))" by (simp add: lanes g_width_def)
  have "distinct (lane_partitions c ! gid) \<and> lane_partitions c ! gid \<noteq> [] \<and>
      (p \<in> set (lane_partitions c ! gid) \<longrightarrow> p < max (ss_num_envs (cf_spec c)) 1)"
    using lt by (auto simp: lane_partitions_def Let_def split: if_splits)
  then show "distinct (g_positions (dr_groups d ! gid))" "g_positions (dr_groups d ! gid) \<noteq> []"
    "p \<in> set (g_positions (dr_groups d ! gid)) \<Longrightarrow> p < length (ro_slots (dr_route d))"
    by (simp_all add: lanes len)
qed

lemma shape_disjoint:
  assumes "shape_ok c d" "gid < length (dr_groups d)" "gid' < length (dr_groups d)" "gid \<noteq> gid'"
  shows "set (g_positions (dr_groups d ! gid)) \<inter> set (g_positions (dr_groups d ! gid')) = {}"
proof -
  have pos: "g_positions (dr_groups d ! k) = lane_partitions c ! k" "k < length (lane_partitions c)"
    if "k < length (dr_groups d)" for k
    using shape_lane [OF assms(1) that] by (simp_all add: lane_of_def driver_groups_def group_new_def Let_def)
  show ?thesis
    using pos [OF assms(2)] pos [OF assms(3)] assms(4)
    by (auto simp: lane_partitions_def Let_def split: if_splits)
qed

definition base_ok :: "cfg \<Rightarrow> drv \<Rightarrow> bool" where
  "base_ok c d \<longleftrightarrow> drv_ok c d \<and> shape_ok c d"

end
