(* ===== verification/DriverLoop.thy ===== *)
theory DriverLoop
  imports DriverShape
begin

text \<open>
  The states the driver's loop reaches, as an inductive predicate over start-up and whole turns of
  \<open>run_loop\<close> (the part before \<open>select!\<close>, then one wake-up), and what holds on them: the invariant of
  \<open>DriverInv\<close>, that the loop never stalls, and that the only panics left are the two arithmetic
  overflows an env reply or a trial base can cause.
\<close>

section \<open>Reachable states\<close>

text \<open>
  \<open>reach_if W c d\<close>: the loop gets to \<open>d\<close> when every reply satisfies \<open>W\<close> in the state it arrives in;
  \<open>reach\<close> is the case of arbitrary replies.
\<close>

inductive reach_if :: "(wake \<Rightarrow> drv \<Rightarrow> bool) \<Rightarrow> cfg \<Rightarrow> drv \<Rightarrow> bool" for W c where
  reach_start: "start_loop c (drv_new c now) = (d, None) \<Longrightarrow> reach_if W c d"
| reach_turn: "reach_if W c d \<Longrightarrow> loop_head c i cancelled d = (d1, None) \<Longrightarrow> wake_ok w d1 \<Longrightarrow> W w d1 \<Longrightarrow>
    wake_step c i' w d1 = (d2, None) \<Longrightarrow> reach_if W c d2"

abbreviation reach :: "cfg \<Rightarrow> drv \<Rightarrow> bool" where
  "reach \<equiv> reach_if (\<lambda>_ _. True)"

text \<open>One turn up to \<open>select!\<close>, taken apart.\<close>

lemma loop_head_cases:
  assumes "loop_head c i cancelled d = (d3, e)"
  obtains (cancel) "d3 = d" "e = Some (Failed (Err (cancelled_error c d)))"
  | (fin) "\<forall>g \<in> set (dr_groups d). g_phase g = Idle" "dr_env_ops d = []" "dr_predicts d = []"
      "d3 = d" "e = Some Completed"
  | (steps) d1 f where "d1 = (if dr_predicts d = [] then flush_evictions (io_evict i) d else d)"
      "dispatch_steps c i d1 = (d3, Some f)" "e = Some (Failed f)"
  | (predicts) d1 d2 f where "d1 = (if dr_predicts d = [] then flush_evictions (io_evict i) d else d)"
      "dispatch_steps c i d1 = (d2, None)"
      "dispatch_predict c i (dr_env_ops d2 = [] \<and> dr_predicts d2 = []) d2 = (d3, Some f)" "e = Some (Failed f)"
  | (run) d1 d2 where
      "\<not> ((\<forall>g \<in> set (dr_groups d). g_phase g = Idle) \<and> dr_env_ops d = [] \<and> dr_predicts d = [])"
      "d1 = (if dr_predicts d = [] then flush_evictions (io_evict i) d else d)"
      "dispatch_steps c i d1 = (d2, None)"
      "dispatch_predict c i (dr_env_ops d2 = [] \<and> dr_predicts d2 = []) d2 = (d3, None)"
      "e = (if dr_env_ops d3 = [] \<and> dr_predicts d3 = [] then Some (Failed (Err (Protocol Stalled))) else None)"
proof -
  define d1 where "d1 = (if dr_predicts d = [] then flush_evictions (io_evict i) d else d)"
  obtain d2 fo where ds: "dispatch_steps c i d1 = (d2, fo)" by (cases "dispatch_steps c i d1")
  obtain dp fp where dp: "dispatch_predict c i (dr_env_ops d2 = [] \<and> dr_predicts d2 = []) d2 = (dp, fp)"
    by (cases "dispatch_predict c i (dr_env_ops d2 = [] \<and> dr_predicts d2 = []) d2")
  let ?all = "list_all (\<lambda>g. g_phase g = Idle) (dr_groups d) \<and> dr_env_ops d = [] \<and> dr_predicts d = []"
  note h = assms [unfolded loop_head_def Let_def, folded d1_def]
  consider "cancelled" | "\<not> cancelled" "?all" | f where "\<not> cancelled" "\<not> ?all" "fo = Some f"
    | f where "\<not> cancelled" "\<not> ?all" "fo = None" "fp = Some f" | "\<not> cancelled" "\<not> ?all" "fo = None" "fp = None"
    by (cases fo; cases fp) auto
  then show thesis
  proof cases
    case 1 show thesis by (rule cancel) (use h 1 in auto)
  next
    case 2 show thesis by (rule fin) (use h 2 in \<open>auto simp: list_all_iff\<close>)
  next
    case (3 f) show thesis by (rule steps [OF d1_def]) (use h ds 3 in \<open>auto split: if_splits\<close>)
  next
    case (4 f) show thesis by (rule predicts [OF d1_def]) (use h ds dp 4 in \<open>auto split: if_splits\<close>)
  next
    case 5
    then have "d3 = dp" "e = (if dr_env_ops d3 = [] \<and> dr_predicts d3 = [] then Some (Failed (Err (Protocol Stalled))) else None)"
      using h ds dp by (auto simp del: list_all_iff split: if_splits)
    then show thesis using run [OF _ d1_def, of d2] 5 ds dp by (simp add: list_all_iff)
  qed
qed

lemma flush_evictions_ok: "drv_ok c (flush_evictions o' d) \<longleftrightarrow> drv_ok c d"
  by (rule drv_ok_cong) simp_all

lemma head_flush_ok:
  "drv_ok c d \<Longrightarrow> d1 = (if dr_predicts d = [] then flush_evictions o' d else d) \<Longrightarrow> drv_ok c d1 \<and>
   dr_groups d1 = dr_groups d \<and> dr_env_ops d1 = dr_env_ops d \<and> dr_predicts d1 = dr_predicts d"
  by (simp add: flush_evictions_ok)

text \<open>Each move of the loop keeps the bookkeeping invariant and the partition.\<close>

lemma base_start: "start_loop c (drv_new c now) = (d, None) \<Longrightarrow> base_ok c d"
  by (simp add: base_ok_def start_loop_ok shape_ok_start)

lemma base_flush: "base_ok c d \<Longrightarrow> base_ok c (flush_evictions out d)"
  using shape_ok_cong [OF shape_flush_evictions] by (simp add: base_ok_def flush_evictions_ok)

lemma base_dispatch_step:
  "base_ok c d \<Longrightarrow> gid < length (dr_groups d) \<Longrightarrow> dispatch_step c i gid d = (d', None) \<Longrightarrow> base_ok c d'"
  by (auto simp: base_ok_def intro: dispatch_step_ok shape_ok_cong [OF shape_dispatch_step])

lemma base_predict_for: "base_ok c d \<Longrightarrow> predict_for c gids d = (d', None) \<Longrightarrow> base_ok c d'"
  by (auto simp: base_ok_def intro: predict_for_success(1) shape_ok_cong [OF shape_predict_for])

lemma base_env_wake:
  assumes "base_ok c d" "k < length (dr_env_ops d)" "result_fits (dr_env_ops d ! k) result"
    "on_env_outcome c i (dr_env_ops d ! k) rpc result (d\<lparr>dr_env_ops := remove_nth k (dr_env_ops d)\<rparr>) = (d', None)"
  shows "base_ok c d'"
proof -
  have ok: "drv_ok c d" using assms(1) by (simp add: base_ok_def)
  have "eo_gid (dr_env_ops d ! k) < length (dr_groups d)" using drv_okD(3) [OF ok] assms(2) by simp
  then have "drv_shape d' = drv_shape d" using shape_on_env_outcome [OF assms(4)] by (simp add: drv_shape_def)
  then show ?thesis
    using env_wake_ok [OF ok assms(2-4)] shape_ok_cong assms(1) by (auto simp: base_ok_def)
qed

lemma base_predict_wake:
  assumes "base_ok c d" "k < length (dr_predicts d)"
    "on_predict_outcome c (po_requests (dr_predicts d ! k)) rpc result
       (d\<lparr>dr_predicts := remove_nth k (dr_predicts d)\<rparr>) = (d', None)"
  shows "base_ok c d'"
proof -
  have ok: "drv_ok c d" using assms(1) by (simp add: base_ok_def)
  have "drv_shape d' = drv_shape d" using shape_on_predict_outcome [OF assms(3)] by (simp add: drv_shape_def)
  then show ?thesis
    using predict_wake_ok(1) [OF ok assms(2,3) refl] shape_ok_cong assms(1) by (auto simp: base_ok_def)
qed

text \<open>
  The contract of an invariant of the loop: it holds after start-up, and each of the loop's own
  moves keeps it: sending the evictions, dispatching one step, issuing one predict, and applying
  one env reply or one predict's results. What the contract gives is that it holds in every
  reachable state, and at \<open>select!\<close>.
\<close>

locale loop_invariant =
  fixes c :: cfg and W :: "wake \<Rightarrow> drv \<Rightarrow> bool" and I :: "drv \<Rightarrow> bool"
  assumes started: "start_loop c (drv_new c now) = (d, None) \<Longrightarrow> base_ok c d \<Longrightarrow> I d"
    and flushed: "base_ok c d \<Longrightarrow> I d \<Longrightarrow> dr_predicts d = [] \<Longrightarrow> I (flush_evictions out d)"
    and stepped: "base_ok c d \<Longrightarrow> I d \<Longrightarrow> gid < length (dr_groups d) \<Longrightarrow>
      dispatch_step c i gid d = (d', None) \<Longrightarrow> I d'"
    and predicted: "base_ok c d \<Longrightarrow> I d \<Longrightarrow> predict_for c gids d = (d', None) \<Longrightarrow> I d'"
    and env_replied: "base_ok c d \<Longrightarrow> I d \<Longrightarrow> k < length (dr_env_ops d) \<Longrightarrow>
      result_fits (dr_env_ops d ! k) result \<Longrightarrow> W (EnvWake k rpc result) d \<Longrightarrow>
      on_env_outcome c i (dr_env_ops d ! k) rpc result (d\<lparr>dr_env_ops := remove_nth k (dr_env_ops d)\<rparr>)
        = (d', None) \<Longrightarrow> I d'"
    and predict_replied: "base_ok c d \<Longrightarrow> I d \<Longrightarrow> k < length (dr_predicts d) \<Longrightarrow>
      W (PredictWake k rpc presult) d \<Longrightarrow>
      on_predict_outcome c (po_requests (dr_predicts d ! k)) rpc presult
        (d\<lparr>dr_predicts := remove_nth k (dr_predicts d)\<rparr>) = (d', None) \<Longrightarrow> I d'"
begin

lemma dispatch_steps_inv:
  assumes "base_ok c d" "I d" "dispatch_steps c i d = (d', None)"
  shows "base_ok c d' \<and> I d'"
proof -
  have "base_ok c d' \<and> I d' \<and> length (dr_groups d') = length (dr_groups d)"
  proof (rule for_each_ok [where P = "\<lambda>d1. base_ok c d1 \<and> I d1 \<and> length (dr_groups d1) = length (dr_groups d)"])
    show "for_each (dispatch_step c i) [0..<length (dr_groups d)] d = (d', None)"
      using assms(3) by (simp add: dispatch_steps_def)
    show "base_ok c d \<and> I d \<and> length (dr_groups d) = length (dr_groups d)" using assms by simp
    fix gid d1 d2
    assume gid: "gid \<in> set [0..<length (dr_groups d)]"
      and P: "base_ok c d1 \<and> I d1 \<and> length (dr_groups d1) = length (dr_groups d)"
      and st: "dispatch_step c i gid d1 = (d2, None)"
    then have lt: "gid < length (dr_groups d1)" by simp
    have "length (dr_groups d2) = length (dr_groups d1)" using dispatch_step_length [of c i gid d1] st by simp
    then show "base_ok c d2 \<and> I d2 \<and> length (dr_groups d2) = length (dr_groups d)"
      using P base_dispatch_step [OF _ lt st] stepped [OF _ _ lt st] by simp
  qed
  then show ?thesis by simp
qed

lemma dispatch_predict_inv:
  assumes ok: "base_ok c d" and "I d" and run: "dispatch_predict c i force d = (d', None)"
  shows "base_ok c d' \<and> I d'"
proof (rule dispatch_predict_cases [of c i force d])
  fix chosen
  assume "dispatch_predict c i force d =
    (if cf_fuses c then predict_for c chosen d else for_each (\<lambda>gid. predict_for c [gid]) chosen d)"
  with run consider (one) "predict_for c chosen d = (d', None)"
    | (each) "for_each (\<lambda>gid. predict_for c [gid]) chosen d = (d', None)" by (auto split: if_splits)
  then show ?thesis
  proof cases
    case one
    then show ?thesis using base_predict_for [OF ok one] predicted [OF ok assms(2) one] by simp
  next
    case each
    then show ?thesis
      by (rule for_each_ok [where P = "\<lambda>d. base_ok c d \<and> I d"])
        (use assms in \<open>auto dest: base_predict_for predicted\<close>)
  qed
qed (use assms in simp)

lemma loop_head_inv:
  assumes "base_ok c d" "I d" "loop_head c i cancelled d = (d1, None)"
  shows "base_ok c d1 \<and> I d1"
  using assms(3)
proof (cases rule: loop_head_cases)
  case (run da d2)
  have "base_ok c da" "I da"
    using base_flush [OF assms(1), of "io_evict i"] run(2) assms flushed by auto
  then have "base_ok c d2 \<and> I d2" using run(3) by (rule dispatch_steps_inv)
  then show ?thesis using dispatch_predict_inv run(4) by blast
qed simp_all

lemma wake_inv:
  assumes ok: "base_ok c d" and I: "I d" and w: "wake_ok w d" "W w d" and run: "wake_step c i w d = (d', None)"
  shows "base_ok c d' \<and> I d'"
proof (cases w)
  case (EnvWake k rpc result)
  with w run have h: "k < length (dr_env_ops d)" "result_fits (dr_env_ops d ! k) result" "W (EnvWake k rpc result) d"
    "on_env_outcome c i (dr_env_ops d ! k) rpc result (d\<lparr>dr_env_ops := remove_nth k (dr_env_ops d)\<rparr>) = (d', None)"
    by (simp_all add: wake_ok_def wake_step_def)
  show ?thesis using base_env_wake [OF ok h(1,2,4)] env_replied [OF ok I h] by simp
next
  case (PredictWake k rpc result)
  with w run have h: "k < length (dr_predicts d)" "W (PredictWake k rpc result) d"
    "on_predict_outcome c (po_requests (dr_predicts d ! k)) rpc result
       (d\<lparr>dr_predicts := remove_nth k (dr_predicts d)\<rparr>) = (d', None)"
    by (simp_all add: wake_ok_def wake_step_def)
  show ?thesis using base_predict_wake [OF ok h(1,3)] predict_replied [OF ok I h] by simp
qed (use run in \<open>simp_all add: wake_step_def\<close>)

lemma reach_inv: "reach_if W c d \<Longrightarrow> base_ok c d \<and> I d"
proof (induction rule: reach_if.induct)
  case (reach_start now d)
  then show ?case using base_start started by blast
next
  case (reach_turn d i cancelled d1 w i' d2)
  have "base_ok c d1 \<and> I d1" using loop_head_inv reach_turn.IH reach_turn.hyps(2) by blast
  then show ?case using wake_inv reach_turn.hyps(3-5) by blast
qed

lemma select_inv:
  "reach_if W c d \<Longrightarrow> loop_head c i cancelled d = (d1, None) \<Longrightarrow> base_ok c d1 \<and> I d1"
  using loop_head_inv reach_inv by blast

end

text \<open>The bookkeeping invariant alone, under any assumption on the replies.\<close>

interpretation plain: loop_invariant c W "\<lambda>_. True" for c W
  by unfold_locales simp_all

lemmas reach_base = plain.reach_inv [THEN conjunct1]

lemma reach_ok: "reach_if W c d \<Longrightarrow> drv_ok c d"
  using reach_base by (simp add: base_ok_def)

lemma select_ok: "reach_if W c d \<Longrightarrow> loop_head c i cancelled d = (d1, None) \<Longrightarrow> drv_ok c d1"
  using plain.select_inv by (simp add: base_ok_def)

section \<open>Progress\<close>

text \<open>
  After the dispatch of steps a ready group holds no frame, so it wants a prediction; with nothing in
  flight the predict dispatch is forced and puts one out.
\<close>

lemma settled_ready_wanted:
  assumes ok: "drv_ok c d" and lt: "gid < length (dr_groups d)" and "settled (dr_groups d ! gid)"
    and "dr_env_ops d = []" "dr_predicts d = []" "g_phase (dr_groups d ! gid) \<noteq> Idle"
  shows "is_wanted (dr_groups d ! gid)"
proof -
  have gok: "group_ok c (dr_groups d ! gid) None False"
    using drv_okD(5) [OF ok lt] assms(4,5) by (simp add: env_kind_def flying_def)
  then have "g_phase (dr_groups d ! gid) = Ready"
    using assms(6) by (auto simp: group_ok_def phase_op_def split: env_phase.splits)
  then show ?thesis
    using gok assms(3) by (cases "g_predict (dr_groups d ! gid)")
      (auto simp: group_ok_def settled_def is_wanted_def is_in_flight_def)
qed

lemma gather_fault: "gather c gids st acc d = (Inl f, d') \<Longrightarrow> \<exists>p. f = Panic p"
  by (induction c gids st acc d rule: gather.induct)
    (auto simp: Let_def split: option.splits predict_state.splits)

lemma predict_for_fault: "predict_for c gids d = (d', Some f) \<Longrightarrow> \<exists>p. f = Panic p"
  by (auto simp: predict_for_def dest: gather_fault split: prod.splits sum.splits)

lemma dispatch_predict_fault:
  assumes "dispatch_predict c i force d = (d', Some f)"
  shows "\<exists>p. f = Panic p"
proof (rule dispatch_predict_cases [of c i force d])
  fix chosen
  assume "dispatch_predict c i force d =
    (if cf_fuses c then predict_for c chosen d else for_each (\<lambda>gid. predict_for c [gid]) chosen d)"
  with assms consider "predict_for c chosen d = (d', Some f)"
    | "for_each (\<lambda>gid. predict_for c [gid]) chosen d = (d', Some f)" by (auto split: if_splits)
  then show ?thesis
  proof cases
    case 2
    show ?thesis
      by (rule for_each_faults [OF 2, where P = "\<lambda>_. True" and Q = "\<lambda>f. \<exists>p. f = Panic p"])
        (auto dest: predict_for_fault)
  qed (rule predict_for_fault)
qed (use assms in simp)

lemma dispatch_predict_idle:
  assumes ok: "drv_ok c d" and run: "dispatch_predict c i force d = (d', None)" and none: "dr_predicts d' = []"
  shows "d' = d"
proof (rule dispatch_predict_cases [of c i force d])
  fix chosen
  assume ne: "chosen \<noteq> []" and "dispatch_predict c i force d =
    (if cf_fuses c then predict_for c chosen d else for_each (\<lambda>gid. predict_for c [gid]) chosen d)"
  with run consider "predict_for c chosen d = (d', None)"
    | "for_each (\<lambda>gid. predict_for c [gid]) chosen d = (d', None)" by (auto split: if_splits)
  then have "dr_predicts d' \<noteq> []"
    by cases (use predict_for_success(7) [OF ok] predict_each_success [OF ok] ne in auto)
  with none show ?thesis by simp
qed (use run in simp)

lemma loop_head_progress:
  assumes ok: "drv_ok c d" and run: "loop_head c i cancelled d = (d3, e)"
  shows "e \<noteq> Some (Failed (Err (Protocol Stalled)))"
  using run
proof (cases rule: loop_head_cases)
  case cancel
  then show ?thesis by (simp add: cancelled_error_def)
next
  case (steps d1 f)
  then show ?thesis using head_flush_ok [OF ok steps(1)] dispatch_steps_ok(2) by fastforce
next
  case (predicts d1 d2 f)
  then show ?thesis using dispatch_predict_fault by fastforce
next
  case (run d1 d2)
  note h = head_flush_ok [OF ok run(2)]
  have ok2: "drv_ok c d2" and len: "length (dr_groups d2) = length (dr_groups d)"
    using dispatch_steps_ok(1) [OF _ run(3)] h by auto
  note st = dispatch_steps_settle [OF _ run(3)]
  have "\<not> (dr_env_ops d3 = [] \<and> dr_predicts d3 = [])"
  proof
    assume none: "dr_env_ops d3 = [] \<and> dr_predicts d3 = []"
    then have d3: "d3 = d2" using dispatch_predict_idle [OF ok2 run(4)] by simp
    with none have e2: "dr_env_ops d2 = []" "dr_predicts d2 = []" by simp_all
    then have e: "dr_env_ops d = []" "dr_predicts d = []" using st(2,3) h by auto
    then obtain g where "g \<in> set (dr_groups d)" "g_phase g \<noteq> Idle" using run(1) by blast
    then obtain gid where lt: "gid < length (dr_groups d)" and "g_phase (dr_groups d ! gid) \<noteq> Idle"
      by (auto simp: in_set_conv_nth)
    then have "settled (dr_groups d2 ! gid)" "g_phase (dr_groups d2 ! gid) \<noteq> Idle" using st(1) h by auto
    then have "is_wanted (dr_groups d2 ! gid)" using settled_ready_wanted [OF ok2 _ _ e2] lt len by simp
    then have "dr_predicts d3 \<noteq> []"
      using dispatch_predict_ok(2) [OF ok2 run(4)] e2 lt len by simp
    then show False using none by simp
  qed
  then show ?thesis using run(5) by auto
qed simp

lemma wake_step_faults:
  assumes ok: "drv_ok c d" and w: "wake_ok w d" and run: "wake_step c i w d = (d', Some f)"
  shows "reply_fault f"
proof (cases w)
  case (EnvWake k rpc result)
  with w run show ?thesis
    by (intro env_wake_faults [OF ok, of k result]) (simp_all add: wake_ok_def wake_step_def)
next
  case (PredictWake k rpc result)
  with w run have "\<exists>e. f = Err e"
    by (intro predict_wake_ok(2) [OF ok, of k rpc result]) (simp_all add: wake_ok_def wake_step_def)
  then show ?thesis by (auto simp: reply_fault_def)
qed (use run in \<open>auto simp: wake_step_def\<close>)

lemma loop_head_faults:
  assumes ok: "drv_ok c d" and "plans_once i" and run: "loop_head c i cancelled d = (d3, Some (Failed f))"
  shows "\<exists>e. f = Err e"
  using run
proof (cases rule: loop_head_cases)
  case (steps d1 f')
  then show ?thesis using head_flush_ok [OF ok steps(1)] dispatch_steps_ok(2) by fastforce
next
  case (predicts d1 d2 f')
  have "drv_ok c d2" using head_flush_ok [OF ok predicts(1)] dispatch_steps_ok(1) predicts(2) by blast
  then show ?thesis using dispatch_predict_ok(3) [OF _ assms(2)] predicts(3) by (metis option.distinct(1) prod.inject)
qed (auto split: if_splits)

section \<open>A concrete session\<close>

text \<open>The default scheduler asks for every waiting group, once.\<close>

definition eager_plan :: "nat list \<Rightarrow> nat \<Rightarrow> nat list" where
  "eager_plan waiting busy = waiting"

definition sample_cfg :: "session_spec \<Rightarrow> cfg" where
  "sample_cfg spec = \<lparr>cf_spec = spec, cf_prefetch_lead = 0, cf_deliver_history = False, cf_fuses = False,
     cf_policy = refusing_relay_policy, cf_uuid = (\<lambda>n. replicate (Suc n) (CHR ''e'')),
     cf_cancellation_reason = ''cancelled by caller'',
     cf_len_reset_request = (\<lambda>_. 0), cf_len_step_request = (\<lambda>_. 0), cf_len_predict_request = (\<lambda>_. 0),
     cf_len_reset_response = (\<lambda>_. 0), cf_len_step_response = (\<lambda>_. 0), cf_len_predict_response = (\<lambda>_. 0),
     cf_len_contract = (\<lambda>_. 0)\<rparr>"

definition sample_io :: io where
  "sample_io = \<lparr>io_now = (\<lambda>_. 0), io_elapsed = 0, io_hook_elapsed = 0,
     io_transform_action = (\<lambda>ev. Inr (ae_action ev)),
     io_transform_observation = (\<lambda>ev. Inr (oe_observation ev)),
     io_plan = eager_plan,
     io_evict = EvictAnswered 0\<rparr>"

abbreviation next_step_cfg :: cfg where
  "next_step_cfg \<equiv> sample_cfg (sample_spec 1 1 (Some 2))"

definition sample_start :: drv where
  "sample_start = fst (start_loop next_step_cfg (drv_new next_step_cfg (\<lambda>_. 0)))"

lemma sample_io_plans_once: "plans_once sample_io"
  by (simp add: plans_once_def sample_io_def eager_plan_def)

lemma next_step_owner: "\<not> driver_owns_resets next_step_cfg"
  by (simp add: driver_owns_resets_def driver_autoreset_mode_def sample_cfg_def sample_defs
      spec_defaults_def defaults_2026_06_def autoreset_try_from_def)

text \<open>An env that rolls its own lanes is never given trial ordinals, so its resets cannot fault.\<close>

lemma begin_reset_next_step:
  assumes own: "\<not> driver_owns_resets c" and lt: "gid < length (dr_groups d)" and env: "g_env (dr_groups d ! gid)"
  shows "\<exists>d'. begin_reset c gid initial d = (d', None)"
  using own lt env
  by (auto simp: begin_reset_def nth_opt_eq stage_reset_def planned_trial_indices_def send_reset_def Let_def
      split: prod.splits)

lemma start_loop_next_step:
  assumes own: "\<not> driver_owns_resets c" and ceil: "driver_ceiling c EnvToModel = None"
  shows "\<exists>d. start_loop c (drv_new c now) = (d, None)"
proof -
  define d1 where "d1 = emit (SessionStarted (ro_session_id (dr_route (drv_new c now)))
        (route_env_context (dr_route (drv_new c now))) (ss_env_id (cf_spec c))) (drv_new c now)"
  let ?P = "\<lambda>n d. started_upto c n d"
  have "\<exists>d. for_each (\<lambda>gid. begin_reset c gid True) [0..<n] (d1\<lparr>dr_groups := driver_groups c\<rparr>) = (d, None) \<and> ?P n d"
    if "n \<le> length (driver_groups c)" for n
    using that
  proof (induction n)
    case 0
    then show ?case by (simp add: started_upto_def d1_def drv_new_def)
  next
    case (Suc n)
    then obtain d where d: "for_each (\<lambda>gid. begin_reset c gid True) [0..<n] (d1\<lparr>dr_groups := driver_groups c\<rparr>) = (d, None)"
      and P: "?P n d" by auto
    have lt: "n < length (dr_groups d)" and "dr_groups d ! n = driver_groups c ! n"
      using P Suc.prems by (simp_all add: started_upto_def)
    then have "g_env (dr_groups d ! n)" using group_new_idle [of n c] Suc.prems by (simp add: between_def)
    then obtain d' where d': "begin_reset c n True d = (d', None)" using begin_reset_next_step [OF own lt] by blast
    then have "?P (Suc n) d'" using begin_reset_started [OF P _ d'] Suc.prems by simp
    then show ?case using d d' by (auto simp: for_each_append)
  qed
  from this [of "length (driver_groups c)"] show ?thesis
    using ceil by (auto simp: start_loop_def relay_contract_def d1_def Let_def)
qed

lemma sample_start_reach: "reach next_step_cfg sample_start"
proof -
  have "driver_ceiling next_step_cfg EnvToModel = None"
    by (simp add: driver_ceiling_def sample_cfg_def sample_defs)
  then obtain d where "start_loop next_step_cfg (drv_new next_step_cfg (\<lambda>_. 0)) = (d, None)"
    using start_loop_next_step [OF next_step_owner] by blast
  then show ?thesis unfolding sample_start_def by (auto intro: reach_start)
qed

section \<open>The loop's guarantees\<close>

text \<open>
  C1. The loop never stalls: from every state the loop reaches, whatever the scheduler plans, the
  turn never ends in the \<open>stalled with no operation in flight\<close> error; a turn that neither
  completes the session nor fails leaves an env operation or a predict in flight.
\<close>

theorem loop_never_stalls:
  assumes "reach c d"
  shows "snd (loop_head c i cancelled d) \<noteq> Some (Failed (Err (Protocol Stalled))) \<and>
    (snd (loop_head c i cancelled d) = None \<longrightarrow>
       dr_env_ops (fst (loop_head c i cancelled d)) \<noteq> [] \<or> dr_predicts (fst (loop_head c i cancelled d)) \<noteq> [])"
proof -
  obtain d3 e where run: "loop_head c i cancelled d = (d3, e)" by (cases "loop_head c i cancelled d")
  have "e \<noteq> Some (Failed (Err (Protocol Stalled)))" using loop_head_progress [OF reach_ok [OF assms] run] .
  moreover have "e = None \<longrightarrow> dr_env_ops d3 \<noteq> [] \<or> dr_predicts d3 \<noteq> []"
    using run by (cases rule: loop_head_cases) (auto split: if_splits)
  ultimately show ?thesis by (simp add: run)
qed

theorem loop_never_stalls_witness:
  "reach next_step_cfg sample_start \<and>
   snd (loop_head next_step_cfg sample_io False sample_start) \<noteq> Some (Failed (Err (Protocol Stalled)))"
  using sample_start_reach loop_never_stalls [OF sample_start_reach, of sample_io False] by simp



end
