(* ===== verification/DriverTrace.thy ===== *)
theory DriverTrace
  imports DriverLoop
begin

text \<open>
  The calls the driver makes on the model, read off its trace: only \<open>predict_for\<close> and
  \<open>flush_evictions\<close> add to them, every other handler leaves them alone.
\<close>

definition is_model_call :: "trace_item \<Rightarrow> bool" where
  "is_model_call t = (case t of CallPredict _ \<Rightarrow> True | CallEvict _ _ \<Rightarrow> True | _ \<Rightarrow> False)"

definition model_calls :: "drv \<Rightarrow> trace_item list" where
  "model_calls d = filter is_model_call (dr_trace d)"

named_theorems calls

lemma model_calls_updates [calls]:
  "model_calls (emit t d) = model_calls d @ (if is_model_call t then [t] else [])"
  "model_calls (emit_all ts d) = model_calls d @ filter is_model_call ts"
  "model_calls (set_group gid g d) = model_calls d" "model_calls (set_route r d) = model_calls d"
  "model_calls (on_agg f d) = model_calls d" "model_calls (d\<lparr>dr_agg := a\<rparr>) = model_calls d"
  "model_calls (d\<lparr>dr_minted := n\<rparr>) = model_calls d" "model_calls (d\<lparr>dr_env_ops := ops\<rparr>) = model_calls d"
  "model_calls (d\<lparr>dr_predicts := ps\<rparr>) = model_calls d" "model_calls (d\<lparr>dr_route := r\<rparr>) = model_calls d"
  "model_calls (d\<lparr>dr_pending_evictions := es\<rparr>) = model_calls d"
  "model_calls (d\<lparr>dr_held_evictions := hs\<rparr>) = model_calls d"
  "model_calls (d\<lparr>dr_advisories := as\<rparr>) = model_calls d"
  "model_calls (d\<lparr>dr_trial_options_warned := b\<rparr>) = model_calls d"
  "model_calls (d\<lparr>dr_vector_replay_warned := b\<rparr>) = model_calls d"
  "model_calls (d\<lparr>dr_groups := gs\<rparr>) = model_calls d"
  by (simp_all add: model_calls_def emit_def emit_all_def set_group_def set_route_def on_agg_def)

lemma call_kinds [calls]:
  "\<not> is_model_call (SessionStarted a b e)" "\<not> is_model_call (ResetLogged a b m n)"
  "\<not> is_model_call (EpisodeStarted x)" "\<not> is_model_call (EpisodeCompleted y)"
  "\<not> is_model_call (ActionReceived z)" "\<not> is_model_call (StepCompleted u)"
  "\<not> is_model_call (ObservationEmitted v)" "\<not> is_model_call (RelayAdvised a b l adv)"
  "\<not> is_model_call (CallReset gid rq)" "\<not> is_model_call (CallStep gid sq)"
  "is_model_call (CallPredict ps)" "is_model_call (CallEvict rq' oc)"
  by (simp_all add: is_model_call_def)

lemma no_calls [calls]:
  "filter is_model_call (map EpisodeStarted xs) = []" "filter is_model_call (map EpisodeCompleted ys) = []"
  "filter is_model_call (map (\<lambda>st. EpisodeStarted (f st)) zs) = []"
  by (auto simp: filter_empty_conv is_model_call_def)

lemma calls_advisory [calls]: "model_calls (raise_advisory s x l adv d) = model_calls d"
  by (simp add: raise_advisory_def calls)

lemma calls_relay: "relay c l s x sp p d = (r, d') \<Longrightarrow> model_calls d' = model_calls d"
  by (auto simp: relay_def calls split: option.splits relay_decision.splits)

lemma calls_transform_action: "invoke_transform_action c i ev d = (r, d') \<Longrightarrow> model_calls d' = model_calls d"
  by (auto simp: invoke_transform_action_def Let_def calls split: sum.splits dest!: calls_relay)

lemma calls_transform_observation:
  "invoke_transform_observation c i ev d = (r, d') \<Longrightarrow> model_calls d' = model_calls d"
  by (auto simp: invoke_transform_observation_def Let_def calls split: sum.splits dest!: calls_relay)

lemma calls_trial_options: "trial_options c ts d = (o', d') \<Longrightarrow> model_calls d' = model_calls d"
  by (auto simp: trial_options_def Let_def calls)

lemma calls_begin_reset: "begin_reset c gid initial d = (d', f) \<Longrightarrow> model_calls d' = model_calls d"
  by (auto simp: begin_reset_def mint_ids_def send_reset_def Let_def calls dest!: calls_trial_options
      split: option.splits prod.splits if_splits)

lemma calls_observe: "observe c i gid ob infos ph b d = (d', f) \<Longrightarrow> model_calls d' = model_calls d"
  by (auto simp: observe_def Let_def calls dest!: calls_transform_observation
      split: option.splits prod.splits sum.splits)

lemma calls_started [calls]: "model_calls (invoke_started_episodes ctx eps d) = model_calls d"
  by (simp add: invoke_started_episodes_def calls)

lemma calls_fan_out [calls]: "model_calls (fan_out_completions evs d) = model_calls d"
  by (simp add: fan_out_completions_def calls)

lemma calls_queue [calls]: "model_calls (queue_evictions gid g idxs d) = model_calls d"
  by (auto simp: queue_evictions_def model_calls_def split: prod.splits)

lemma calls_account_step: "account_step c i gid g resp rpc d = (r, d') \<Longrightarrow> model_calls d' = model_calls d"
  by (auto simp: account_step_def Let_def calls split: option.splits)

lemma calls_apply_roll [calls]: "model_calls (apply_roll i gid ctx g d) = model_calls d"
  by (auto simp: apply_roll_def Let_def calls split: prod.splits)

lemma calls_finish [calls]: "model_calls (finish_episodes c gid ctx done' g d) = model_calls d"
  by (auto simp: finish_episodes_def Let_def calls split: prod.splits)

lemma calls_stage_rolls: "stage_rolls c ms roll d = (roll', d') \<Longrightarrow> model_calls d' = model_calls d"
  by (induction c ms roll d arbitrary: roll' d' rule: stage_rolls.induct)
    (auto simp: mint_ids_def calls split: if_splits)

lemma calls_flush_stale [calls]: "model_calls (flush_stale c gid done' g d) = model_calls d"
  by (auto simp: flush_stale_def Let_def calls dest!: calls_stage_rolls split: prod.splits)

lemma calls_stop_group [calls]: "model_calls (stop_group gid g d) = model_calls d"
  by (simp add: stop_group_def Let_def calls)

lemma calls_on_step: "on_step c i gid resp rpc d = (d', f) \<Longrightarrow> model_calls d' = model_calls d"
  by (auto simp: on_step_def Let_def calls dest!: calls_account_step calls_begin_reset calls_observe
      split: option.splits prod.splits sum.splits if_splits)

lemma calls_on_reset: "on_reset c i gid initial resp rpc d = (d', f) \<Longrightarrow> model_calls d' = model_calls d"
  by (auto simp: on_reset_def Let_def calls dest!: calls_observe split: option.splits prod.splits if_splits)

lemma calls_on_env_outcome: "on_env_outcome c i op rpc res d = (d', f) \<Longrightarrow> model_calls d' = model_calls d"
  by (auto simp: on_env_outcome_def Let_def calls dest!: calls_on_step calls_on_reset
      split: option.splits env_op_kind.splits env_result.splits sum.splits)

lemma calls_prefetch: "prefetch c gid g d = (g', d') \<Longrightarrow> model_calls d' = model_calls d"
  by (auto simp: prefetch_def Let_def calls split: if_splits prod.splits)

lemma calls_dispatch_step: "dispatch_step c i gid d = (d', f) \<Longrightarrow> model_calls d' = model_calls d"
  by (auto simp: dispatch_step_def send_step_def Let_def calls dest!: calls_prefetch calls_transform_action
      split: option.splits if_splits list.splits prod.splits sum.splits predict_state.splits)

lemma calls_apply_prediction:
  "apply_prediction c n rpc x d = (d', f) \<Longrightarrow> model_calls d' = model_calls d"
  by (auto simp: apply_prediction_def Let_def record_predict_op_def release_held_def calls
      split: sum.splits if_splits option.splits prod.splits)

lemma calls_on_predict_outcome:
  assumes "on_predict_outcome c reqs rpc res d = (d', None)"
  shows "model_calls d' = model_calls d"
proof -
  from assms obtain items where run: "for_each (apply_prediction c (length reqs) rpc) items d = (d', None)"
    by (auto simp: on_predict_outcome_def split: sum.splits if_splits)
  show ?thesis
    by (rule for_each_ok [OF run, where P = "\<lambda>d1. model_calls d1 = model_calls d"])
      (auto dest: calls_apply_prediction)
qed

lemma calls_gather: "gather c gids st acc d = (r, d') \<Longrightarrow> model_calls d' = model_calls d"
  by (induction c gids st acc d rule: gather.induct)
    (auto simp: Let_def calls split: option.splits predict_state.splits)

lemma calls_predict_for:
  assumes "predict_for c gids d = (d', None)"
  obtains st reqs d1 where "gather c gids 0 [] d = (Inr (st, reqs), d1)"
    "model_calls d' = model_calls d @ [CallPredict (map (\<lambda>(gid, msg, _). (gid, msg)) reqs)]"
proof -
  from assms obtain st reqs d1 ps where g: "gather c gids 0 [] d = (Inr (st, reqs), d1)"
    and "d' = emit (CallPredict (map (\<lambda>(gid, msg, _). (gid, msg)) reqs)) (d1\<lparr>dr_predicts := ps\<rparr>)"
    by (auto simp: predict_for_def split: prod.splits sum.splits)
  then have "model_calls d' = model_calls d1 @ [CallPredict (map (\<lambda>(gid, msg, _). (gid, msg)) reqs)]"
    by (simp add: calls)
  then show thesis using that g calls_gather [OF g] by simp
qed

lemma calls_flush_evictions:
  "model_calls (flush_evictions out d) = model_calls d @
     (if dr_pending_evictions d = [] then []
      else [CallEvict (fst (reset_adapter_request (dr_pending_evictions d) (dr_route d))) out])"
  by (auto simp: flush_evictions_def Let_def calls split: prod.splits evict_outcome.splits)

lemma calls_start_loop: "start_loop c (drv_new c now) = (d, None) \<Longrightarrow> model_calls d = []"
proof (erule start_loop_induct)
  fix dc :: drv assume "\<And>t. t \<in> set (dr_trace dc) \<Longrightarrow> (\<exists>s x e. t = SessionStarted s x e) \<or> (\<exists>s x l adv. t = RelayAdvised s x l adv)"
  then show "model_calls (dc\<lparr>dr_groups := driver_groups c\<rparr>) = []"
    by (auto simp: model_calls_def filter_empty_conv is_model_call_def split: trace_item.splits)
qed (auto dest: calls_begin_reset)

end
