(* ===== verification/Ledger.thy ===== *)
theory Ledger
  imports DriverTrace "HOL-Library.Multiset"
begin

text \<open>
  Where an episode id can be. An id is minted, then staged in a group's start or roll, then installed
  in a slot, and from there it goes to the evictions. \<open>hold\<close> reads the slots; \<open>ledger\<close> says that a
  staged id is in no other place, that an evicted id is never live in a slot, and that no id is
  evicted, staged or installed twice. Each lemma here is one move of an id.
\<close>

section \<open>The slots' episodes\<close>

definition hold :: "route \<Rightarrow> (string \<times> bool) option list" where
  "hold r = map (\<lambda>s. map_option (\<lambda>e. (es_episode_id e, es_ended e)) (sl_episode s)) (ro_slots r)"

lemma length_hold [simp]: "length (hold r) = length (ro_slots r)"
  by (simp add: hold_def)

lemma hold_trial_cursor: "hold (r\<lparr>ro_trial_cursor := n\<rparr>) = hold r"
  by (simp add: hold_def)

lemma hold_update:
  "hold (r\<lparr>ro_slots := (ro_slots r)[p := s]\<rparr>) =
     (hold r)[p := map_option (\<lambda>e. (es_episode_id e, es_ended e)) (sl_episode s)]"
  by (simp add: hold_def map_update)

lemma hold_nth:
  "p < length (ro_slots r) \<Longrightarrow>
   hold r ! p = map_option (\<lambda>e. (es_episode_id e, es_ended e)) (sl_episode (ro_slots r ! p))"
  by (simp add: hold_def)

lemma hold_same_episode:
  assumes "map_option (\<lambda>e. (es_episode_id e, es_ended e)) (sl_episode s)
     = map_option (\<lambda>e. (es_episode_id e, es_ended e)) (sl_episode (ro_slots r ! p))"
  shows "hold (r\<lparr>ro_slots := (ro_slots r)[p := s]\<rparr>) = hold r"
proof (cases "p < length (ro_slots r)")
  case True
  then have "(hold r)[p := map_option (\<lambda>e. (es_episode_id e, es_ended e)) (sl_episode s)] = hold r"
    using assms hold_nth [OF True] by (metis list_update_id)
  then show ?thesis by (simp add: hold_update)
qed (simp add: hold_update list_update_beyond)

lemma hold_fold: "(\<And>x r. hold (f x r) = hold r) \<Longrightarrow> hold (fold f xs r) = hold r"
  by (induction xs arbitrary: r) simp_all

named_theorems held

lemma hold_notes [held]:
  "hold (mark_surplus e r) = hold r" "hold (note_episode_seeds ids ss r) = hold r"
  "hold (note_episode_trials ids ts r) = hold r" "hold (r\<lparr>ro_records := reg\<rparr>) = hold r"
  "hold (r\<lparr>ro_total_steps := t\<rparr>) = hold r" "hold (drop_episode e' r) = hold r"
  "hold (record_episode_summary su r) = hold r" "hold (r\<lparr>ro_next_slot := n\<rparr>) = hold r"
  by (simp_all add: hold_def mark_surplus_def note_episode_seeds_def note_episode_trials_def drop_episode_def
      record_episode_summary_def split: option.splits)

lemma hold_surpluses [held]: "hold (fold mark_surplus es r) = hold r"
  by (rule hold_fold) (rule held)

lemma hold_record_step [held]: "hold (record_step_at ps rw a b r) = hold r"
  unfolding record_step_at_def
  by (subst hold_fold) (auto simp: step_lane_def nth_opt_eq held intro!: hold_same_episode split: option.splits)

lemma hold_mark_predicted [held]: "hold (mark_predicted ps r) = hold r"
  unfolding mark_predicted_def
  by (rule hold_fold) (auto simp: nth_opt_eq set_predicted_def option.map_comp comp_def
      intro!: hold_same_episode split: option.splits)

lemma hold_requests:
  "predict_request_at ps ob ph r = (m, r') \<Longrightarrow> hold r' = hold r"
  "reset_adapter_request ids r = (rq, r') \<Longrightarrow> hold r' = hold r"
  by (auto simp: predict_request_at_def reset_adapter_request_def adapter_context_for_def next_request_id_def
      Let_def hold_def split: prod.splits)

lemma hold_claims:
  "claim_for g r = (slots, r') \<Longrightarrow> hold r' = hold r" "claim_slots k b r = (cl, r') \<Longrightarrow> hold r' = hold r"
  by (auto simp: claim_for_def claim_slots_def claim_slots_upto_def Let_def held
      split: if_splits option.splits prod.splits)

lemma hold_stage_reset: "stage_reset c b slots ids g r = Some (sd, ts, g', r') \<Longrightarrow> hold r' = hold r"
  by (auto simp: stage_reset_def planned_trial_indices_def claim_trial_indices_def Let_def held hold_trial_cursor
      split: option.splits if_splits)

lemma hold_complete_episodes: "complete_episodes c ctx ms r = (es, r') \<Longrightarrow> hold r' = hold r"
proof (induction c ctx ms r arbitrary: es r' rule: complete_episodes.induct)
  case (2 c ctx m ms r)
  have "hold (snd (complete_one c ctx m r)) = hold r"
    by (auto simp: complete_one_def complete_episode_def record_episode_summary_def Let_def hold_def split: prod.splits)
  then show ?case using 2 by (auto split: prod.splits)
qed simp

lemma hold_claim_rolls: "claim_rolls roll lanes r = (cl, r') \<Longrightarrow> hold r' = hold r"
  by (induction roll lanes r arbitrary: cl r' rule: claim_rolls.induct)
    (auto dest!: hold_claims(2) split: prod.splits if_splits)

lemma hold_mark_unclaimed [held]: "hold (mark_unclaimed roll lanes ids slots r) = hold r"
  unfolding mark_unclaimed_def by (rule hold_fold) (auto simp: held split: prod.splits)

text \<open>Ending an episode and installing new ones.\<close>

lemma hold_end_episode:
  assumes "end_episode_at k r = (e, r')"
  shows "(e = None \<and> r' = r) \<or> (\<exists>x p. e = Some x \<and> p < length (hold r) \<and>
     hold r ! p = Some (x, False) \<and> hold r' = (hold r)[p := Some (x, True)])"
proof (cases e)
  case None
  then show ?thesis using assms by (auto simp: end_episode_at_def nth_opt_eq split: option.splits if_splits)
next
  case (Some x)
  with assms obtain p ep where p: "p < length (ro_slots r)" "sl_episode (ro_slots r ! p) = Some ep" "\<not> es_ended ep"
    and x: "x = es_episode_id ep"
    and r': "r' = r\<lparr>ro_slots := (ro_slots r)[p := (ro_slots r ! p)\<lparr>sl_episode := Some (ep\<lparr>es_ended := True\<rparr>)\<rparr>]\<rparr>"
    by (auto simp: end_episode_at_def nth_opt_eq split: option.splits if_splits)
  have "hold r ! p = Some (x, False)" "hold r' = (hold r)[p := Some (x, True)]"
    using p by (simp_all add: hold_nth x r' hold_update)
  then show ?thesis using Some p(1) by auto
qed

definition inst :: "string \<Rightarrow> (string \<times> bool) option \<Rightarrow> (string \<times> bool) option" where
  "inst x old = (if x = [] then None
     else case old of Some (y, b) \<Rightarrow> (if y = x then old else Some (x, False)) | None \<Rightarrow> Some (x, False))"

definition install_all :: "(nat \<times> string) list \<Rightarrow> (string \<times> bool) option list \<Rightarrow> (string \<times> bool) option list" where
  "install_all ps H = fold (\<lambda>(p, x) H. if p < length H then H[p := inst x (H ! p)] else H) ps H"

definition id_at :: "string list \<Rightarrow> nat \<Rightarrow> string" where
  "id_at ids k = (case nth_opt ids k of None \<Rightarrow> [] | Some e \<Rightarrow> e)"

lemma sync_slot_hold:
  assumes "sync_slot reg now b auto x rid slot = (s', dropped)"
  shows "map_option (\<lambda>e. (es_episode_id e, es_ended e)) (sl_episode s')
     = inst x (map_option (\<lambda>e. (es_episode_id e, es_ended e)) (sl_episode slot))"
proof (cases "sl_episode slot")
  case None
  then show ?thesis using assms by (auto simp: sync_slot_def Let_def inst_def)
next
  case (Some e)
  then show ?thesis using assms by (cases "es_episode_id e = x") (auto simp: sync_slot_def Let_def inst_def)
qed

lemma hold_sync_lane:
  "hold (sync_lane now ids rids b auto (k, p) r) =
     (if p < length (hold r) then (hold r)[p := inst (id_at ids k) (hold r ! p)] else hold r)"
proof (cases "p < length (ro_slots r)")
  case True
  let ?s = "sync_slot (ro_records r) (now k) b auto (id_at ids k)
      (case nth_opt rids k of None \<Rightarrow> [] | Some e \<Rightarrow> e) (ro_slots r ! p)"
  obtain s' dropped where s: "?s = (s', dropped)" by (cases ?s)
  have "nth_opt (ro_slots r) p = Some (ro_slots r ! p)" using True by (simp add: nth_opt_eq)
  then show ?thesis using True s sync_slot_hold [OF s]
    by (simp add: sync_lane_def id_at_def held hold_update hold_nth)
qed (simp add: sync_lane_def nth_opt_eq)

lemma hold_sync_slots:
  "hold (sync_slots now ps ids rids b auto r) = install_all (zip ps (map (id_at ids) [0..<length ps])) (hold r)"
proof -
  have "hold (fold (sync_lane now ids rids b auto) ks r) =
      install_all (map (\<lambda>(k, p). (p, id_at ids k)) ks) (hold r)" for ks
    by (induction ks arbitrary: r) (auto simp: install_all_def hold_sync_lane)
  moreover have "map (\<lambda>(k, p). (p, id_at ids k)) (zip [0..<length ps] ps) = zip ps (map (id_at ids) [0..<length ps])"
    by (intro nth_equalityI) auto
  ultimately show ?thesis by (simp add: sync_slots_def)
qed

section \<open>The ledger\<close>

definition minted :: "cfg \<Rightarrow> nat \<Rightarrow> string set" where
  "minted c m = cf_uuid c ` {..<m}"

definition slot_ids :: "(string \<times> bool) option list \<Rightarrow> string set" where
  "slot_ids H = {x. \<exists>b. Some (x, b) \<in> set H}"

text \<open>
  \<open>ledger c m H E N\<close>: \<open>m\<close> ids minted, slots \<open>H\<close>, evictions \<open>E\<close>, staged ids \<open>N\<close>.
\<close>

definition ledger :: "cfg \<Rightarrow> nat \<Rightarrow> (string \<times> bool) option list \<Rightarrow> string multiset \<Rightarrow> string multiset \<Rightarrow> bool" where
  "ledger c m H E N \<longleftrightarrow>
     (\<forall>x. count E x \<le> 1) \<and> (\<forall>x. count N x \<le> 1) \<and>
     set_mset E \<union> set_mset N \<union> slot_ids H \<subseteq> minted c m \<and>
     set_mset N \<inter> (set_mset E \<union> slot_ids H) = {} \<and>
     (\<forall>p < length H. \<forall>x. H ! p = Some (x, False) \<longrightarrow> x \<notin># E) \<and>
     (\<forall>p < length H. \<forall>q < length H. \<forall>x b b'. H ! p = Some (x, b) \<longrightarrow> H ! q = Some (x, b') \<longrightarrow> p = q)"

lemma slot_ids_nth: "x \<in> slot_ids H \<longleftrightarrow> (\<exists>p < length H. \<exists>b. H ! p = Some (x, b))"
  by (auto simp: slot_ids_def in_set_conv_nth)

lemma ledgerD:
  assumes "ledger c m H E N"
  shows "count E x \<le> 1" "count N x \<le> 1" "x \<in># E \<Longrightarrow> x \<in> minted c m" "x \<in># N \<Longrightarrow> x \<in> minted c m"
    "p < length H \<Longrightarrow> H ! p = Some (x, b) \<Longrightarrow> x \<in> minted c m"
    "x \<in># N \<Longrightarrow> x \<notin># E" "x \<in># N \<Longrightarrow> p < length H \<Longrightarrow> H ! p \<noteq> Some (x, b)"
    "p < length H \<Longrightarrow> H ! p = Some (x, False) \<Longrightarrow> x \<notin># E"
    "p < length H \<Longrightarrow> q < length H \<Longrightarrow> H ! p = Some (x, b) \<Longrightarrow> H ! q = Some (x, b') \<Longrightarrow> p = q"
proof -
  have sub: "set_mset E \<union> set_mset N \<union> slot_ids H \<subseteq> minted c m"
    and dis: "set_mset N \<inter> (set_mset E \<union> slot_ids H) = {}"
    using assms by (simp_all only: ledger_def)
  show "count E x \<le> 1" "count N x \<le> 1"
    "p < length H \<Longrightarrow> H ! p = Some (x, False) \<Longrightarrow> x \<notin># E"
    "p < length H \<Longrightarrow> q < length H \<Longrightarrow> H ! p = Some (x, b) \<Longrightarrow> H ! q = Some (x, b') \<Longrightarrow> p = q"
    using assms unfolding ledger_def by blast+
  show "x \<in># E \<Longrightarrow> x \<in> minted c m" "x \<in># N \<Longrightarrow> x \<in> minted c m" "x \<in># N \<Longrightarrow> x \<notin># E" using sub dis by blast+
  show "p < length H \<Longrightarrow> H ! p = Some (x, b) \<Longrightarrow> x \<in> minted c m"
    using sub slot_ids_nth [of x H] by blast
  show "x \<in># N \<Longrightarrow> p < length H \<Longrightarrow> H ! p \<noteq> Some (x, b)"
    using dis slot_ids_nth [of x H] by blast
qed

lemma ledgerI:
  assumes "\<And>x. count E x \<le> 1" "\<And>x. count N x \<le> 1" "\<And>x. x \<in># E \<Longrightarrow> x \<in> minted c m"
    "\<And>x. x \<in># N \<Longrightarrow> x \<in> minted c m" "\<And>p x b. p < length H \<Longrightarrow> H ! p = Some (x, b) \<Longrightarrow> x \<in> minted c m"
    "\<And>x. x \<in># N \<Longrightarrow> x \<notin># E" "\<And>p x b. x \<in># N \<Longrightarrow> p < length H \<Longrightarrow> H ! p \<noteq> Some (x, b)"
    "\<And>p x. p < length H \<Longrightarrow> H ! p = Some (x, False) \<Longrightarrow> x \<notin># E"
    "\<And>p q x b b'. p < length H \<Longrightarrow> q < length H \<Longrightarrow> H ! p = Some (x, b) \<Longrightarrow> H ! q = Some (x, b') \<Longrightarrow> p = q"
  shows "ledger c m H E N"
proof -
  have "slot_ids H \<subseteq> minted c m" using assms(5) by (auto simp: slot_ids_nth)
  moreover have "set_mset N \<inter> (set_mset E \<union> slot_ids H) = {}" using assms(6,7) by (auto simp: slot_ids_nth)
  ultimately show ?thesis using assms(1-4,8,9) unfolding ledger_def by blast
qed

lemma ledger_evict:
  assumes l: "ledger c m H E N" and p: "p < length H" "H ! p = Some (x, False)"
  shows "ledger c m (H[p := Some (x, True)]) (add_mset x E) N"
proof -
  note L = ledgerD [OF l]
  have new: "x \<notin># E" using L(8) p by blast
  have same: "(H[p := Some (x, True)]) ! q = (if q = p then Some (x, True) else H ! q)" if "q < length H" for q
    using p(1) that by (simp add: nth_list_update)
  show ?thesis
  proof (rule ledgerI)
    show "count (add_mset x E) y \<le> 1" for y using L(1) [of y] new by (auto simp: not_in_iff)
    show "y \<in># add_mset x E \<Longrightarrow> y \<in> minted c m" for y using L(3,5) p by auto
    show "y \<in># N \<Longrightarrow> y \<notin># add_mset x E" for y using L(6,7) p by auto
    show "q < length (H[p := Some (x, True)]) \<Longrightarrow> H[p := Some (x, True)] ! q = Some (y, False) \<Longrightarrow> y \<notin># add_mset x E" for q y
      by (cases "q = p") (use same [of q] L(8) [of q y] L(9) [of p q x False False] p in auto)
    show "q < length (H[p := Some (x, True)]) \<Longrightarrow> H[p := Some (x, True)] ! q = Some (y, b) \<Longrightarrow> y \<in> minted c m" for q y b
      by (cases "q = p") (use same [of q] L(5) [of q y b] L(5) [OF p] in auto)
    show "y \<in># N \<Longrightarrow> q < length (H[p := Some (x, True)]) \<Longrightarrow> H[p := Some (x, True)] ! q \<noteq> Some (y, b)" for y q b
      by (cases "q = p") (use same [of q] L(7) [of y q b] L(7) [of y p False] p in auto)
    show "q = q'" if "q < length (H[p := Some (x, True)])" "q' < length (H[p := Some (x, True)])"
      "H[p := Some (x, True)] ! q = Some (y, b)" "H[p := Some (x, True)] ! q' = Some (y, b')" for q q' y b b'
      by (cases "q = p"; cases "q' = p")
        (use that same [of q] same [of q'] L(9) [of q q' y b b'] L(9) [of p q' y False b'] L(9) [of q p y b False] p in auto)
  qed (use L in auto)
qed

lemma ledger_drop:
  assumes l: "ledger c m H E N" and sub: "N' \<subseteq># N"
  shows "ledger c m H E N'"
proof -
  note L = ledgerD [OF l]
  have keep: "x \<in># N" if "x \<in># N'" for x using that sub by (rule mset_subset_eqD [rotated])
  show ?thesis
  proof (rule ledgerI)
    show "count N' x \<le> 1" for x using L(2) [of x] mset_subset_eq_count [OF sub, of x] by simp
    show "x \<in># N' \<Longrightarrow> x \<in> minted c m" for x using L(4) keep by blast
    show "x \<in># N' \<Longrightarrow> x \<notin># E" for x using L(6) keep by blast
    show "x \<in># N' \<Longrightarrow> p < length H \<Longrightarrow> H ! p \<noteq> Some (x, b)" for x p b using L(7) keep by blast
  qed (use L in auto)
qed

lemma ledger_mint:
  assumes l: "ledger c m H E N" and "inj (cf_uuid c)"
  shows "ledger c (m + n) H E (N + mset (map (cf_uuid c) [m..<m + n]))"
proof -
  note L = ledgerD [OF l]
  define new where "new = mset (map (cf_uuid c) [m..<m + n])"
  have sub: "minted c m \<subseteq> minted c (m + n)" by (auto simp: minted_def)
  have fresh: "x \<notin> minted c m" if "x \<in># new" for x using that assms(2) by (auto simp: new_def minted_def inj_eq)
  have "distinct (map (cf_uuid c) [m..<m + n])"
    using inj_on_subset [OF assms(2) subset_UNIV] by (simp add: distinct_map)
  then have one: "count new x \<le> 1" for x unfolding new_def by (metis distinct_count_atmost_1 order_refl zero_le)
  show ?thesis unfolding new_def [symmetric]
  proof (rule ledgerI)
    show "count (N + new) x \<le> 1" for x
    proof (cases "x \<in># new")
      case True
      then have "x \<notin># N" using fresh L(4) by blast
      then show ?thesis using one [of x] by (simp add: not_in_iff)
    qed (use L(2) [of x] in \<open>simp add: not_in_iff\<close>)
    show "x \<in># N + new \<Longrightarrow> x \<in> minted c (m + n)" for x using L(4) sub by (auto simp: new_def minted_def)
    show "x \<in># N + new \<Longrightarrow> x \<notin># E" for x using L(3,6) fresh by auto
    show "x \<in># N + new \<Longrightarrow> p < length H \<Longrightarrow> H ! p \<noteq> Some (x, b)" for x p b
      using L(5) [of p x b] L(7) [of x p b] fresh [of x] by auto
  qed (use L sub in auto)
qed

lemma ledger_install:
  assumes l: "ledger c m H E N" and p: "p < length H" and x: "x \<in># N"
  shows "ledger c m (H[p := Some (x, False)]) E (N - {#x#})"
proof -
  note L = ledgerD [OF l]
  have gone: "x \<notin># N - {#x#}" using L(2) [of x] x by (simp add: in_diff_count)
  have keep: "y \<in># N" if "y \<in># N - {#x#}" for y using that by (rule in_diffD)
  have same: "(H[p := Some (x, False)]) ! q = (if q = p then Some (x, False) else H ! q)" if "q < length H" for q
    using p that by (simp add: nth_list_update)
  show ?thesis
  proof (rule ledgerI)
    show "count (N - {#x#}) y \<le> 1" for y using L(2) [of y] by (simp add: le_diff_conv)
    show "q < length (H[p := Some (x, False)]) \<Longrightarrow> H[p := Some (x, False)] ! q = Some (y, b) \<Longrightarrow> y \<in> minted c m" for q y b
      by (cases "q = p") (use same [of q] L(5) [of q y b] L(4) [OF x] in auto)
    show "y \<in># N - {#x#} \<Longrightarrow> q < length (H[p := Some (x, False)]) \<Longrightarrow> H[p := Some (x, False)] ! q \<noteq> Some (y, b)" for y q b
      by (cases "q = p") (use same [of q] L(7) [OF keep, of y q b] gone in auto)
    show "q < length (H[p := Some (x, False)]) \<Longrightarrow> H[p := Some (x, False)] ! q = Some (y, False) \<Longrightarrow> y \<notin># E" for q y
      by (cases "q = p") (use same [of q] L(8) [of q y] L(6) [OF x] in auto)
    show "q = q'" if "q < length (H[p := Some (x, False)])" "q' < length (H[p := Some (x, False)])"
      "H[p := Some (x, False)] ! q = Some (y, b)" "H[p := Some (x, False)] ! q' = Some (y, b')" for q q' y b b'
      by (cases "q = p"; cases "q' = p")
        (use that same [of q] same [of q'] L(9) [of q q' y b b'] L(7) [OF x, of q' b'] L(7) [OF x, of q b] in auto)
  qed (use L keep in auto)
qed

lemma ledger_clear: "ledger c m H E N \<Longrightarrow> ledger c m (H[p := None]) E N"
proof -
  assume l: "ledger c m H E N"
  note L = ledgerD [OF l]
  have same: "H[p := None] ! q = Some z \<Longrightarrow> q < length H \<Longrightarrow> H ! q = Some z" for q z
    by (cases "p < length H") (auto simp: nth_list_update split: if_splits)
  show ?thesis
  proof (rule ledgerI)
    show "q < length (H[p := None]) \<Longrightarrow> H[p := None] ! q = Some (x, b) \<Longrightarrow> x \<in> minted c m" for q x b
      using same [of q "(x, b)"] L(5) [of q x b] by simp
    show "x \<in># N \<Longrightarrow> q < length (H[p := None]) \<Longrightarrow> H[p := None] ! q \<noteq> Some (x, b)" for x q b
      using same [of q "(x, b)"] L(7) [of x q b] by auto
    show "q < length (H[p := None]) \<Longrightarrow> H[p := None] ! q = Some (x, False) \<Longrightarrow> x \<notin># E" for q x
      using same [of q "(x, False)"] L(8) [of q x] by simp
    show "q < length (H[p := None]) \<Longrightarrow> q' < length (H[p := None]) \<Longrightarrow> H[p := None] ! q = Some (x, b) \<Longrightarrow>
        H[p := None] ! q' = Some (x, b') \<Longrightarrow> q = q'" for q q' x b b'
      using same [of q "(x, b)"] same [of q' "(x, b')"] L(9) [of q q' x b b'] by simp
  qed (use L in auto)
qed

text \<open>Installing one id, whatever it is: none, the one already there, or a staged one.\<close>

lemma ledger_inst:
  assumes l: "ledger c m H E N" and "[] \<notin># N"
    and x: "x = [] \<or> (\<exists>b. H ! p = Some (x, b)) \<or> x \<in># N"
  shows "ledger c m (if p < length H then H[p := inst x (H ! p)] else H) E (N - {#x#})"
proof -
  have drop: "ledger c m H' E N \<Longrightarrow> ledger c m H' E (N - {#x#})" for H' by (erule ledger_drop) simp
  show ?thesis
  proof (cases "p < length H")
    case p: True
    consider (none) "x = []" | (same) b where "x \<noteq> []" "H ! p = Some (x, b)" | (new) "x \<noteq> []" "x \<in># N" using x by blast
    then show ?thesis
    proof cases
      case none
      then show ?thesis using drop [OF ledger_clear [OF l]] p by (simp add: inst_def)
    next
      case (same b)
      then have "inst x (H ! p) = H ! p" by (simp add: inst_def)
      then show ?thesis using drop [OF l] p by simp
    next
      case new
      then have "H ! p \<noteq> Some (x, b)" for b using ledgerD(7) [OF l _ p] by blast
      then have "inst x (H ! p) = Some (x, False)" using new by (auto simp: inst_def split: option.splits)
      then show ?thesis using ledger_install [OF l p new(2)] p by simp
    qed
  qed (use drop [OF l] in simp)
qed

lemma install_nth:
  "p \<noteq> q \<Longrightarrow> (if p < length H then H[p := y] else H) ! q = H ! q"
  by simp

lemma ledger_install_all:
  assumes "ledger c m H E N" "[] \<notin># N" "distinct (map fst ps)"
    "\<And>p x. (p, x) \<in> set ps \<Longrightarrow> x = [] \<or> (\<exists>b. H ! p = Some (x, b)) \<or> x \<in># N"
    "\<And>p q x. (p, x) \<in> set ps \<Longrightarrow> (q, x) \<in> set ps \<Longrightarrow> x \<in># N \<Longrightarrow> p = q"
  shows "ledger c m (install_all ps H) E {# x \<in># N. x \<notin> snd ` set ps #}"
  using assms
proof (induction ps arbitrary: H N)
  case Nil
  then show ?case by (simp add: install_all_def)
next
  case (Cons a ps)
  obtain p x where a: "a = (p, x)" by (cases a)
  let ?H = "if p < length H then H[p := inst x (H ! p)] else H" and ?N = "N - {#x#}"
  have step: "ledger c m ?H E ?N" using ledger_inst [OF Cons.prems(1,2)] Cons.prems(4) [of p x] a by simp
  have p: "q \<noteq> p" if "(q, y) \<in> set ps" for q y using that Cons.prems(3) a by force
  have "ledger c m (install_all ps ?H) E {# y \<in># ?N. y \<notin> snd ` set ps #}"
  proof (rule Cons.IH [OF step])
    show "[] \<notin># ?N" using Cons.prems(2) by (meson in_diffD)
    show "distinct (map fst ps)" using Cons.prems(3) by simp
    fix q y assume q: "(q, y) \<in> set ps"
    have "?H ! q = H ! q" using p [OF q] by (intro install_nth) simp
    moreover have "y = [] \<or> (\<exists>b. H ! q = Some (y, b)) \<or> y \<in># N" using Cons.prems(4) q by simp
    moreover have "y \<in># ?N" if "y \<in># N"
    proof -
      have "y \<noteq> x" using Cons.prems(5) [of q y p] that q p [OF q] a by auto
      then show ?thesis using that by (simp add: in_diff_count)
    qed
    ultimately show "y = [] \<or> (\<exists>b. ?H ! q = Some (y, b)) \<or> y \<in># ?N" by auto
    show "(q', y) \<in> set ps \<Longrightarrow> y \<in># ?N \<Longrightarrow> q = q'" for q'
      using Cons.prems(5) [of q y q'] q in_diffD [of y N "{#x#}"] by simp
  qed
  moreover have "{# y \<in># N. y \<notin> snd ` set (a # ps) #} \<subseteq># {# y \<in># ?N. y \<notin> snd ` set ps #}"
    by (rule mset_subset_eqI) (simp add: a)
  ultimately show ?case using ledger_drop by (fastforce simp: install_all_def a)
qed

section \<open>Rolls\<close>

text \<open>Which ids a roll leaves: a lane keeps its id or takes the id the roll names for it.\<close>

lemma position_nth: "position (\<lambda>y. y = x) xs = Some k \<Longrightarrow> k < length xs \<and> xs ! k = x"
  by (auto dest: position_SomeD)

lemma with_roll_length [simp]: "length (episode_ids_with_roll ids lanes roll) = length ids"
proof -
  have "length (fold (\<lambda>(e, x) ids. case position (\<lambda>lane. lane = e) lanes of Some p \<Rightarrow> ids[p := x] | None \<Rightarrow> ids)
      roll ids) = length ids" for ids :: "string list"
    by (induction roll arbitrary: ids) (auto split: option.splits)
  then show ?thesis by (simp add: episode_ids_with_roll_def)
qed

lemma with_roll_nth:
  assumes "k < length ids"
  shows "episode_ids_with_roll ids lanes roll ! k = ids ! k \<or>
    (\<exists>e. (e, episode_ids_with_roll ids lanes roll ! k) \<in> set roll \<and> position (\<lambda>lane. lane = e) lanes = Some k)"
  using assms
proof (induction roll rule: rev_induct)
  case (snoc a roll)
  obtain e x where a: "a = (e, x)" by (cases a)
  have "episode_ids_with_roll ids lanes (roll @ [a]) = (case position (\<lambda>lane. lane = e) lanes of
      Some p \<Rightarrow> (episode_ids_with_roll ids lanes roll)[p := x] | None \<Rightarrow> episode_ids_with_roll ids lanes roll)"
    unfolding episode_ids_with_roll_def by (simp add: a)
  with snoc show ?case
    by (cases "position (\<lambda>lane. lane = e) lanes"; cases "position (\<lambda>lane. lane = e) lanes = Some k") (auto simp: a)
qed (simp add: episode_ids_with_roll_def)

section \<open>Ending episodes\<close>

lemma ledger_end_all:
  assumes "ledger c m (hold r) E N" "end_all idxs r = (ids, r')"
  shows "ledger c m (hold r') (E + mset ids) N"
  using assms
proof (induction idxs arbitrary: r ids r' E)
  case (Cons k idxs)
  obtain e r1 where e: "end_episode_at k r = (e, r1)" by (cases "end_episode_at k r")
  obtain ids2 r2 where rest: "end_all idxs r1 = (ids2, r2)" by (cases "end_all idxs r1")
  have r': "r' = r2" and ids: "ids = (case e of Some x \<Rightarrow> x # ids2 | None \<Rightarrow> ids2)"
    using Cons.prems(2) e rest by auto
  have "ledger c m (hold r1) (E + (case e of Some x \<Rightarrow> {#x#} | None \<Rightarrow> {#})) N"
    using hold_end_episode [OF e] Cons.prems(1) ledger_evict [OF Cons.prems(1)] by auto
  from Cons.IH [OF this rest] show ?case by (simp add: r' ids ac_simps split: option.splits)
qed simp

end
