(* ===== verification/Evictions.thy ===== *)
theory Evictions
  imports Ledger
begin

text \<open>
  The model is told the end of an episode at most once. The evictions of a state are the ids sent
  in \<open>reset_adapter\<close> calls, the ids queued for the next one and the ids held back behind a predict;
  with the ids staged in the groups and those in the slots they form a ledger, which every move of
  the loop keeps.
\<close>

section \<open>The ledger of a driver state\<close>

definition evict_ids :: "trace_item \<Rightarrow> string list" where
  "evict_ids t = (case t of CallEvict rq _ \<Rightarrow> ra_episode_ids rq | _ \<Rightarrow> [])"

definition evicted :: "drv \<Rightarrow> string list" where
  "evicted d = concat (map evict_ids (dr_trace d))"

definition evs :: "drv \<Rightarrow> string multiset" where
  "evs d = mset (evicted d) + mset (dr_pending_evictions d) + mset (map snd (dr_held_evictions d))"

definition pend :: "group \<Rightarrow> string list" where
  "pend g = (case g_pending_start g of None \<Rightarrow> [] | Some (ids, _) \<Rightarrow> ids) @ map snd (g_pending_roll g)"

definition pends :: "drv \<Rightarrow> string multiset" where
  "pends d = mset (concat (map pend (dr_groups d)))"

definition ev_inv :: "cfg \<Rightarrow> drv \<Rightarrow> bool" where
  "ev_inv c d \<longleftrightarrow> ledger c (dr_minted d) (hold (dr_route d)) (evs d) (pends d)"

definition fresh_ids :: "cfg \<Rightarrow> bool" where
  "fresh_ids c \<longleftrightarrow> inj (cf_uuid c) \<and> (\<forall>n. cf_uuid c n \<noteq> [])"

lemma evicted_calls: "evicted d = concat (map evict_ids (model_calls d))"
proof -
  have "concat (map evict_ids ts) = concat (map evict_ids (filter is_model_call ts))" for ts
    by (induction ts) (auto simp: evict_ids_def is_model_call_def split: trace_item.splits)
  then show ?thesis by (simp add: evicted_def model_calls_def)
qed

text \<open>What the ledger reads of a state.\<close>

definition ev_view :: "drv \<Rightarrow> nat \<times> (string \<times> bool) option list \<times> string list \<times> (nat \<times> string) list \<times> string list list" where
  "ev_view d = (dr_minted d, hold (dr_route d), dr_pending_evictions d, dr_held_evictions d, map pend (dr_groups d))"

lemma ev_inv_view: "ev_view d' = ev_view d \<Longrightarrow> model_calls d' = model_calls d \<Longrightarrow> ev_inv c d' \<longleftrightarrow> ev_inv c d"
  by (simp add: ev_view_def ev_inv_def evs_def pends_def evicted_calls)

lemma ev_invI: "ev_inv c d \<Longrightarrow> ev_view d' = ev_view d \<Longrightarrow> model_calls d' = model_calls d \<Longrightarrow> ev_inv c d'"
  using ev_inv_view by blast

lemma pends_update:
  assumes "gid < length (dr_groups d)" "dr_groups d' = (dr_groups d)[gid := g]"
  shows "pends d' + mset (pend (dr_groups d ! gid)) = pends d + mset (pend g)"
proof -
  have "dr_groups d = take gid (dr_groups d) @ dr_groups d ! gid # drop (Suc gid) (dr_groups d)"
    using assms(1) by (rule id_take_nth_drop)
  then have "mset (concat (map pend (dr_groups d))) = mset (concat (map pend (take gid (dr_groups d)))) +
      mset (pend (dr_groups d ! gid)) + mset (concat (map pend (drop (Suc gid) (dr_groups d))))"
    by (metis (no_types, lifting) concat.simps(2) concat_append list.simps(9) map_append mset_append union_assoc)
  then show ?thesis using assms by (simp add: pends_def upd_conv_take_nth_drop ac_simps)
qed

lemma pends_group:
  assumes "gid < length (dr_groups d)"
  shows "mset (pend (dr_groups d ! gid)) \<subseteq># pends d"
proof -
  have "dr_groups d = take gid (dr_groups d) @ dr_groups d ! gid # drop (Suc gid) (dr_groups d)"
    using assms by (rule id_take_nth_drop)
  then have "pends d = mset (concat (map pend (take gid (dr_groups d) @ dr_groups d ! gid # drop (Suc gid) (dr_groups d))))"
    by (metis pends_def)
  then show ?thesis by simp
qed

lemma pends_drop:
  assumes "gid < length (dr_groups d)" "dr_groups d' = (dr_groups d)[gid := g]"
    "mset (pend g) \<subseteq># mset (pend (dr_groups d ! gid))"
  shows "pends d' = pends d - (mset (pend (dr_groups d ! gid)) - mset (pend g))"
proof -
  have "pends d' + mset (pend (dr_groups d ! gid)) = pends d + mset (pend g)" by (rule pends_update [OF assms(1,2)])
  then have "pends d' = pends d + mset (pend g) - mset (pend (dr_groups d ! gid))" by (metis add_diff_cancel_right')
  then show ?thesis using assms(3) pends_group [OF assms(1)]
    by (metis add.commute add_diff_cancel_left diff_diff_add_mset subset_mset.add_diff_inverse subset_mset.diff_add)
qed

section \<open>Moves that leave the ledger alone\<close>

named_theorems view

lemma view_updates [view]:
  "ev_view (emit t d) = ev_view d" "ev_view (emit_all ts d) = ev_view d" "ev_view (on_agg f d) = ev_view d"
  "ev_view (d\<lparr>dr_agg := a\<rparr>) = ev_view d" "ev_view (d\<lparr>dr_env_ops := ops\<rparr>) = ev_view d"
  "ev_view (d\<lparr>dr_predicts := ps\<rparr>) = ev_view d" "ev_view (d\<lparr>dr_advisories := as\<rparr>) = ev_view d"
  "ev_view (d\<lparr>dr_trial_options_warned := b\<rparr>) = ev_view d" "ev_view (d\<lparr>dr_trace := tr\<rparr>) = ev_view d"
  "ev_view (d\<lparr>dr_vector_replay_warned := b\<rparr>) = ev_view d"
  "hold r = hold (dr_route d) \<Longrightarrow> ev_view (set_route r d) = ev_view d"
  by (simp_all add: ev_view_def emit_def emit_all_def on_agg_def set_route_def)

lemma view_set_group:
  assumes "gid < length (dr_groups d) \<Longrightarrow> pend g = pend (dr_groups d ! gid)"
  shows "ev_view (set_group gid g d) = ev_view d"
  using assms by (cases "gid < length (dr_groups d)")
    (simp_all add: ev_view_def set_group_def map_update list_update_same_conv list_update_beyond)

lemma view_advisory [view]: "ev_view (raise_advisory s x l adv d) = ev_view d"
  by (simp add: raise_advisory_def view)

lemma view_relay: "relay c l s x sp p d = (r, d') \<Longrightarrow> ev_view d' = ev_view d \<and> dr_groups d' = dr_groups d"
  by (auto simp: relay_def view raise_advisory_def emit_def split: option.splits relay_decision.splits)

lemma view_transform_action:
  "invoke_transform_action c i ev d = (r, d') \<Longrightarrow> ev_view d' = ev_view d \<and> dr_groups d' = dr_groups d"
  by (auto simp: invoke_transform_action_def Let_def view on_agg_def split: sum.splits dest!: view_relay)

lemma view_transform_observation:
  "invoke_transform_observation c i ev d = (r, d') \<Longrightarrow> ev_view d' = ev_view d \<and> dr_groups d' = dr_groups d"
  by (auto simp: invoke_transform_observation_def Let_def view on_agg_def split: sum.splits dest!: view_relay)

lemma view_observe:
  assumes "observe c i gid ob infos ph b d = (d', f)"
  shows "ev_view d' = ev_view d"
proof (cases "nth_opt (dr_groups d) gid")
  case None
  then show ?thesis using assms by (simp add: observe_def)
next
  case (Some g)
  obtain msg rt where rq: "predict_request_at (g_positions g) ob ph (dr_route d) = (msg, rt)"
    by (cases "predict_request_at (g_positions g) ob ph (dr_route d)")
  let ?d1 = "set_route rt d" and ?ev = "observation_event_for c g b ob infos rt"
  obtain r d2 where tr: "invoke_transform_observation c i ?ev ?d1 = (r, d2)"
    by (cases "invoke_transform_observation c i ?ev ?d1")
  have v: "ev_view d2 = ev_view d" "dr_groups d2 = dr_groups d"
    using view_transform_observation [OF tr] hold_requests(1) [OF rq] by (simp_all add: view)
  have g: "dr_groups d ! gid = g" using Some by (simp add: nth_opt_eq split: if_splits)
  show ?thesis
  proof (cases r)
    case (Inl e)
    then show ?thesis using assms Some rq tr v by (auto simp: observe_def Let_def)
  next
    case (Inr x)
    obtain transformed relayed where x: "x = (transformed, relayed)" by (cases x)
    define ev' where "ev' = ?ev\<lparr>oe_observation := transformed, oe_observation_space :=
        (case relayed of Some s \<Rightarrow> s | None \<Rightarrow> oe_observation_space ?ev)\<rparr>"
    have run: "(case take_observation c (msg\<lparr>pq_observation := transformed\<rparr>) g (dr_agg d2) of
        Inl e \<Rightarrow> (emit (ObservationEmitted ev') d2, Some (Err (Protocol e)))
      | Inr (g', agg) \<Rightarrow> (set_group gid g' ((emit (ObservationEmitted ev') d2)\<lparr>dr_agg := agg\<rparr>), None)) = (d', f)"
      using assms Some rq tr unfolding ev'_def by (simp add: observe_def Let_def Inr x)
    show ?thesis
    proof (cases "take_observation c (msg\<lparr>pq_observation := transformed\<rparr>) g (dr_agg d2)")
      case (Inl e)
      then show ?thesis using run v by (auto simp: view)
    next
      case (Inr y)
      obtain g' agg where y: "y = (g', agg)" by (cases y)
      have "pend g' = pend g" using take_observation_group [OF Inr [unfolded y]] by (simp add: pend_def)
      then have "ev_view (set_group gid g' ((emit (ObservationEmitted ev') d2)\<lparr>dr_agg := agg\<rparr>)) =
          ev_view ((emit (ObservationEmitted ev') d2)\<lparr>dr_agg := agg\<rparr>)"
        using g v by (intro view_set_group) (simp add: emit_def)
      then show ?thesis using run v by (auto simp: Inr y view)
    qed
  qed
qed

lemma latest_request_pend: "latest_request c g agg = (m, g', agg') \<Longrightarrow> pend g' = pend g"
  by (auto simp: latest_request_def pend_def Let_def split: option.splits if_splits)

lemma view_prefetch:
  assumes "prefetch c gid g d = (g2, d2)" "gid < length (dr_groups d)" "pend g = pend (dr_groups d ! gid)"
  shows "ev_view d2 = ev_view d" "pend g2 = pend g" "dr_groups d2 = (dr_groups d)[gid := g2]"
proof -
  show p: "pend g2 = pend g" using assms(1)
    by (auto simp: prefetch_def Let_def pend_def [of "g\<lparr>g_predict := p\<rparr>" for g p] pend_def [symmetric]
        dest!: latest_request_pend split: if_splits prod.splits option.splits)
  show g: "dr_groups d2 = (dr_groups d)[gid := g2]" using assms(1) by (rule prefetch_group)
  have "ev_view d2 = ev_view (set_group gid g2 d)" using assms(1)
    by (auto simp: prefetch_def ev_view_def set_group_def Let_def split: if_splits prod.splits)
  then show "ev_view d2 = ev_view d" using view_set_group [of gid d g2] p assms(3) by simp
qed

lemma view_send_step:
  assumes "send_step c i gid g a d = (d', f)" "gid < length (dr_groups d)" "pend g = pend (dr_groups d ! gid)"
  shows "ev_view d' = ev_view d"
proof -
  let ?ev = "action_event_for c g a (dr_route d)"
  obtain r d1 where tr: "invoke_transform_action c i ?ev d = (r, d1)" by (cases "invoke_transform_action c i ?ev d")
  have v: "ev_view d1 = ev_view d" "dr_groups d1 = dr_groups d" using view_transform_action [OF tr] by simp_all
  have "ev_view (set_group gid (g\<lparr>g_env := False, g_phase := Stepping\<rparr>) d2) = ev_view d2" if "dr_groups d2 = dr_groups d" for d2
    using that assms(3) by (intro view_set_group) (simp add: pend_def)
  then show ?thesis using assms(1) tr v
    by (auto simp: send_step_def Let_def view split: sum.splits if_splits)
qed

lemma view_dispatch_step:
  assumes "dispatch_step c i gid d = (d', f)" "gid < length (dr_groups d)"
  shows "ev_view d' = ev_view d"
proof -
  let ?g0 = "dr_groups d ! gid"
  define g1 where "g1 = (case (g_replay ?g0, g_predict ?g0) of
      ([], PReady frames) \<Rightarrow> ?g0\<lparr>g_replay := frames, g_predict := PNone\<rparr> | _ \<Rightarrow> ?g0)"
  have p1: "pend (g1\<lparr>g_replay := rs\<rparr>) = pend ?g0" "pend g1 = pend ?g0" for rs
    by (auto simp: g1_def pend_def split: list.splits predict_state.splits)
  show ?thesis
  proof (cases "g_phase ?g0 = Ready")
    case False
    then show ?thesis using assms by (simp add: dispatch_step_def nth_opt_eq)
  next
    case True
    show ?thesis
    proof (cases "g_replay g1")
      case Nil
      then have "d' = set_group gid g1 d" using assms True by (simp add: dispatch_step_def nth_opt_eq g1_def)
      then show ?thesis using p1 by (simp add: view_set_group)
    next
      case (Cons a rest)
      obtain g2 d2 where pf: "prefetch c gid (g1\<lparr>g_replay := rest\<rparr>) d = (g2, d2)"
        by (cases "prefetch c gid (g1\<lparr>g_replay := rest\<rparr>) d")
      have "send_step c i gid g2 a d2 = (d', f)"
        using assms True Cons pf by (simp add: dispatch_step_def nth_opt_eq g1_def)
      moreover note v = view_prefetch [OF pf assms(2) p1(1)]
      ultimately show ?thesis using view_send_step [of c i gid g2 a d2 d' f] assms(2) by simp
    qed
  qed
qed

lemma view_gather: "gather c gids st acc d = (r, d') \<Longrightarrow> ev_view d' = ev_view d"
proof (induction c gids st acc d rule: gather.induct)
  case (2 c gid rest st acc d)
  have "ev_view (set_route (mark_predicted (g_positions g) (dr_route d))
      (set_group gid (g\<lparr>g_predict := PInFlight False\<rparr>) d)) = ev_view d"
    if "nth_opt (dr_groups d) gid = Some g" for g
  proof -
    have "ev_view (set_group gid (g\<lparr>g_predict := PInFlight False\<rparr>) d) = ev_view d"
      using that by (intro view_set_group) (auto simp: nth_opt_eq pend_def split: if_splits)
    then show ?thesis by (simp add: view held)
  qed
  with 2 show ?case by (auto simp: Let_def split: option.splits predict_state.splits)
qed simp

lemma view_predict_for: "predict_for c gids d = (d', f) \<Longrightarrow> ev_view d' = ev_view d"
  by (auto simp: predict_for_def view dest!: view_gather split: prod.splits sum.splits)

section \<open>Moves of the ledger\<close>

lemma ev_inv_cong:
  assumes "ev_inv c d" "dr_minted d' = dr_minted d" "evs d' = evs d" "hold (dr_route d') = hold (dr_route d)"
    "pends d' \<subseteq># pends d"
  shows "ev_inv c d'"
  using assms ledger_drop unfolding ev_inv_def by metis

lemma land_predict_pend: "land_predict c g frames agg = (g', agg') \<Longrightarrow> pend g' = pend g"
  by (auto simp: land_predict_def latest_request_def pend_def Let_def
      split: predict_state.splits if_splits option.splits prod.splits)

lemma ev_apply_prediction:
  assumes "ev_inv c d" "apply_prediction c n rpc x d = (d', None)"
  shows "ev_inv c d'"
proof -
  obtain first gid msg bytes res where x: "x = (first, (gid, msg, bytes), res)" by (cases x) auto
  from apply_prediction_effect [OF assms(2) [unfolded x]] obtain frames agg0 g agg where lt: "gid < length (dr_groups d)"
    and land: "land_predict c ((dr_groups d ! gid)\<lparr>g_pending_predict := g_pending_predict (dr_groups d ! gid) + rpc\<rparr>)
       frames agg0 = (g, agg)"
    and e: "dr_groups d' = (dr_groups d)[gid := g]" "dr_route d' = dr_route d" "dr_minted d' = dr_minted d"
      "dr_pending_evictions d' = dr_pending_evictions d @ map snd (filter (\<lambda>(held, _). held = gid) (dr_held_evictions d))"
      "dr_held_evictions d' = filter (\<lambda>(held, _). held \<noteq> gid) (dr_held_evictions d)" by metis
  have "pend g = pend (dr_groups d ! gid)" using land_predict_pend [OF land] by (simp add: pend_def)
  then have "map pend (dr_groups d') = map pend (dr_groups d)"
    using lt by (simp add: e map_update list_update_same_conv)
  then have p: "pends d' = pends d" by (simp add: pends_def)
  have "mset (map snd (filter (\<lambda>(held, _). held = gid) hs)) + mset (map snd (filter (\<lambda>(held, _). held \<noteq> gid) hs))
      = mset (map snd hs)" for hs :: "(nat \<times> string) list"
    by (induction hs) auto
  from this [of "dr_held_evictions d"] have "evs d' = evs d"
    using calls_apply_prediction [OF assms(2)] by (simp add: evs_def evicted_calls e ac_simps del: mset_map)
  then show ?thesis by (rule ev_inv_cong [OF assms(1) e(3)]) (simp_all add: e p)
qed

lemma ev_on_predict_outcome:
  assumes "ev_inv c d" "on_predict_outcome c reqs rpc res d = (d', None)"
  shows "ev_inv c d'"
proof -
  from assms(2) obtain items where run: "for_each (apply_prediction c (length reqs) rpc) items d = (d', None)"
    by (auto simp: on_predict_outcome_def split: sum.splits if_splits)
  show ?thesis
    by (rule for_each_ok [OF run, where P = "ev_inv c"]) (use assms(1) ev_apply_prediction in blast)+
qed

lemma ev_flush_evictions:
  assumes "ev_inv c d"
  shows "ev_inv c (flush_evictions out d)"
proof (cases "dr_pending_evictions d = []")
  case True
  then show ?thesis using assms by (simp add: flush_evictions_def)
next
  case False
  obtain rq rt where rq: "reset_adapter_request (dr_pending_evictions d) (dr_route d) = (rq, rt)"
    by (cases "reset_adapter_request (dr_pending_evictions d) (dr_route d)")
  have ids: "ra_episode_ids rq = dr_pending_evictions d"
    using rq by (auto simp: reset_adapter_request_def split: prod.splits)
  let ?d = "flush_evictions out d"
  have f: "dr_pending_evictions ?d = []" "dr_held_evictions ?d = dr_held_evictions d" "dr_minted ?d = dr_minted d"
    "dr_route ?d = rt" "dr_groups ?d = dr_groups d"
    using False rq by (auto simp: flush_evictions_def Let_def split: evict_outcome.splits)
  have "evicted ?d = evicted d @ dr_pending_evictions d"
    using False rq ids by (simp add: evicted_calls calls_flush_evictions evict_ids_def)
  then have "evs ?d = evs d" by (simp add: evs_def f ac_simps)
  then show ?thesis
    by (rule ev_inv_cong [OF assms f(3)]) (simp_all add: f pends_def hold_requests(2) [OF rq])
qed

lemma ev_queue_evictions:
  assumes "ev_inv c d"
  shows "ev_inv c (queue_evictions gid g idxs d)"
proof -
  obtain ids rt where e: "end_all idxs (dr_route d) = (ids, rt)" by (cases "end_all idxs (dr_route d)")
  let ?d = "queue_evictions gid g idxs d"
  have "dr_minted ?d = dr_minted d" "dr_route ?d = rt" "dr_groups ?d = dr_groups d" "evs ?d = evs d + mset ids"
    by (simp_all add: queue_evictions_def e evs_def evicted_def ac_simps comp_def multiset.map_comp)
  then show ?thesis using ledger_end_all [OF assms [unfolded ev_inv_def] e] by (simp add: ev_inv_def pends_def)
qed

lemma ledger_no_nil: "ledger c m H E N \<Longrightarrow> fresh_ids c \<Longrightarrow> [] \<notin># N"
  using ledgerD(4) [of c m H E N "[]"] unfolding minted_def fresh_ids_def by (metis imageE)

lemma ledger_distinct:
  assumes "ledger c m H E N" "mset xs \<subseteq># N"
  shows "distinct xs"
proof -
  have "count (mset xs) x \<le> 1" for x using ledgerD(2) [OF assms(1), of x] mset_subset_eq_count [OF assms(2), of x] by simp
  then have "count (mset xs) x = (if x \<in> set xs then 1 else 0)" for x
    by (metis One_nat_def count_mset_0_iff le_antisym not_less_eq_eq less_one not_le)
  then show ?thesis by (simp add: distinct_count_atmost_1)
qed

text \<open>Installing a list of ids at distinct positions: the staged ones (\<open>M\<close>) leave the stage.\<close>

lemma ledger_sync:
  assumes l: "ledger c m H E N" and "fresh_ids c" and ps: "distinct ps" "\<And>p. p \<in> set ps \<Longrightarrow> p < length H"
    and M: "M \<subseteq># N"
    and src: "\<And>k. k < length ps \<Longrightarrow> id_at ids k = [] \<or> (\<exists>b. H ! (ps ! k) = Some (id_at ids k, b)) \<or> id_at ids k \<in># M"
    and inj: "\<And>k k'. k < length ps \<Longrightarrow> k' < length ps \<Longrightarrow> id_at ids k = id_at ids k' \<Longrightarrow> id_at ids k \<in># M \<Longrightarrow> k = k'"
  shows "ledger c m (install_all (zip ps (map (id_at ids) [0..<length ps])) H) E (N - M)"
proof -
  let ?ps = "zip ps (map (id_at ids) [0..<length ps])"
  note no_nil = ledger_no_nil [OF l assms(2)]
  have at: "\<exists>k < length ps. p = ps ! k \<and> x = id_at ids k" if "(p, x) \<in> set ?ps" for p x
    using that by (auto simp: set_zip)
  have staged: "id_at ids k \<in># M" if "k < length ps" "id_at ids k \<in># N" for k
    using src [OF that(1)] no_nil that ledgerD(7) [OF l that(2) ps(2), of "ps ! k"] by auto
  have "ledger c m (install_all ?ps H) E {# x \<in># N. x \<notin> snd ` set ?ps #}"
  proof (rule ledger_install_all [OF l no_nil])
    show "distinct (map fst ?ps)" using ps(1) by simp
    show "x = [] \<or> (\<exists>b. H ! p = Some (x, b)) \<or> x \<in># N" if pair: "(p, x) \<in> set ?ps" for p x
      using at [OF pair] src M by (meson mset_subset_eqD)
    show "p = q" if "(p, x) \<in> set ?ps" "(q, x) \<in> set ?ps" "x \<in># N" for p q x
      using at [OF that(1)] at [OF that(2)] staged inj that(3) by metis
  qed
  moreover have "N - M \<subseteq># {# x \<in># N. x \<notin> snd ` set ?ps #}"
  proof (rule mset_subset_eqI)
    fix y
    show "count (N - M) y \<le> count {# x \<in># N. x \<notin> snd ` set ?ps #} y"
    proof (cases "y \<in> snd ` set ?ps")
      case True
      then obtain k where k: "k < length ps" "y = id_at ids k" using at by force
      show ?thesis
      proof (cases "y \<in># N")
        case yN: True
        then have "y \<in># M" using staged k by simp
        then have "count N y \<le> count M y" using ledgerD(2) [OF l, of y] by (metis count_greater_eq_one_iff le_trans)
        then show ?thesis by simp
      qed (simp add: not_in_iff)
    qed simp
  qed
  ultimately show ?thesis by (rule ledger_drop)
qed

lemma ev_on_start:
  assumes inv: "ev_inv c d" and fr: "fresh_ids c" and sh: "shape_ok c d" and lt: "gid < length (dr_groups d)"
    and st: "g_pending_start (dr_groups d ! gid) = Some (ids, slots)"
    and hold: "hold (dr_route d') = hold (sync_slots now (g_positions (dr_groups d ! gid)) ids rids b auto (dr_route d))"
    and g: "dr_groups d' = (dr_groups d)[gid := (dr_groups d ! gid)\<lparr>g_pending_start := None\<rparr>]"
    and e: "evs d' = evs d" and m: "dr_minted d' = dr_minted d"
  shows "ev_inv c d'"
proof -
  let ?g = "dr_groups d ! gid"
  have "mset (pend (?g\<lparr>g_pending_start := None\<rparr>)) \<subseteq># mset (pend ?g)" using st by (simp add: pend_def)
  from pends_drop [OF lt g this] have p: "pends d' = pends d - mset ids" using st by (simp add: pend_def)
  have "mset ids \<subseteq># mset (pend ?g)" using st by (simp add: pend_def)
  then have M: "mset ids \<subseteq># pends d" using pends_group [OF lt] by (rule subset_mset.order_trans)
  have dist: "distinct ids" by (rule ledger_distinct [OF inv [unfolded ev_inv_def] M])
  have id: "id_at ids k = (if k < length ids then ids ! k else [])" for k by (simp add: id_at_def nth_opt_eq)
  have "[] \<notin> set ids" using ledger_no_nil [OF inv [unfolded ev_inv_def] fr] M mset_subset_eqD by fastforce
  then have long: "k < length ids" if "id_at ids k \<in># mset ids" for k
    using that by (cases "k < length ids") (simp_all add: id)
  have "ledger c (dr_minted d) (install_all (zip (g_positions ?g) (map (id_at ids) [0..<length (g_positions ?g)]))
      (hold (dr_route d))) (evs d) (pends d - mset ids)"
  proof (rule ledger_sync [OF inv [unfolded ev_inv_def] fr shape_positions(2) [OF sh lt] _ M])
    show "k = k'" if "id_at ids k = id_at ids k'" "id_at ids k \<in># mset ids" for k k'
      using long [of k] long [of k'] that dist by (simp add: id nth_eq_iff_index_eq)
  qed (use shape_positions(4) [OF sh lt] in \<open>auto simp: id\<close>)
  then show ?thesis by (simp add: ev_inv_def hold hold_sync_slots e m p)
qed

lemma ev_begin_reset:
  assumes inv: "ev_inv c d" and fr: "fresh_ids c" and lt: "gid < length (dr_groups d)"
    and run: "begin_reset c gid initial d = (d', None)"
  shows "ev_inv c d'"
  using run lt
proof (cases rule: begin_reset_cases)
  case (idle rt)
  have "ev_view d' = ev_view (set_route rt d)" unfolding idle(2)
    by (rule view_set_group) (simp add: pend_def set_route_def)
  also have "\<dots> = ev_view d" using hold_claims(1) [OF idle(1)] by (simp add: view)
  finally show ?thesis using ev_inv_view calls_begin_reset [OF run] inv by blast
next
  case (reset slots rt1 ids seeds trials g rt op)
  let ?n = "g_width (dr_groups d ! gid)"
  have "evs d' = evs d" using reset(13,14) calls_begin_reset [OF run] by (simp add: evs_def evicted_calls)
  moreover have "hold (dr_route d') = hold (dr_route d)"
    using hold_stage_reset [OF reset(4)] hold_claims(1) [OF reset(1)] reset(11) by simp
  moreover have "pends d' \<subseteq># pends d + mset ids"
  proof -
    have "pend (g\<lparr>g_env := False, g_phase := Resetting\<rparr>) = ids" using stage_reset_group [OF reset(4)] by (simp add: pend_def)
    then show ?thesis using pends_update [OF lt reset(8)] by (metis mset_subset_eq_add_left)
  qed
  moreover have "ledger c (dr_minted d + ?n) (hold (dr_route d)) (evs d) (pends d + mset ids)"
    using ledger_mint [of c "dr_minted d" "hold (dr_route d)" "evs d" "pends d" ?n] inv fr
    by (simp add: ev_inv_def fresh_ids_def reset(3))
  ultimately show ?thesis using ledger_drop reset(12) by (simp add: ev_inv_def)
qed

lemma ev_on_reset:
  assumes inv: "ev_inv c d" and fr: "fresh_ids c" and sh: "shape_ok c d" and lt: "gid < length (dr_groups d)"
    and run: "on_reset c i gid initial resp rpc d = (d', None)"
  shows "ev_inv c d'"
proof -
  let ?g = "dr_groups d ! gid"
  let ?ctx = "group_context (g_positions ?g) (g_lane_group ?g) (dr_route d)"
  from run lt obtain ids slots where st: "g_pending_start ?g = Some (ids, slots)"
    by (cases "g_pending_start ?g") (auto simp: on_reset_def nth_opt_eq)
  define d1 where "d1 = set_group gid (?g\<lparr>g_pending_start := None\<rparr>) d"
  define d2 where "d2 = (if initial then emit (ResetLogged (ro_session_id (dr_route d)) ?ctx rpc (length ids)) d1 else d1)"
  obtain started rt where se: "start_episodes_at (io_now i) (g_positions ?g) ids (\<not> initial) slots (dr_route d2) = (started, rt)"
    by (cases "start_episodes_at (io_now i) (g_positions ?g) ids (\<not> initial) slots (dr_route d2)")
  define d3 where "d3 = invoke_started_episodes ?ctx started (set_route rt d2)"
  have obs: "observe c i gid (rr_observation resp) (rr_infos resp) ResetObservation True d3 = (d', None)"
    using run lt st se by (cases initial) (simp_all add: on_reset_def nth_opt_eq Let_def d1_def d2_def d3_def)
  have d2: "dr_route d2 = dr_route d" "dr_minted d2 = dr_minted d" "dr_pending_evictions d2 = dr_pending_evictions d"
    "dr_held_evictions d2 = dr_held_evictions d" "dr_groups d2 = (dr_groups d)[gid := ?g\<lparr>g_pending_start := None\<rparr>]"
    "model_calls d2 = model_calls d"
    by (simp_all add: d2_def d1_def calls)
  obtain reg rids where rt: "rt = sync_slots (io_now i) (g_positions ?g) ids rids True (\<not> initial) ((dr_route d)\<lparr>ro_records := reg\<rparr>)"
    using se d2(1) by (auto simp: start_episodes_at_def Let_def split: prod.splits)
  have "ev_inv c d3"
  proof (rule ev_on_start [OF inv fr sh lt st])
    show "hold (dr_route d3) = hold (sync_slots (io_now i) (g_positions ?g) ids rids True (\<not> initial) (dr_route d))"
      by (simp add: d3_def rt hold_sync_slots held set_route_def)
    show "evs d3 = evs d" by (simp add: d3_def evs_def evicted_calls calls d2)
  qed (simp_all add: d3_def d2 invoke_started_episodes_def emit_all_def)
  then show ?thesis using ev_inv_view [OF view_observe [OF obs] calls_observe [OF obs]] by simp
qed

lemma slots_length: "route_shape r' = route_shape r \<Longrightarrow> length (ro_slots r') = length (ro_slots r)"
  using map_eq_imp_length_eq by (fastforce simp: route_shape_def)

lemma episode_ids_at_nth:
  assumes "\<And>p. p \<in> set ps \<Longrightarrow> p < length (ro_slots r)"
  shows "episode_ids_at ps r = map (\<lambda>p. slot_episode_id (ro_slots r ! p)) ps"
  using assms by (induction ps) (simp_all add: episode_ids_at_def slots_at_def nth_opt_eq)

lemma slot_episode_hold:
  "p < length (ro_slots r) \<Longrightarrow> slot_episode_id (ro_slots r ! p) = [] \<or>
     (\<exists>b. hold r ! p = Some (slot_episode_id (ro_slots r ! p), b))"
  by (cases "sl_episode (ro_slots r ! p)") (simp_all add: slot_episode_id_def hold_nth)

lemma ledger_roll:
  assumes l: "ledger c m (hold r) E N" and fr: "fresh_ids c"
    and ps: "distinct ps" "\<And>p. p \<in> set ps \<Longrightarrow> p < length (ro_slots r)" and M: "mset (map snd roll) \<subseteq># N"
  shows "ledger c m (hold (sync_slots now ps (episode_ids_with_roll (episode_ids_at ps r) lanes roll) rids b auto r)) E
     (N - mset (map snd roll))"
proof -
  let ?old = "episode_ids_at ps r" and ?ids = "episode_ids_with_roll (episode_ids_at ps r) lanes roll"
  have old: "?old = map (\<lambda>p. slot_episode_id (ro_slots r ! p)) ps" using ps(2) by (rule episode_ids_at_nth)
  have id: "id_at ?ids k = ?ids ! k" if "k < length ps" for k using that by (simp add: id_at_def nth_opt_eq old)
  have dist: "distinct (map snd roll)" by (rule ledger_distinct [OF l M])
  have src: "(?ids ! k = [] \<or> (\<exists>b. hold r ! (ps ! k) = Some (?ids ! k, b))) \<or>
      (\<exists>e. (e, ?ids ! k) \<in> set roll \<and> position (\<lambda>lane. lane = e) lanes = Some k)" if "k < length ps" for k
    using with_roll_nth [of k ?old lanes roll] slot_episode_hold [OF ps(2) [OF nth_mem [OF that]]] that by (auto simp: old)
  have rolled: "\<exists>e. (e, ?ids ! k) \<in> set roll \<and> position (\<lambda>lane. lane = e) lanes = Some k"
    if k: "k < length ps" "?ids ! k \<in># mset (map snd roll)" for k
  proof -
    have "?ids ! k \<in># N" by (rule mset_subset_eqD [OF M k(2)])
    then have "hold r ! (ps ! k) \<noteq> Some (?ids ! k, b)" for b
      by (rule ledgerD(7) [OF l]) (simp add: ps(2) k(1))
    moreover have "?ids ! k \<noteq> []" using \<open>?ids ! k \<in># N\<close> ledger_no_nil [OF l fr] by metis
    ultimately show ?thesis using src [OF k(1)] by blast
  qed
  show ?thesis unfolding hold_sync_slots
  proof (rule ledger_sync [OF l fr ps(1) _ M])
    fix k assume k: "k < length ps"
    show "id_at ?ids k = [] \<or> (\<exists>b. hold r ! (ps ! k) = Some (id_at ?ids k, b)) \<or> id_at ?ids k \<in># mset (map snd roll)"
      using src [OF k] unfolding id [OF k] by force
    fix k' assume k': "k' < length ps" and eq: "id_at ?ids k = id_at ?ids k'" and M: "id_at ?ids k \<in># mset (map snd roll)"
    then obtain e e' where e: "(e, ?ids ! k) \<in> set roll" "position (\<lambda>lane. lane = e) lanes = Some k"
      "(e', ?ids ! k) \<in> set roll" "position (\<lambda>lane. lane = e') lanes = Some k'"
      using rolled [of k] rolled [of k'] k k' id by metis
    have "e = e'" using dist e(1,3) by (metis distinct_map inj_onD prod.inject snd_conv)
    then show "k = k'" using e by simp
  qed (use ps in simp_all)
qed

lemma ev_apply_roll:
  assumes inv: "ev_inv c d" and fr: "fresh_ids c" and sh: "shape_ok c d" and lt: "gid < length (dr_groups d)"
  shows "ev_inv c (apply_roll i gid ctx (dr_groups d ! gid) d)"
proof (cases "g_pending_roll (dr_groups d ! gid) = []")
  case True
  then show ?thesis using inv by (simp add: apply_roll_def)
next
  case False
  let ?g = "dr_groups d ! gid" and ?roll = "g_pending_roll (dr_groups d ! gid)" and ?d' = "apply_roll i gid ctx (dr_groups d ! gid) d"
  define g1 where "g1 = ?g\<lparr>g_pending_completed := [], g_pending_roll := []\<rparr>"
  define dq where "dq = queue_evictions gid g1 (map fst ?roll) d"
  define d2 where "d2 = queue_evictions gid g1 (map fst ?roll) (set_group gid g1 (fan_out_completions (g_pending_completed ?g) d))"
  have inv2: "ev_inv c dq" unfolding dq_def by (rule ev_queue_evictions [OF inv])
  have same: "dr_route d2 = dr_route dq" "dr_minted d2 = dr_minted dq" "dr_pending_evictions d2 = dr_pending_evictions dq"
    "dr_held_evictions d2 = dr_held_evictions dq" "model_calls d2 = model_calls dq"
    by (simp_all add: d2_def dq_def queue_evictions_def fan_out_completions_def emit_all_def model_calls_def no_calls
        set_group_def split: prod.splits)
  let ?ids = "episode_ids_with_roll (episode_ids_at (g_positions ?g) (dr_route dq)) (g_lanes ?g) ?roll"
  obtain rolling rt3 where cr: "claim_rolls ?roll (g_lanes ?g) (dr_route dq) = (rolling, rt3)"
    by (cases "claim_rolls ?roll (g_lanes ?g) (dr_route dq)")
  define rt4 where "rt4 = mark_unclaimed ?roll (g_lanes ?g) ?ids rolling rt3"
  obtain started rt5 where ob: "observe_episode_ids_at (io_now i) (g_positions ?g) ?ids rolling rt4 = (started, rt5)"
    by (cases "observe_episode_ids_at (io_now i) (g_positions ?g) ?ids rolling rt4")
  have d': "?d' = invoke_started_episodes ctx started (set_route rt5 d2)"
    using False cr ob by (simp add: apply_roll_def Let_def g1_def [symmetric] d2_def [symmetric] same rt4_def)
  obtain rids reg where rt5: "rt5 = sync_slots (io_now i) (g_positions ?g) ?ids rids False True (rt4\<lparr>ro_records := reg\<rparr>)"
    using ob by (auto simp: observe_episode_ids_at_def Let_def split: prod.splits)
  have h4: "hold rt4 = hold (dr_route dq)" using hold_claim_rolls [OF cr] by (simp add: rt4_def held)
  have len: "length (ro_slots (dr_route dq)) = length (ro_slots (dr_route d))"
    unfolding dq_def by (rule slots_length [OF shape_queue])
  have gq: "dr_groups dq = dr_groups d" by (simp add: dq_def)
  have "mset (map snd ?roll) \<subseteq># mset (pend ?g)" by (simp add: pend_def)
  then have M: "mset (map snd ?roll) \<subseteq># pends dq"
    using pends_group [OF lt] by (auto simp: pends_def gq intro: subset_mset.order_trans)
  have L: "ledger c (dr_minted dq) (hold (sync_slots (io_now i) (g_positions ?g) ?ids rids False True (dr_route dq)))
      (evs dq) (pends dq - mset (map snd ?roll))"
    by (rule ledger_roll [OF inv2 [unfolded ev_inv_def] fr shape_positions(2) [OF sh lt] _ M])
      (use shape_positions(4) [OF sh lt] len in simp)
  have "pends ?d' = pends d - (mset (pend ?g) - mset (pend g1))"
    by (rule pends_drop [OF lt]) (simp_all add: d' d2_def g1_def pend_def fan_out_completions_def emit_all_def)
  then have "pends ?d' = pends dq - mset (map snd ?roll)" by (simp add: g1_def pend_def pends_def gq)
  moreover have "hold (dr_route ?d') = hold (sync_slots (io_now i) (g_positions ?g) ?ids rids False True (dr_route dq))"
    by (simp add: d' rt5 hold_sync_slots held h4 set_route_def)
  moreover have "evs ?d' = evs dq" "dr_minted ?d' = dr_minted dq" by (simp_all add: d' evs_def evicted_calls calls same)
  ultimately show ?thesis using L by (simp add: ev_inv_def)
qed

lemma ev_finish_episodes:
  assumes inv: "ev_inv c d" and lt: "gid < length (dr_groups d)"
  shows "ev_inv c (finish_episodes c gid ctx completed (dr_groups d ! gid) d)"
proof -
  obtain es rt where ce: "complete_episodes c ctx completed (dr_route d) = (es, rt)"
    by (cases "complete_episodes c ctx completed (dr_route d)")
  have v: "ev_view (fan_out_completions es' (set_route rt d)) = ev_view d" "ev_view (set_route rt d) = ev_view d" for es'
    using hold_complete_episodes [OF ce] by (simp_all add: fan_out_completions_def view)
  have "ev_view (set_group gid ((dr_groups d ! gid)\<lparr>g_pending_completed := pc\<rparr>) (set_route rt d)) = ev_view d" for pc
    using v(2) view_set_group [of gid "set_route rt d" "(dr_groups d ! gid)\<lparr>g_pending_completed := pc\<rparr>"]
    by (simp add: pend_def)
  then have "ev_inv c (set_group gid ((dr_groups d ! gid)\<lparr>g_pending_completed := pc\<rparr>) (set_route rt d))" for pc
    by (rule ev_invI [OF inv]) (simp add: calls)
  moreover have "ev_inv c (fan_out_completions es (set_route rt d))"
    by (rule ev_invI [OF inv v(1)]) (simp add: calls)
  ultimately show ?thesis using ev_queue_evictions by (simp add: finish_episodes_def ce Let_def)
qed

lemma stage_rolls_mint:
  "stage_rolls c ms roll d = (roll', d') \<Longrightarrow>
   \<exists>n. dr_minted d' = dr_minted d + n \<and>
     map snd roll' = map snd roll @ map (cf_uuid c) [dr_minted d..<dr_minted d + n]"
proof (induction c ms roll d arbitrary: roll' d' rule: stage_rolls.induct)
  case (1 c roll d)
  then show ?case by (intro exI [of _ 0]) simp
next
  case (2 c m ms roll d)
  show ?case
  proof (cases "map_of roll (em_env_index m) = None")
    case False
    then show ?thesis using 2(1,3) by auto
  next
    case True
    let ?d1 = "d\<lparr>dr_minted := dr_minted d + 1\<rparr>"
    have run: "stage_rolls c ms (roll @ [(em_env_index m, cf_uuid c (dr_minted d))]) ?d1 = (roll', d')"
      using 2(3) True by (simp add: mint_ids_def)
    then obtain n where "dr_minted d' = dr_minted d + 1 + n"
      "map snd roll' = map snd roll @ [cf_uuid c (dr_minted d)] @ map (cf_uuid c) [dr_minted d + 1..<dr_minted d + 1 + n]"
      using 2(2) [of "[cf_uuid c (dr_minted d)]" ?d1 roll' d'] True by (auto simp: mint_ids_def)
    then show ?thesis by (intro exI [of _ "Suc n"]) (simp add: upt_conv_Cons del: upt_Suc)
  qed
qed

lemma ev_flush_stale:
  assumes inv: "ev_inv c d" and fr: "fresh_ids c" and lt: "gid < length (dr_groups d)"
  shows "ev_inv c (flush_stale c gid completed (dr_groups d ! gid) d)"
proof (cases "completed = []")
  case True
  then show ?thesis using inv by (simp add: flush_stale_def)
next
  case False
  let ?g = "dr_groups d ! gid"
  define d1 where "d1 = (if g_replay ?g \<noteq> [] \<and> g_width ?g > 1 then d\<lparr>dr_vector_replay_warned := True\<rparr> else d)"
  define g1 where "g1 = ?g\<lparr>g_replay := [], g_predict := (if is_in_flight ?g then PInFlight True else PNone)\<rparr>"
  have d1: "ev_view d1 = ev_view d" "model_calls d1 = model_calls d" "dr_groups d1 = dr_groups d" "dr_route d1 = dr_route d"
    "dr_minted d1 = dr_minted d" "dr_pending_evictions d1 = dr_pending_evictions d" "dr_held_evictions d1 = dr_held_evictions d"
    by (simp_all add: d1_def view calls)
  have p1: "pend g1 = pend ?g" by (simp add: g1_def pend_def)
  show ?thesis
  proof (cases "driver_owns_resets c")
    case True
    have "ev_view (set_group gid g1 d1) = ev_view d" using view_set_group [of gid d1 g1] p1 d1 by simp
    moreover have "flush_stale c gid completed ?g d = set_group gid g1 d1"
      using False True by (simp add: flush_stale_def d1_def g1_def)
    ultimately show ?thesis by (intro ev_invI [OF inv]) (simp_all add: calls d1)
  next
    case own: False
    obtain roll d2 where st: "stage_rolls c completed (g_pending_roll ?g) d1 = (roll, d2)"
      by (cases "stage_rolls c completed (g_pending_roll ?g) d1")
    have run: "flush_stale c gid completed ?g d = set_group gid (g1\<lparr>g_pending_roll := roll\<rparr>) d2"
      using False own st by (simp add: flush_stale_def d1_def g1_def Let_def)
    note f = stage_rolls_frame [OF st]
    obtain n where n: "dr_minted d2 = dr_minted d + n"
      "map snd roll = map snd (g_pending_roll ?g) @ map (cf_uuid c) [dr_minted d..<dr_minted d + n]"
      using stage_rolls_mint [OF st] d1(5) by auto
    let ?new = "map (cf_uuid c) [dr_minted d..<dr_minted d + n]"
    have p2: "pend (g1\<lparr>g_pending_roll := roll\<rparr>) = pend ?g @ ?new" using n(2) by (simp add: pend_def g1_def)
    let ?d' = "set_group gid (g1\<lparr>g_pending_roll := roll\<rparr>) d2"
    have "dr_groups ?d' = (dr_groups d)[gid := g1\<lparr>g_pending_roll := roll\<rparr>]" using f d1(3) by simp
    from pends_update [OF lt this] have "pends ?d' + mset (pend ?g) = (pends d + mset ?new) + mset (pend ?g)"
      unfolding p2 by (simp only: mset_append ac_simps)
    then have "pends ?d' = pends d + mset ?new" by (rule add_right_imp_eq)
    moreover have "evs (set_group gid (g1\<lparr>g_pending_roll := roll\<rparr>) d2) = evs d"
      using f d1 calls_stage_rolls [OF st] by (simp add: evs_def evicted_calls calls)
    moreover have "ledger c (dr_minted d + n) (hold (dr_route d)) (evs d) (pends d + mset ?new)"
      using ledger_mint inv fr by (simp add: ev_inv_def fresh_ids_def del: mset_map)
    ultimately show ?thesis using f d1 n(1) by (simp add: run ev_inv_def)
  qed
qed

lemma ev_stop_group:
  assumes inv: "ev_inv c d" and lt: "gid < length (dr_groups d)"
  shows "ev_inv c (stop_group gid (dr_groups d ! gid) d)"
proof -
  let ?g = "dr_groups d ! gid"
  define g1 where "g1 = ?g\<lparr>g_pending_completed := [], g_pending_roll := []\<rparr>"
  define d1 where "d1 = set_group gid g1 (fan_out_completions (g_pending_completed ?g) d)"
  define d2 where "d2 = queue_evictions gid g1 (map fst (g_pending_roll ?g)) d1"
  have "pends d1 = pends d - (mset (pend ?g) - mset (pend g1))"
    by (rule pends_drop [OF lt]) (simp_all add: d1_def g1_def pend_def fan_out_completions_def emit_all_def)
  then have "ev_inv c d1"
    by (intro ev_inv_cong [OF inv]) (simp_all add: d1_def evs_def evicted_calls calls)
  then have inv2: "ev_inv c d2" unfolding d2_def by (rule ev_queue_evictions)
  have g2: "dr_groups d2 ! gid = g1" using lt by (simp add: d2_def d1_def fan_out_completions_def emit_all_def)
  have "ev_view (set_group gid (g1\<lparr>g_phase := Idle, g_predict := PNone\<rparr>) d2) = ev_view d2"
    by (rule view_set_group) (simp add: g2 pend_def)
  moreover have "stop_group gid ?g d = set_group gid (g1\<lparr>g_phase := Idle, g_predict := PNone\<rparr>) d2"
    by (simp add: stop_group_def Let_def g1_def d1_def d2_def)
  ultimately show ?thesis by (intro ev_invI [OF inv2]) (simp_all add: calls)
qed

lemma ev_account_step:
  assumes inv: "ev_inv c d" and lt: "gid < length (dr_groups d)"
    and acc: "account_step c i gid (dr_groups d ! gid) resp rpc d = (Inr completed, d1)"
  shows "ev_inv c d1"
proof (rule ev_invI [OF inv _ calls_account_step [OF acc]])
  note a = account_step_group [OF acc]
  have "map pend (dr_groups d1) = map pend (dr_groups d)"
    using lt by (simp add: a(1) map_update list_update_same_conv pend_def)
  then show "ev_view d1 = ev_view d" by (simp add: ev_view_def a held)
qed

lemma ev_on_step:
  assumes inv: "ev_inv c d" and fr: "fresh_ids c" and sh: "shape_ok c d" and lt: "gid < length (dr_groups d)"
    and run: "on_step c i gid resp rpc d = (d', None)"
  shows "ev_inv c d'"
  using run lt
proof (rule on_step_cases)
  fix completed d1 d4
  let ?ctx = "group_context (g_positions (dr_groups d ! gid)) (g_lane_group (dr_groups d ! gid)) (dr_route d)"
  assume acc: "account_step c i gid (dr_groups d ! gid) resp rpc d = (Inr completed, d1)"
    and d4: "d4 = after_step c i gid ?ctx completed d1"
    and out: "(group_stops c (dr_groups d4 ! gid) (dr_route d4) \<and> d' = stop_group gid (dr_groups d4 ! gid) d4) \<or>
     (\<not> group_stops c (dr_groups d4 ! gid) (dr_route d4) \<and> driver_owns_resets c \<and> completed \<noteq> [] \<and>
        begin_reset c gid False d4 = (d', None)) \<or>
     (\<not> group_stops c (dr_groups d4 ! gid) (dr_route d4) \<and> \<not> (driver_owns_resets c \<and> completed \<noteq> []) \<and>
        (\<exists>ob infos. observe c i gid ob infos StepObservation False d4 = (d', None)))"
  define d2 where "d2 = apply_roll i gid ?ctx (dr_groups d1 ! gid) d1"
  define d3 where "d3 = finish_episodes c gid ?ctx completed (dr_groups d2 ! gid) d2"
  have s1: "drv_shape d1 = drv_shape d" by (rule shape_account_step [OF acc])
  then have l1: "gid < length (dr_groups d1)" using drv_shape_length lt by metis
  have s2: "drv_shape d2 = drv_shape d1" unfolding d2_def by (rule shape_apply_roll [OF l1])
  then have l2: "gid < length (dr_groups d2)" using drv_shape_length l1 by metis
  have "drv_shape d3 = drv_shape d2" unfolding d3_def by (rule shape_finish [OF l2])
  then have l3: "gid < length (dr_groups d3)" using drv_shape_length l2 by metis
  have d4': "d4 = flush_stale c gid completed (dr_groups d3 ! gid) d3" by (simp add: d4 after_step_def d2_def d3_def Let_def)
  have "drv_shape d4 = drv_shape d3" unfolding d4' by (rule shape_flush_stale [OF l3])
  then have l4: "gid < length (dr_groups d4)" using drv_shape_length l3 by metis
  have "ev_inv c d1" by (rule ev_account_step [OF inv lt acc])
  then have "ev_inv c d2" unfolding d2_def using fr shape_ok_cong [OF s1 sh] l1 by (rule ev_apply_roll)
  then have "ev_inv c d3" unfolding d3_def using l2 by (rule ev_finish_episodes)
  then have i4: "ev_inv c d4" unfolding d4' using fr l3 by (rule ev_flush_stale)
  from out consider "d' = stop_group gid (dr_groups d4 ! gid) d4" | "begin_reset c gid False d4 = (d', None)"
    | ob infos where "observe c i gid ob infos StepObservation False d4 = (d', None)" by blast
  then show ?thesis
  proof cases
    case 1 then show ?thesis using ev_stop_group [OF i4 l4] by simp
  next
    case 2 then show ?thesis by (rule ev_begin_reset [OF i4 fr l4])
  next
    case 3 then show ?thesis by (intro ev_invI [OF i4 view_observe calls_observe])
  qed
qed

lemma ev_on_env_outcome:
  assumes inv: "ev_inv c d" and fr: "fresh_ids c" and sh: "shape_ok c d" and lt: "eo_gid op < length (dr_groups d)"
    and run: "on_env_outcome c i op rpc result d = (d', None)"
  shows "ev_inv c d'"
proof -
  define d1 where "d1 = set_group (eo_gid op) ((dr_groups d ! eo_gid op)\<lparr>g_env := True\<rparr>) d"
  have v: "ev_view d1 = ev_view d" unfolding d1_def by (rule view_set_group) (simp add: pend_def)
  then have i1: "ev_inv c (on_agg f d1)" for f by (intro ev_invI [OF inv]) (simp_all add: view calls d1_def)
  have i1': "ev_inv c d1" by (rule ev_invI [OF inv v]) (simp add: calls d1_def)
  have "dr_groups d1 = (dr_groups d)[eo_gid op := (dr_groups d ! eo_gid op)\<lparr>g_env := True\<rparr>]" by (simp add: d1_def)
  then have "drv_shape d1 = drv_shape d" by (rule drv_shape_group) (simp_all add: lane_of_def d1_def)
  then have s: "shape_ok c (on_agg f d1)" for f using sh by (simp add: shape_ok_def drv_shape_def)
  have l: "eo_gid op < length (dr_groups (on_agg f d1))" for f using lt by (simp add: d1_def)
  show ?thesis
    using run lt ev_on_reset [OF i1 fr s l] ev_on_step [OF i1 fr s l] i1'
    by (auto simp: on_env_outcome_def nth_opt_eq Let_def d1_def [symmetric]
        split: env_op_kind.splits env_result.splits sum.splits)
qed

lemma ev_start_loop:
  assumes fr: "fresh_ids c" and run: "start_loop c (drv_new c now) = (d, None)"
  shows "ev_inv c d"
  using run
proof (rule start_loop_induct)
  fix dc assume core: "same_core (drv_new c now) dc"
    and tr: "\<And>t. t \<in> set (dr_trace dc) \<Longrightarrow> (\<exists>s x e. t = SessionStarted s x e) \<or> (\<exists>s x l adv. t = RelayAdvised s x l adv)"
  have dc: "dr_minted dc = 0" "dr_route dc = route_new now (cf_spec c)" "dr_pending_evictions dc = []" "dr_held_evictions dc = []"
    using core by (simp_all add: same_core_def drv_new_def)
  have "evict_ids t = []" if "t \<in> set (dr_trace dc)" for t using tr [OF that] by (auto simp: evict_ids_def)
  then have "evs (dc\<lparr>dr_groups := driver_groups c\<rparr>) = {#}" by (simp add: evs_def evicted_def dc)
  moreover have "pends (dc\<lparr>dr_groups := driver_groups c\<rparr>) = {#}"
    by (simp add: pends_def driver_groups_def group_new_def pend_def Let_def)
  moreover have "hold (route_new now (cf_spec c)) = replicate (max (ss_num_envs (cf_spec c)) 1) None"
    by (simp add: hold_def route_new_def slot_new_def comp_def map_replicate_const)
  then have "ledger c 0 (hold (route_new now (cf_spec c))) {#} {#}" by (simp add: ledger_def slot_ids_def)
  ultimately show "ev_inv c (dc\<lparr>dr_groups := driver_groups c\<rparr>)" by (simp add: ev_inv_def dc)
qed (rule ev_begin_reset [OF _ fr])

interpretation ev: loop_invariant c "\<lambda>_ _. True" "\<lambda>d. fresh_ids c \<longrightarrow> ev_inv c d" for c
proof unfold_locales
  fix d d' i gid assume "fresh_ids c \<longrightarrow> ev_inv c d" and "gid < length (dr_groups d)" "dispatch_step c i gid d = (d', None)"
  then show "fresh_ids c \<longrightarrow> ev_inv c d'" using ev_invI [OF _ view_dispatch_step calls_dispatch_step] by blast
next
  fix d d' gids assume I: "fresh_ids c \<longrightarrow> ev_inv c d" and run: "predict_for c gids d = (d', None)"
  obtain reqs where "model_calls d' = model_calls d @ [CallPredict reqs]" using run by (rule calls_predict_for) blast
  then have "evicted d' = evicted d" by (simp add: evicted_calls evict_ids_def)
  then show "fresh_ids c \<longrightarrow> ev_inv c d'"
    using I view_predict_for [OF run] by (simp add: ev_inv_def ev_view_def evs_def pends_def)
next
  fix d d' k result rpc i
  assume base: "base_ok c d" and I: "fresh_ids c \<longrightarrow> ev_inv c d" and k: "k < length (dr_env_ops d)"
    and run: "on_env_outcome c i (dr_env_ops d ! k) rpc result (d\<lparr>dr_env_ops := remove_nth k (dr_env_ops d)\<rparr>) = (d', None)"
  let ?d = "d\<lparr>dr_env_ops := remove_nth k (dr_env_ops d)\<rparr>"
  have "ev_inv c d \<Longrightarrow> ev_inv c ?d" by (erule ev_invI) (simp_all add: view calls)
  moreover have "shape_ok c ?d" using base by (simp add: base_ok_def shape_ok_def drv_shape_def)
  moreover have "eo_gid (dr_env_ops d ! k) < length (dr_groups ?d)"
    using base drv_okD(3) [of c d] k by (simp add: base_ok_def)
  ultimately show "fresh_ids c \<longrightarrow> ev_inv c d'" using I ev_on_env_outcome [OF _ _ _ _ run] by blast
next
  fix d d' k rpc presult
  assume I: "fresh_ids c \<longrightarrow> ev_inv c d"
    and run: "on_predict_outcome c (po_requests (dr_predicts d ! k)) rpc presult
       (d\<lparr>dr_predicts := remove_nth k (dr_predicts d)\<rparr>) = (d', None)"
  have "ev_inv c d \<Longrightarrow> ev_inv c (d\<lparr>dr_predicts := remove_nth k (dr_predicts d)\<rparr>)"
    by (erule ev_invI) (simp_all add: view calls)
  then show "fresh_ids c \<longrightarrow> ev_inv c d'" using I ev_on_predict_outcome [OF _ run] by blast
qed (auto intro: ev_start_loop ev_flush_evictions)

section \<open>Teardown\<close>

lemma ledger_end_live:
  assumes l: "ledger c m (hold r) E N" and run: "end_live_episodes r = (ids, r')"
  shows "ledger c m (hold r') (E + mset ids) N"
proof -
  let ?s = "ro_slots r" and ?fin = "\<lambda>slot. if live_unended slot then set_ended slot else slot"
  define H where "H n = hold (r\<lparr>ro_slots := map ?fin (take n ?s) @ drop n ?s\<rparr>)" for n
  have "ledger c m (H n) (E + mset (map slot_episode_id (filter live_unended (take n ?s)))) N" if "n \<le> length ?s" for n
    using that
  proof (induction n)
    case 0
    then show ?case using l by (simp add: H_def)
  next
    case (Suc n)
    then have n: "n < length ?s" by simp
    then have tk: "take (Suc n) ?s = take n ?s @ [?s ! n]" and dr: "drop n ?s = ?s ! n # drop (Suc n) ?s"
      by (simp_all add: take_Suc_conv_app_nth Cons_nth_drop_Suc)
    have len: "length (H n) = length ?s" using n by (simp add: H_def hold_def)
    have Hn: "H n ! n = map_option (\<lambda>e. (es_episode_id e, es_ended e)) (sl_episode (?s ! n))"
      using n by (simp add: H_def hold_def nth_append)
    have HS: "H (Suc n) = (H n)[n := map_option (\<lambda>e. (es_episode_id e, es_ended e)) (sl_episode (?fin (?s ! n)))]"
      using n by (simp add: H_def hold_def tk dr list_update_append)
    show ?case
    proof (cases "live_unended (?s ! n)")
      case True
      then obtain e where e: "sl_episode (?s ! n) = Some e" "\<not> es_ended e" by (auto simp: live_unended_def split: option.splits)
      then have "ledger c m ((H n)[n := Some (es_episode_id e, True)])
          (add_mset (es_episode_id e) (E + mset (map slot_episode_id (filter live_unended (take n ?s))))) N"
        using Suc n len Hn by (intro ledger_evict) simp_all
      moreover have "slot_episode_id (?s ! n) = es_episode_id e" using e by (simp add: slot_episode_id_def)
      ultimately show ?thesis using True e HS by (simp add: tk set_ended_def)
    next
      case False
      then have "H (Suc n) = H n" using HS by (simp flip: Hn)
      then show ?thesis using Suc False by (simp add: tk)
    qed
  qed
  from this [of "length ?s"] show ?thesis using run by (auto simp: H_def end_live_episodes_def)
qed

lemma ev_teardown:
  assumes "ev_inv c d" "ids = map snd (dr_held_evictions d)" "end_live_episodes (dr_route d) = (live, rt)"
  shows "ev_inv c (d\<lparr>dr_route := rt, dr_held_evictions := [], dr_pending_evictions := dr_pending_evictions d @ ids @ live\<rparr>)"
  using ledger_end_live [OF assms(1) [unfolded ev_inv_def] assms(3)] assms(2)
  by (simp add: ev_inv_def evs_def pends_def evicted_def ac_simps)

lemma ledger_forget:
  assumes l: "ledger c m H E N" and sub: "E' \<subseteq># E"
  shows "ledger c m H E' N"
proof -
  note L = ledgerD [OF l]
  have keep: "x \<in># E" if "x \<in># E'" for x using that sub by (rule mset_subset_eqD [rotated])
  show ?thesis
  proof (rule ledgerI)
    show "count E' x \<le> 1" for x using L(1) [of x] mset_subset_eq_count [OF sub, of x] by simp
    show "x \<in># E' \<Longrightarrow> x \<in> minted c m" for x using L(3) keep by blast
    show "x \<in># N \<Longrightarrow> x \<notin># E'" for x using L(6) keep by blast
    show "p < length H \<Longrightarrow> H ! p = Some (x, False) \<Longrightarrow> x \<notin># E'" for p x using L(8) keep by blast
  qed (use L in auto)
qed

lemma ev_inv_evicted:
  assumes "ev_inv c d"
  shows "distinct (evicted d)" "set (evicted d) \<subseteq> minted c (dr_minted d)"
proof -
  have sub: "mset (evicted d) \<subseteq># evs d" by (simp add: evs_def)
  have "ledger c (dr_minted d) (hold (dr_route d)) (mset (evicted d)) (pends d)"
    using ledger_forget [OF assms [unfolded ev_inv_def] sub] .
  note L = ledgerD [OF this]
  have "count (mset (evicted d)) x = (if x \<in> set (evicted d) then 1 else 0)" for x
    using L(1) [of x] by (metis One_nat_def count_mset_0_iff le_antisym not_less_eq_eq less_one not_le)
  then show "distinct (evicted d)" by (simp add: distinct_count_atmost_1)
  show "set (evicted d) \<subseteq> minted c (dr_minted d)" using L(3) by auto
qed

lemma ev_epilogue:
  assumes inv: "ev_inv c d"
  obtains d2 where "ev_inv c d2" "dr_minted d2 = dr_minted d"
    "evicted (snd (epilogue c reason abandoned out failure d)) = evicted d2"
proof -
  define d1 where "d1 = d\<lparr>dr_env_ops := [], dr_predicts := []\<rparr>"
  obtain live rt where el: "end_live_episodes (dr_route d1) = (live, rt)" by (cases "end_live_episodes (dr_route d1)")
  define d2 where "d2 = (if abandoned then d1\<lparr>dr_pending_evictions := [], dr_held_evictions := []\<rparr>
      else flush_evictions out (d1\<lparr>dr_route := rt, dr_held_evictions := [],
         dr_pending_evictions := dr_pending_evictions d1 @ map snd (dr_held_evictions d1) @ live\<rparr>))"
  have i1: "ev_inv c d1" unfolding d1_def by (rule ev_invI [OF inv]) (simp_all add: view calls)
  have "ev_inv c (d1\<lparr>dr_pending_evictions := [], dr_held_evictions := []\<rparr>)"
    unfolding ev_inv_def using ledger_forget [OF i1 [unfolded ev_inv_def]] by (simp add: evs_def pends_def evicted_def)
  then have "ev_inv c d2" using ev_flush_evictions [OF ev_teardown [OF i1 refl el]] by (simp add: d2_def)
  moreover have "dr_minted d2 = dr_minted d" by (simp add: d2_def d1_def)
  moreover have "evicted (snd (epilogue c reason abandoned out failure d)) = evicted d2"
    unfolding epilogue_def Let_def d1_def [symmetric] el prod.case d2_def [symmetric]
    by (auto simp: evicted_def evict_ids_def shutdown_terminal_route_def release_adapter_request_def emit_def emit_all_def
        set_route_def split: option.splits prod.splits)
  ultimately show thesis by (rule that)
qed

section \<open>Each episode ends once for the model\<close>

text \<open>
  C3. When the session's episode ids are fresh (no id twice, none empty), the model is told the end
  of each episode at most once, and only of episodes this driver minted: over every state the loop
  reaches, and also after the route is torn down from there, where the queued and held evictions
  and those of the still live episodes go out in one last call.
\<close>

theorem evicted_at_most_once:
  assumes "reach c d" "inj (cf_uuid c)" "\<forall>n. cf_uuid c n \<noteq> []"
  shows "distinct (evicted d) \<and> set (evicted d) \<subseteq> cf_uuid c ` {..<dr_minted d} \<and>
    distinct (evicted (snd (epilogue c reason abandoned out failure d))) \<and>
    set (evicted (snd (epilogue c reason abandoned out failure d))) \<subseteq> cf_uuid c ` {..<dr_minted d}"
proof -
  have inv: "ev_inv c d" using ev.reach_inv [OF assms(1)] assms(2,3) by (simp add: fresh_ids_def)
  obtain d2 where "ev_inv c d2" "dr_minted d2 = dr_minted d"
    "evicted (snd (epilogue c reason abandoned out failure d)) = evicted d2" using ev_epilogue [OF inv] by metis
  then show ?thesis using ev_inv_evicted [OF inv] ev_inv_evicted [of c d2] by (simp add: minted_def)
qed

theorem evicted_at_most_once_witness:
  "reach next_step_cfg sample_start \<and>
   distinct (evicted (snd (epilogue next_step_cfg (\<lambda>_. []) False EvictTimedOut None sample_start)))"
proof -
  have "inj (cf_uuid next_step_cfg)" "\<forall>n. cf_uuid next_step_cfg n \<noteq> []"
    by (simp_all add: sample_cfg_def inj_def)
  then show ?thesis
    using sample_start_reach evicted_at_most_once [OF sample_start_reach, of "\<lambda>_. []" False EvictTimedOut None] by simp
qed

end
