(* ===== verification/History.thy ===== *)
theory History
  imports DriverTrace
begin

text \<open>
  Observation history. On a history route the driver promises the model every step exactly once, in
  order: an observation either is a predict's own or rides a later predict as a row. The steps a
  group has handed over are read off the calls in the trace, those on their way off its wanted
  request and its backlog; the invariant orders them strictly by the group's step counter and, where
  the driver owns the resets, says that none of the running episode is missing.
\<close>

section \<open>The steps of a group\<close>

definition req_steps :: "predict_request \<Rightarrow> int list" where
  "req_steps m = map hf_step (pq_history m) @ (case pq_step m of None \<Rightarrow> [] | Some s \<Rightarrow> [s])"

definition call_steps :: "nat \<Rightarrow> trace_item \<Rightarrow> int list" where
  "call_steps gid t = (case t of
      CallPredict rs \<Rightarrow> concat (map (\<lambda>(k, m). if k = gid then req_steps m else []) rs) | _ \<Rightarrow> [])"

definition sent :: "nat \<Rightarrow> drv \<Rightarrow> int list" where
  "sent gid d = concat (map (call_steps gid) (dr_trace d))"

definition wanted :: "group \<Rightarrow> int list" where
  "wanted g = (case g_predict g of PWanted m \<Rightarrow> req_steps m | _ \<Rightarrow> [])"

definition queued :: "group \<Rightarrow> int list" where
  "queued g = wanted g @ map hf_step (g_history g)"

lemma sent_calls: "sent gid d = concat (map (call_steps gid) (model_calls d))"
proof -
  have "concat (map (call_steps gid) ts) = concat (map (call_steps gid) (filter is_model_call ts))" for ts
    by (induction ts) (auto simp: call_steps_def is_model_call_def split: trace_item.splits)
  then show ?thesis by (simp add: sent_def model_calls_def)
qed

definition lane_steps :: "route \<Rightarrow> int list" where
  "lane_steps r = map sl_step (ro_slots r)"

text \<open>
  \<open>hist_ok c g ss k\<close>: the group \<open>g\<close>, having handed over the steps \<open>ss\<close>, with \<open>k\<close> steps taken in the
  episode of its first lane.
\<close>

definition hist_ok :: "cfg \<Rightarrow> group \<Rightarrow> int list \<Rightarrow> int \<Rightarrow> bool" where
  "hist_ok c g ss k \<longleftrightarrow>
     sorted_wrt (<) (ss @ queued g) \<and> (\<forall>s \<in> set (ss @ queued g). s \<le> g_steps g) \<and>
     (g_phase g = Resetting \<longrightarrow> g_steps g \<notin> set (ss @ queued g)) \<and>
     (\<forall>m. g_obs_msg g = Some m \<longrightarrow> pq_step m \<noteq> None) \<and>
     (driver_owns_resets c \<longrightarrow> g_pending_roll g = [] \<and>
        (g_phase g = Ready \<or> g_phase g = Stepping \<longrightarrow> {g_steps g - k..g_steps g} \<subseteq> set (ss @ queued g)))"

definition first_lane_steps :: "nat \<Rightarrow> drv \<Rightarrow> int" where
  "first_lane_steps gid d = lane_steps (dr_route d) ! hd (g_positions (dr_groups d ! gid))"

definition hist_inv :: "cfg \<Rightarrow> drv \<Rightarrow> bool" where
  "hist_inv c d \<longleftrightarrow> (\<forall>gid < length (dr_groups d). hist_ok c (dr_groups d ! gid) (sent gid d) (first_lane_steps gid d))"

section \<open>The lanes' step counters\<close>

lemma length_lane_steps [simp]: "length (lane_steps r) = length (ro_slots r)"
  by (simp add: lane_steps_def)

lemma steps_update: "sl_step s = sl_step (ro_slots r ! p) \<Longrightarrow>
   lane_steps (r\<lparr>ro_slots := (ro_slots r)[p := s]\<rparr>) = lane_steps r"
  by (cases "p < length (ro_slots r)")
    (simp_all add: lane_steps_def map_update list_update_same_conv list_update_beyond)

lemma steps_fold: "(\<And>x r. lane_steps (f x r) = lane_steps r) \<Longrightarrow> lane_steps (fold f xs r) = lane_steps r"
  by (induction xs arbitrary: r) simp_all

named_theorems counters

lemma steps_notes [counters]:
  "lane_steps (mark_surplus e r) = lane_steps r" "lane_steps (note_episode_seeds ids ss r) = lane_steps r"
  "lane_steps (note_episode_trials ids ts r) = lane_steps r" "lane_steps (r\<lparr>ro_records := reg\<rparr>) = lane_steps r"
  "lane_steps (r\<lparr>ro_total_steps := t\<rparr>) = lane_steps r" "lane_steps (drop_episode e' r) = lane_steps r"
  "lane_steps (record_episode_summary su r) = lane_steps r" "lane_steps (r\<lparr>ro_next_slot := n\<rparr>) = lane_steps r"
  "lane_steps (r\<lparr>ro_trial_cursor := n\<rparr>) = lane_steps r"
  by (simp_all add: lane_steps_def mark_surplus_def note_episode_seeds_def note_episode_trials_def drop_episode_def
      record_episode_summary_def split: option.splits)

lemma steps_surpluses [counters]: "lane_steps (fold mark_surplus es r) = lane_steps r"
  by (rule steps_fold) (rule counters)

lemma steps_mark_predicted [counters]: "lane_steps (mark_predicted ps r) = lane_steps r"
  unfolding mark_predicted_def
  by (rule steps_fold) (auto simp: nth_opt_eq set_predicted_def intro!: steps_update split: option.splits)

lemma steps_requests:
  "predict_request_at ps ob ph r = (m, r') \<Longrightarrow> lane_steps r' = lane_steps r"
  "reset_adapter_request ids r = (rq, r') \<Longrightarrow> lane_steps r' = lane_steps r"
  by (auto simp: predict_request_at_def reset_adapter_request_def adapter_context_for_def next_request_id_def
      Let_def lane_steps_def split: prod.splits)

lemma steps_claims:
  "claim_for g r = (slots, r') \<Longrightarrow> lane_steps r' = lane_steps r"
  "claim_slots k b r = (cl, r') \<Longrightarrow> lane_steps r' = lane_steps r"
  by (auto simp: claim_for_def claim_slots_def claim_slots_upto_def Let_def counters
      split: if_splits option.splits prod.splits)

lemma steps_stage_reset: "stage_reset c b slots ids g r = Some (sd, ts, g', r') \<Longrightarrow> lane_steps r' = lane_steps r"
  by (auto simp: stage_reset_def planned_trial_indices_def claim_trial_indices_def Let_def counters
      split: option.splits if_splits)

lemma steps_complete_episodes: "complete_episodes c ctx ms r = (es, r') \<Longrightarrow> lane_steps r' = lane_steps r"
proof (induction c ctx ms r arbitrary: es r' rule: complete_episodes.induct)
  case (2 c ctx m ms r)
  have "lane_steps (snd (complete_one c ctx m r)) = lane_steps r"
    by (auto simp: complete_one_def complete_episode_def record_episode_summary_def Let_def lane_steps_def split: prod.splits)
  then show ?case using 2 by (auto split: prod.splits)
qed simp

lemma steps_claim_rolls: "claim_rolls roll lanes r = (cl, r') \<Longrightarrow> lane_steps r' = lane_steps r"
  by (induction roll lanes r arbitrary: cl r' rule: claim_rolls.induct)
    (auto dest!: steps_claims(2) split: prod.splits if_splits)

lemma steps_mark_unclaimed [counters]: "lane_steps (mark_unclaimed roll lanes ids slots r) = lane_steps r"
  unfolding mark_unclaimed_def by (rule steps_fold) (auto simp: counters split: prod.splits)

lemma steps_end_all: "end_all idxs r = (ids, r') \<Longrightarrow> lane_steps r' = lane_steps r"
proof (induction idxs arbitrary: r ids r')
  case (Cons k idxs)
  have "lane_steps (snd (end_episode_at k r)) = lane_steps r"
    by (auto simp: end_episode_at_def nth_opt_eq intro!: steps_update split: option.splits)
  then show ?case using Cons by (auto split: prod.splits)
qed simp

lemma steps_queue [counters]: "lane_steps (dr_route (queue_evictions gid g idxs d)) = lane_steps (dr_route d)"
  by (auto simp: queue_evictions_def dest: steps_end_all split: prod.splits)

text \<open>A step counts on the stepped lanes; a start sets its lanes back; neither touches the others.\<close>

lemma fold_lanes:
  assumes "\<And>k p r. lane_steps (f (k, p) r) = (if p < length (ro_slots r) then (lane_steps r)[p := h (lane_steps r ! p)] else lane_steps r)"
    and "distinct ps" "length ks = length ps"
  shows "length (ro_slots (fold f (zip ks ps) r)) = length (ro_slots r) \<and> (\<forall>q < length (ro_slots r).
     lane_steps (fold f (zip ks ps) r) ! q = (if q \<in> set ps then h (lane_steps r ! q) else lane_steps r ! q))"
  using assms(2,3)
proof (induction ps arbitrary: ks r)
  case (Cons p ps)
  then obtain k ks' where ks: "ks = k # ks'" by (cases ks) auto
  let ?r = "f (k, p) r"
  have len: "length (ro_slots ?r) = length (ro_slots r)" using assms(1) [of k p r]
    by (metis length_lane_steps length_list_update)
  have "length (ro_slots (fold f (zip ks' ps) ?r)) = length (ro_slots ?r) \<and> (\<forall>q < length (ro_slots ?r).
     lane_steps (fold f (zip ks' ps) ?r) ! q = (if q \<in> set ps then h (lane_steps ?r ! q) else lane_steps ?r ! q))"
    using Cons ks by auto
  then show ?case using Cons.prems len assms(1) [of k p r] by (auto simp: ks nth_list_update)
qed simp

lemma steps_record_step:
  assumes "distinct ps" "q < length (ro_slots r)"
  shows "lane_steps (record_step_at ps rw a b r) ! q = (if q \<in> set ps then lane_steps r ! q + 1 else lane_steps r ! q)"
proof -
  have "lane_steps (step_lane rw a b (k, p) r) = (if p < length (ro_slots r)
      then (lane_steps r)[p := lane_steps r ! p + 1] else lane_steps r)" for k p and r :: route
    by (simp add: step_lane_def nth_opt_eq lane_steps_def map_update)
  from fold_lanes [of "step_lane rw a b" "\<lambda>x. x + 1", OF this assms(1), of "[0..<length ps]"
      "r\<lparr>ro_total_steps := ro_total_steps r + 1\<rparr>"]
  show ?thesis using assms(2) by (simp add: record_step_at_def counters)
qed

lemma sync_slot_reset: "sync_slot reg now True auto x rid slot = (s', dropped) \<Longrightarrow> sl_step s' = 0"
  by (auto simp: sync_slot_def Let_def split: prod.splits if_splits)

lemma steps_sync_lane:
  shows "lane_steps (sync_lane now ids rids True auto (k, p) r) =
      (if p < length (ro_slots r) then (lane_steps r)[p := 0] else lane_steps r)"
    and "q \<noteq> p \<Longrightarrow> lane_steps (sync_lane now ids rids b auto (k, p) r) ! q = lane_steps r ! q"
proof -
  have lane: "\<exists>s' dropped. sync_lane now ids rids b auto (k, p) r = drop_episode dropped (r\<lparr>ro_slots := (ro_slots r)[p := s']\<rparr>) \<and>
      (b \<longrightarrow> sl_step s' = 0)" if "p < length (ro_slots r)" for b
  proof -
    obtain s' dropped where s: "sync_slot (ro_records r) (now k) b auto (case nth_opt ids k of None \<Rightarrow> [] | Some e \<Rightarrow> e)
        (case nth_opt rids k of None \<Rightarrow> [] | Some e \<Rightarrow> e) (ro_slots r ! p) = (s', dropped)" by fastforce
    then show ?thesis using that sync_slot_reset by (cases b) (auto simp: sync_lane_def nth_opt_eq)
  qed
  have upd_steps: "lane_steps (drop_episode dropped (r\<lparr>ro_slots := (ro_slots r)[p := s']\<rparr>)) = (lane_steps r)[p := sl_step s']"
    for dropped s' by (simp add: counters) (simp add: lane_steps_def map_update)
  have upd: "\<exists>n. lane_steps (sync_lane now ids rids b auto (k, p) r) = (lane_steps r)[p := n] \<and> (b \<longrightarrow> n = 0)"
    if "p < length (ro_slots r)" for b using lane [OF that, of b] upd_steps by auto
  have skip: "sync_lane now ids rids b auto (k, p) r = r" if "\<not> p < length (ro_slots r)" for b
    using that by (simp add: sync_lane_def nth_opt_eq)
  show "lane_steps (sync_lane now ids rids True auto (k, p) r) =
      (if p < length (ro_slots r) then (lane_steps r)[p := 0] else lane_steps r)"
    using upd [of True] skip by auto
  show "q \<noteq> p \<Longrightarrow> lane_steps (sync_lane now ids rids b auto (k, p) r) ! q = lane_steps r ! q"
    using upd [of b] skip by (cases "p < length (ro_slots r)") auto
qed

lemma steps_start:
  assumes "distinct ps" "q < length (ro_slots r)"
  shows "lane_steps (sync_slots now ps ids rids True auto r) ! q = (if q \<in> set ps then 0 else lane_steps r ! q)"
  using fold_lanes [of "sync_lane now ids rids True auto" "\<lambda>_. 0", OF steps_sync_lane(1) assms(1), of "[0..<length ps]" r]
    assms(2) by (simp add: sync_slots_def)

lemma steps_sync_other:
  assumes "q \<notin> set ps"
  shows "lane_steps (sync_slots now ps ids rids b auto r) ! q = lane_steps r ! q"
proof -
  have "lane_steps (fold (sync_lane now ids rids b auto) (zip ks ps) r) ! q = lane_steps r ! q" for ks
    using assms
  proof (induction ps arbitrary: ks r)
    case (Cons p ps)
    then show ?case by (cases ks) (simp_all add: steps_sync_lane(2))
  qed simp
  then show ?thesis by (simp add: sync_slots_def)
qed

section \<open>One group at a time\<close>

text \<open>
  A handler of one group changes that group, the counters of that group's lanes and nothing else the
  invariant reads.
\<close>

definition only_group :: "nat \<Rightarrow> drv \<Rightarrow> drv \<Rightarrow> bool" where
  "only_group gid d d' \<longleftrightarrow> gid < length (dr_groups d) \<and> model_calls d' = model_calls d \<and>
     (\<exists>g. dr_groups d' = (dr_groups d)[gid := g]) \<and> g_positions (dr_groups d' ! gid) = g_positions (dr_groups d ! gid) \<and>
     (\<forall>q < length (ro_slots (dr_route d)). q \<notin> set (g_positions (dr_groups d ! gid)) \<longrightarrow>
        lane_steps (dr_route d') ! q = lane_steps (dr_route d) ! q) \<and>
     length (ro_slots (dr_route d')) = length (ro_slots (dr_route d))"

lemma only_group_trans: "only_group gid d d1 \<Longrightarrow> only_group gid d1 d2 \<Longrightarrow> only_group gid d d2"
  by (auto simp: only_group_def)

lemma only_groupI:
  assumes "gid < length (dr_groups d)" "model_calls d' = model_calls d" "dr_groups d' = (dr_groups d)[gid := g]"
    "g_positions g = g_positions (dr_groups d ! gid)" "lane_steps (dr_route d') = lane_steps (dr_route d)"
  shows "only_group gid d d'"
proof -
  have "length (ro_slots (dr_route d')) = length (ro_slots (dr_route d))" using assms(5) length_lane_steps by metis
  then show ?thesis using assms by (auto simp: only_group_def)
qed

lemma hist_inv_group:
  assumes inv: "hist_inv c d" and sh: "shape_ok c d" and og: "only_group gid d d'"
    and ok: "hist_ok c (dr_groups d' ! gid) (sent gid d') (first_lane_steps gid d')"
  shows "hist_inv c d'"
proof -
  from og obtain g where lt: "gid < length (dr_groups d)" and calls: "model_calls d' = model_calls d"
    and g: "dr_groups d' = (dr_groups d)[gid := g]"
    and st: "\<And>q. q < length (ro_slots (dr_route d)) \<Longrightarrow> q \<notin> set (g_positions (dr_groups d ! gid)) \<Longrightarrow>
        lane_steps (dr_route d') ! q = lane_steps (dr_route d) ! q"
    by (auto simp: only_group_def)
  have "hist_ok c (dr_groups d' ! k) (sent k d') (first_lane_steps k d')" if k: "k < length (dr_groups d')" for k
  proof (cases "k = gid")
    case False
    let ?p = "hd (g_positions (dr_groups d ! k))"
    have k': "k < length (dr_groups d)" using k g by simp
    have "?p \<in> set (g_positions (dr_groups d ! k))" using shape_positions(3) [OF sh k'] by simp
    moreover from this have "?p < length (ro_slots (dr_route d))" by (rule shape_positions(4) [OF sh k'])
    ultimately have "lane_steps (dr_route d') ! ?p = lane_steps (dr_route d) ! ?p"
      using shape_disjoint [OF sh k' lt False] by (intro st) auto
    then show ?thesis
      using inv False k' by (simp add: hist_inv_def g first_lane_steps_def sent_calls calls)
  qed (use ok in simp)
  then show ?thesis by (simp add: hist_inv_def)
qed

section \<open>What each operation does to the steps of its group\<close>

text \<open>A group between two observations: everything so far is older than the step counter.\<close>

definition hist_strict :: "cfg \<Rightarrow> group \<Rightarrow> int list \<Rightarrow> bool" where
  "hist_strict c g ss \<longleftrightarrow>
     sorted_wrt (<) (ss @ queued g) \<and> (\<forall>s \<in> set (ss @ queued g). s < g_steps g) \<and>
     (\<forall>m. g_obs_msg g = Some m \<longrightarrow> pq_step m \<noteq> None) \<and> (driver_owns_resets c \<longrightarrow> g_pending_roll g = [])"

definition hist_full :: "cfg \<Rightarrow> group \<Rightarrow> int list \<Rightarrow> int \<Rightarrow> bool" where
  "hist_full c g ss k \<longleftrightarrow> (driver_owns_resets c \<longrightarrow> {g_steps g - k..<g_steps g} \<subseteq> set (ss @ queued g))"

lemma latest_request_steps:
  assumes "cf_deliver_history c" "\<forall>m. g_obs_msg g = Some m \<longrightarrow> pq_step m \<noteq> None" "latest_request c g agg = (m, g', agg')"
  shows "m = None \<and> g' = g \<or>
    (\<exists>msg. m = Some msg \<and> g' = g\<lparr>g_history := []\<rparr> \<and> req_steps msg = map hf_step (g_history g))"
proof (cases "g_obs_msg g")
  case None
  then show ?thesis using assms(3) by (simp add: latest_request_def)
next
  case (Some msg)
  then obtain st where st: "pq_step msg = Some st" using assms(2) by blast
  show ?thesis
  proof (cases "last_step (g_history g) = pq_step msg")
    case True
    then have ne: "g_history g \<noteq> []" "hf_step (last (g_history g)) = st"
      using st by (auto simp: last_step_def split: if_splits)
    have "map hf_step (butlast (g_history g)) @ [st] = map hf_step (g_history g)"
      using ne by (cases "g_history g" rule: rev_cases) auto
    then show ?thesis using assms(1,3) Some True st by (auto simp: latest_request_def Let_def req_steps_def)
  qed (use assms Some in \<open>simp add: latest_request_def\<close>)
qed

lemma prefetch_steps:
  assumes "cf_deliver_history c" "\<forall>m. g_obs_msg g = Some m \<longrightarrow> pq_step m \<noteq> None" "prefetch c gid g d = (g2, d2)"
  shows "queued g2 = queued g \<and> g_steps g2 = g_steps g \<and> g_obs_msg g2 = g_obs_msg g \<and>
    g_pending_roll g2 = g_pending_roll g \<and> g_positions g2 = g_positions g"
proof (cases "cf_prefetch_lead c > 0 \<and> length (g_replay g) \<le> cf_prefetch_lead c \<and> g_predict g = PNone")
  case True
  obtain m g' agg' where r: "latest_request c g (dr_agg d) = (m, g', agg')" by (cases "latest_request c g (dr_agg d)") auto
  have "g2 = (case m of Some msg \<Rightarrow> g'\<lparr>g_predict := PWanted msg\<rparr> | None \<Rightarrow> g')"
    using assms(3) True r by (auto simp: prefetch_def Let_def)
  then show ?thesis using latest_request_steps [OF assms(1,2) r] True by (auto simp: queued_def wanted_def)
qed (use assms(3) in \<open>auto simp: prefetch_def\<close>)

lemma land_predict_steps:
  assumes "cf_deliver_history c" "\<forall>m. g_obs_msg g = Some m \<longrightarrow> pq_step m \<noteq> None" "land_predict c g frames agg = (g', agg')"
  shows "queued g' = queued g \<and> g_steps g' = g_steps g \<and> g_obs_msg g' = g_obs_msg g \<and> g_phase g' = g_phase g \<and>
    g_pending_roll g' = g_pending_roll g \<and> g_positions g' = g_positions g"
proof (cases "g_predict g = PInFlight True \<and> g_phase g = Ready \<and> g_replay g = []")
  case True
  obtain m g1 agg1 where r: "latest_request c g agg = (m, g1, agg1)" by (cases "latest_request c g agg") auto
  have "g' = g1\<lparr>g_predict := (case m of Some msg \<Rightarrow> PWanted msg | None \<Rightarrow> PNone)\<rparr>"
    using assms(3) True r by (simp add: land_predict_def)
  then show ?thesis using latest_request_steps [OF assms(1,2) r] True by (auto simp: queued_def wanted_def)
qed (use assms(3) in \<open>auto simp: land_predict_def queued_def wanted_def split: predict_state.splits if_splits\<close>)

lemma take_observation_steps:
  assumes "cf_deliver_history c" "take_observation c msg g agg = Inr (g', agg')"
  shows "queued g' = queued g @ [g_steps g]" "\<forall>m. g_obs_msg g' = Some m \<longrightarrow> pq_step m \<noteq> None"
    "length (g_history g') \<le> max (length (g_history g)) history_backlog_cap"
  using assms
  by (auto simp: take_observation_def Let_def queued_def wanted_def req_steps_def replans_def split: if_splits predict_state.splits)

lemma hist_ok_observed:
  assumes st: "hist_strict c g ss" and fu: "hist_full c g ss k" and q: "queued g' = queued g @ [g_steps g]"
    and g': "g_steps g' = g_steps g" "g_phase g' = Ready" "g_pending_roll g' = g_pending_roll g"
    and obs: "\<forall>m. g_obs_msg g' = Some m \<longrightarrow> pq_step m \<noteq> None"
  shows "hist_ok c g' ss k"
proof -
  have "sorted_wrt (<) (ss @ queued g')" using st by (auto simp: hist_strict_def q sorted_wrt_append)
  moreover have "\<forall>s \<in> set (ss @ queued g'). s \<le> g_steps g'" using st by (auto simp: hist_strict_def q g'(1) intro: less_imp_le)
  moreover have "{g_steps g - k..g_steps g} \<subseteq> insert (g_steps g) {g_steps g - k..<g_steps g}" by auto
  then have "driver_owns_resets c \<longrightarrow> {g_steps g' - k..g_steps g'} \<subseteq> set (ss @ queued g')"
    using fu unfolding hist_full_def q g'(1) by fastforce
  ultimately show ?thesis using st obs by (simp add: hist_ok_def hist_strict_def g')
qed

lemma observe_hist:
  assumes dh: "cf_deliver_history c" and lt: "gid < length (dr_groups d)"
    and pre: "hist_strict c (dr_groups d ! gid) ss" "hist_full c (dr_groups d ! gid) ss k"
    and run: "observe c i gid ob infos ph b d = (d', None)"
  shows "hist_ok c (dr_groups d' ! gid) ss k" "only_group gid d d'" "lane_steps (dr_route d') = lane_steps (dr_route d)"
proof -
  from run lt obtain msg rt g' agg where
    rq: "\<exists>obs0. predict_request_at (g_positions (dr_groups d ! gid)) obs0 ph (dr_route d) = (msg, rt)"
    and "\<exists>obs1 aggx. take_observation c (msg\<lparr>pq_observation := obs1\<rparr>) (dr_groups d ! gid) aggx = Inr (g', agg)"
    and g: "dr_groups d' = (dr_groups d)[gid := g']" and rt: "dr_route d' = rt" by (rule observe_cases)
  then obtain obs1 aggx where tk: "take_observation c (msg\<lparr>pq_observation := obs1\<rparr>) (dr_groups d ! gid) aggx = Inr (g', agg)"
    by blast
  note t = take_observation_steps [OF dh tk] and f = take_observation_group [OF tk]
  show ls: "lane_steps (dr_route d') = lane_steps (dr_route d)" using rq rt steps_requests(1) by blast
  show "hist_ok c (dr_groups d' ! gid) ss k" using hist_ok_observed [OF pre t(1) _ _ _ t(2)] f lt by (simp add: g)
  show "only_group gid d d'" by (rule only_groupI [OF lt calls_observe [OF run] g]) (use f ls in simp_all)
qed

lemma hist_ok_drop:
  assumes st: "hist_strict c g ss" and q: "queued g' \<in> {queued g, wanted g, map hf_step (g_history g), []}"
    and g': "g_steps g' = g_steps g" "g_obs_msg g' = g_obs_msg g" "g_pending_roll g' = [] \<or> g_pending_roll g' = g_pending_roll g"
      "g_phase g' \<noteq> Ready" "g_phase g' \<noteq> Stepping"
  shows "hist_ok c g' ss k"
proof -
  have sorted: "sorted_wrt (<) (ss @ wanted g @ map hf_step (g_history g))" using st by (simp add: hist_strict_def queued_def)
  have so: "sorted_wrt (<) (ss @ queued g')" and sub: "set (queued g') \<subseteq> set (queued g)"
    using q by (elim insertE; use sorted in \<open>simp add: queued_def sorted_wrt_append ball_Un\<close>)+
  have lt: "\<forall>s \<in> set (ss @ queued g'). s < g_steps g'"
    using st sub by (auto simp only: hist_strict_def g'(1) set_append)
  then have "\<forall>s \<in> set (ss @ queued g'). s \<le> g_steps g'" "g_steps g' \<notin> set (ss @ queued g')" by (blast intro: less_imp_le)+
  moreover have "\<forall>m. g_obs_msg g' = Some m \<longrightarrow> pq_step m \<noteq> None" using st by (simp add: hist_strict_def g'(2))
  moreover have "driver_owns_resets c \<longrightarrow> g_pending_roll g' = []" using st g'(3) by (auto simp: hist_strict_def)
  ultimately show ?thesis using so g'(4,5) unfolding hist_ok_def by blast
qed

lemma begin_reset_hist:
  assumes lt: "gid < length (dr_groups d)" and st: "hist_strict c (dr_groups d ! gid) ss"
    and run: "begin_reset c gid initial d = (d', None)"
  shows "hist_ok c (dr_groups d' ! gid) ss k \<and> only_group gid d d'"
  using run lt
proof (cases rule: begin_reset_cases)
  case (idle rt)
  let ?g = "(dr_groups d ! gid)\<lparr>g_phase := Idle, g_predict := PNone\<rparr>"
  have g: "dr_groups d' = (dr_groups d)[gid := ?g]" "lane_steps (dr_route d') = lane_steps (dr_route d)"
    using idle(2) steps_claims(1) [OF idle(1)] by (simp_all add: set_route_def)
  have "hist_ok c ?g ss k"
    by (rule hist_ok_drop [OF st]) (simp_all add: queued_def wanted_def)
  then have "hist_ok c (dr_groups d' ! gid) ss k" using lt by (simp add: g)
  moreover have "only_group gid d d'" by (rule only_groupI [OF lt calls_begin_reset [OF run] g(1)]) (simp_all add: g)
  ultimately show ?thesis by simp
next
  case (reset slots rt1 ids seeds trials g rt op)
  note f = stage_reset_group [OF reset(4)]
  have ls: "lane_steps (dr_route d') = lane_steps (dr_route d)"
    using steps_claims(1) [OF reset(1)] steps_stage_reset [OF reset(4)] reset(11) by simp
  have "queued g = wanted (dr_groups d ! gid)" using f by (simp add: queued_def wanted_def)
  then have "hist_ok c (g\<lparr>g_env := False, g_phase := Resetting\<rparr>) ss k"
    using f by (intro hist_ok_drop [OF st]) (simp_all add: queued_def wanted_def)
  then have "hist_ok c (dr_groups d' ! gid) ss k" using lt by (simp add: reset(8))
  moreover have "only_group gid d d'" by (rule only_groupI [OF lt calls_begin_reset [OF run] reset(8)]) (use f ls in simp_all)
  ultimately show ?thesis by simp
qed

lemma account_step_hist:
  assumes lt: "gid < length (dr_groups d)" and sh: "shape_ok c d"
    and ok: "hist_ok c (dr_groups d ! gid) ss (first_lane_steps gid d)" "g_phase (dr_groups d ! gid) = Stepping"
    and acc: "account_step c i gid (dr_groups d ! gid) resp rpc d = (Inr completed, d1)"
  shows "hist_strict c (dr_groups d1 ! gid) ss" "hist_full c (dr_groups d1 ! gid) ss (first_lane_steps gid d1)"
    "only_group gid d d1"
proof -
  let ?g = "dr_groups d ! gid" and ?ps = "g_positions (dr_groups d ! gid)"
  note a = account_step_group [OF acc] and ps = shape_positions [OF sh lt]
  have st: "lane_steps (dr_route d1) ! q = (if q \<in> set ?ps then lane_steps (dr_route d) ! q + 1 else lane_steps (dr_route d) ! q)"
    if "q < length (ro_slots (dr_route d))" for q unfolding a(4) by (rule steps_record_step [OF ps(2) that])
  have g1: "dr_groups d1 ! gid = ?g\<lparr>g_phase := Ready, g_steps := g_steps ?g + 1, g_pending_predict := 0\<rparr>"
    using lt by (simp add: a(1))
  have "hd ?ps \<in> set ?ps" using ps(3) by simp
  then have "first_lane_steps gid d1 = first_lane_steps gid d + 1"
    using st [of "hd ?ps"] ps(4) [of "hd ?ps"] by (simp add: first_lane_steps_def g1)
  then have "{g_steps ?g + 1 - first_lane_steps gid d1..<g_steps ?g + 1} = {g_steps ?g - first_lane_steps gid d..g_steps ?g}" by auto
  moreover have "queued (dr_groups d1 ! gid) = queued ?g" by (simp add: g1 queued_def wanted_def)
  ultimately show "hist_full c (dr_groups d1 ! gid) ss (first_lane_steps gid d1)"
    using ok by (simp add: hist_full_def hist_ok_def g1)
  show "hist_strict c (dr_groups d1 ! gid) ss"
    using ok(1) \<open>queued (dr_groups d1 ! gid) = queued ?g\<close> unfolding hist_strict_def hist_ok_def by (auto simp: g1)
  have "length (ro_slots (dr_route d1)) = length (ro_slots (dr_route d))"
    unfolding a(4) using shape_record_step map_eq_imp_length_eq by (fastforce simp: route_shape_def)
  then show "only_group gid d d1"
    unfolding only_group_def using lt calls_account_step [OF acc] a(1) st by (auto simp: g1)
qed

text \<open>The middle of \<open>on_step\<close>, from the accounted step to its decision.\<close>

definition mid :: "cfg \<Rightarrow> nat \<Rightarrow> int list \<Rightarrow> drv \<Rightarrow> bool" where
  "mid c gid ss d \<longleftrightarrow> hist_strict c (dr_groups d ! gid) ss \<and> hist_full c (dr_groups d ! gid) ss (first_lane_steps gid d)"

lemma only_group_steps:
  "only_group gid d d' \<Longrightarrow> lane_steps (dr_route d') = lane_steps (dr_route d) \<Longrightarrow> first_lane_steps gid d' = first_lane_steps gid d"
  by (simp add: first_lane_steps_def only_group_def)

lemma hist_same_group:
  assumes "queued g' = queued g" "g_steps g' = g_steps g" "g_obs_msg g' = g_obs_msg g"
    "g_pending_roll g' = [] \<or> g_pending_roll g' = g_pending_roll g"
  shows "hist_strict c g ss \<Longrightarrow> hist_strict c g' ss" "hist_full c g ss k \<Longrightarrow> hist_full c g' ss k"
  using assms by (auto simp: hist_strict_def hist_full_def)

lemma apply_roll_hist:
  assumes lt: "gid < length (dr_groups d)" and sh: "shape_ok c d" and m: "mid c gid ss d"
  shows "mid c gid ss (apply_roll i gid ctx (dr_groups d ! gid) d)"
    and "only_group gid d (apply_roll i gid ctx (dr_groups d ! gid) d)"
proof -
  let ?g = "dr_groups d ! gid" and ?d' = "apply_roll i gid ctx (dr_groups d ! gid) d"
  have g': "dr_groups ?d' ! gid = (if g_pending_roll ?g = [] then ?g else ?g\<lparr>g_pending_completed := [], g_pending_roll := []\<rparr>)"
    using lt by (simp add: apply_roll_group(1) [OF lt refl])
  have same: "?d' = d" if "g_pending_roll ?g = []" using that by (simp add: apply_roll_def)
  have own: "g_pending_roll ?g = []" if "driver_owns_resets c" using that m by (simp add: mid_def hist_strict_def)
  have "hist_strict c (dr_groups ?d' ! gid) ss"
    by (rule hist_same_group(1) [of _ ?g]) (use m in \<open>auto simp: g' mid_def queued_def wanted_def\<close>)
  moreover have "hist_full c (dr_groups ?d' ! gid) ss (first_lane_steps gid ?d')"
    using m own same by (auto simp: mid_def hist_full_def)
  ultimately show "mid c gid ss ?d'" by (simp add: mid_def)
  show "only_group gid d ?d'"
  proof (cases "g_pending_roll ?g = []")
    case True
    then show ?thesis using only_groupI [OF lt, of d ?g] same by simp
  next
    case False
    let ?roll = "g_pending_roll ?g" and ?ps = "g_positions ?g"
    define d2 where "d2 = queue_evictions gid (?g\<lparr>g_pending_completed := [], g_pending_roll := []\<rparr>) (map fst ?roll)
        (set_group gid (?g\<lparr>g_pending_completed := [], g_pending_roll := []\<rparr>) (fan_out_completions (g_pending_completed ?g) d))"
    define ids where "ids = episode_ids_with_roll (episode_ids_at ?ps (dr_route d2)) (g_lanes ?g) ?roll"
    obtain rolling rt3 where cr: "claim_rolls ?roll (g_lanes ?g) (dr_route d2) = (rolling, rt3)"
      by (cases "claim_rolls ?roll (g_lanes ?g) (dr_route d2)")
    define rt4 where "rt4 = mark_unclaimed ?roll (g_lanes ?g) ids rolling rt3"
    obtain started rt5 where ob: "observe_episode_ids_at (io_now i) ?ps ids rolling rt4 = (started, rt5)"
      by (cases "observe_episode_ids_at (io_now i) ?ps ids rolling rt4")
    have d': "?d' = invoke_started_episodes ctx started (set_route rt5 d2)"
      using False cr ob by (simp add: apply_roll_def Let_def d2_def [symmetric] ids_def rt4_def)
    obtain rids reg where rt5: "rt5 = sync_slots (io_now i) ?ps ids rids False True (rt4\<lparr>ro_records := reg\<rparr>)"
      using ob by (auto simp: observe_episode_ids_at_def Let_def split: prod.splits)
    have "lane_steps rt4 = lane_steps (dr_route d)"
      using steps_claim_rolls [OF cr] by (simp add: rt4_def counters d2_def)
    then have "lane_steps (dr_route ?d') ! q = lane_steps (dr_route d) ! q" if "q \<notin> set ?ps" for q
      using that by (simp add: d' set_route_def rt5 steps_sync_other counters)
    moreover have "length (ro_slots (dr_route ?d')) = length (ro_slots (dr_route d))"
      using shape_apply_roll [OF lt, of i ctx] map_eq_imp_length_eq by (fastforce simp: drv_shape_def route_shape_def)
    ultimately show ?thesis
      unfolding only_group_def using lt False apply_roll_group(1) [OF lt refl, of i ctx] by (auto simp: calls g')
  qed
qed

lemma finish_episodes_hist:
  assumes lt: "gid < length (dr_groups d)" and m: "mid c gid ss d"
  shows "mid c gid ss (finish_episodes c gid ctx completed (dr_groups d ! gid) d)"
    and "only_group gid d (finish_episodes c gid ctx completed (dr_groups d ! gid) d)"
proof -
  let ?g = "dr_groups d ! gid" and ?d' = "finish_episodes c gid ctx completed (dr_groups d ! gid) d"
  obtain pc where g: "dr_groups ?d' = (dr_groups d)[gid := ?g\<lparr>g_pending_completed := pc\<rparr>]"
    using finish_episodes_group(1) [OF lt refl] by metis
  have ls: "lane_steps (dr_route ?d') = lane_steps (dr_route d)"
    by (auto simp: finish_episodes_def Let_def counters set_route_def dest: steps_complete_episodes split: prod.splits)
  show og: "only_group gid d ?d'" by (rule only_groupI [OF lt _ g]) (simp_all add: calls ls)
  have g': "dr_groups ?d' ! gid = ?g\<lparr>g_pending_completed := pc\<rparr>" using lt by (simp add: g)
  have "queued (?g\<lparr>g_pending_completed := pc\<rparr>) = queued ?g" by (simp add: queued_def wanted_def)
  then show "mid c gid ss ?d'"
    using m hist_same_group [of "?g\<lparr>g_pending_completed := pc\<rparr>" ?g] by (simp add: mid_def g' only_group_steps [OF og ls])
qed

lemma flush_stale_hist:
  assumes lt: "gid < length (dr_groups d)" and m: "mid c gid ss d"
  shows "hist_strict c (dr_groups (flush_stale c gid completed (dr_groups d ! gid) d) ! gid) ss"
    and "completed = [] \<Longrightarrow> flush_stale c gid completed (dr_groups d ! gid) d = d"
    and "only_group gid d (flush_stale c gid completed (dr_groups d ! gid) d)"
proof -
  let ?g = "dr_groups d ! gid" and ?d' = "flush_stale c gid completed (dr_groups d ! gid) d"
  show same: "completed = [] \<Longrightarrow> ?d' = d" by (simp add: flush_stale_def)
  note f = flush_stale_group [OF lt refl, of c completed]
  obtain roll where g: "dr_groups ?d' = (dr_groups d)[gid := (if completed = [] then ?g else ?g\<lparr>g_replay := [],
      g_predict := (if is_in_flight ?g then PInFlight True else PNone), g_pending_roll := roll\<rparr>)]" using f(1) by blast
  show "only_group gid d ?d'" by (rule only_groupI [OF lt _ g]) (simp_all add: calls f)
  have own: "g_pending_roll (dr_groups ?d' ! gid) = g_pending_roll ?g" if "driver_owns_resets c"
    using lt that by (simp add: flush_stale_def Let_def)
  have st: "hist_strict c ?g ss" using m by (simp add: mid_def)
  show "hist_strict c (dr_groups ?d' ! gid) ss"
  proof (cases "completed = []")
    case False
    let ?g' = "?g\<lparr>g_replay := [], g_predict := (if is_in_flight ?g then PInFlight True else PNone), g_pending_roll := roll\<rparr>"
    have "hist_strict c (?g\<lparr>g_predict := (if is_in_flight ?g then PInFlight True else PNone)\<rparr>) ss"
      using st by (auto simp: hist_strict_def queued_def wanted_def sorted_wrt_append)
    moreover have "driver_owns_resets c \<longrightarrow> roll = []" using own st lt False by (auto simp: g hist_strict_def)
    ultimately have "hist_strict c ?g' ss" by (simp add: hist_strict_def queued_def wanted_def)
    then show ?thesis using lt False by (simp add: g)
  qed (use st same in simp)
qed

lemma stop_group_hist:
  assumes lt: "gid < length (dr_groups d)" and st: "hist_strict c (dr_groups d ! gid) ss"
  shows "hist_ok c (dr_groups (stop_group gid (dr_groups d ! gid) d) ! gid) ss k"
    and "only_group gid d (stop_group gid (dr_groups d ! gid) d)"
proof -
  let ?g = "dr_groups d ! gid" and ?d' = "stop_group gid (dr_groups d ! gid) d"
  let ?g' = "?g\<lparr>g_pending_completed := [], g_pending_roll := [], g_phase := Idle, g_predict := PNone\<rparr>"
  note g = stop_group_group(1) [OF lt, of ?g]
  have "hist_ok c ?g' ss k" by (rule hist_ok_drop [OF st]) (simp_all add: queued_def wanted_def)
  then show "hist_ok c (dr_groups ?d' ! gid) ss k" using lt by (simp add: g)
  have "lane_steps (dr_route ?d') = lane_steps (dr_route d)" by (simp add: stop_group_def Let_def counters)
  then show "only_group gid d ?d'" by (intro only_groupI [OF lt _ g]) (simp_all add: calls)
qed

lemma on_step_hist:
  assumes dh: "cf_deliver_history c" and sh: "shape_ok c d" and lt: "gid < length (dr_groups d)"
    and ok: "hist_ok c (dr_groups d ! gid) ss (first_lane_steps gid d)" "g_phase (dr_groups d ! gid) = Stepping"
    and run: "on_step c i gid resp rpc d = (d', None)"
  shows "hist_ok c (dr_groups d' ! gid) ss (first_lane_steps gid d') \<and> only_group gid d d'"
  using run lt
proof (rule on_step_cases)
  fix completed d1 d4
  let ?ctx = "group_context (g_positions (dr_groups d ! gid)) (g_lane_group (dr_groups d ! gid)) (dr_route d)"
  assume acc: "account_step c i gid (dr_groups d ! gid) resp rpc d = (Inr completed, d1)"
    and d4: "d4 = after_step c i gid ?ctx completed d1"
    and out: "(group_stops c (dr_groups d4 ! gid) (dr_route d4) \<and> d' = stop_group gid (dr_groups d4 ! gid) d4) \<or>
     (\<not> group_stops c (dr_groups d4 ! gid) (dr_route d4) \<and> driver_owns_resets c \<and> completed \<noteq> [] \<and>
        begin_reset c gid False d4 = (d', None)) \<or>
     (\<not> group_stops c (dr_groups d4 ! gid) (dr_route d4) \<and> \<not> (driver_owns_resets c \<and> completed \<noteq> []) \<and>
        (\<exists>ob infos. observe c i gid ob infos StepObservation False d4 = (d', None)))"
  define d2 where "d2 = apply_roll i gid ?ctx (dr_groups d1 ! gid) d1"
  define d3 where "d3 = finish_episodes c gid ?ctx completed (dr_groups d2 ! gid) d2"
  have d4': "d4 = flush_stale c gid completed (dr_groups d3 ! gid) d3" by (simp add: d4 after_step_def d2_def d3_def Let_def)
  note a = account_step_hist [OF lt sh ok acc]
  have keep: "gid < length (dr_groups e')" if "only_group gid e e'" for e e' using that by (auto simp: only_group_def)
  have l1: "gid < length (dr_groups d1)" by (rule keep [OF a(3)])
  have sh1: "shape_ok c d1" by (rule shape_ok_cong [OF shape_account_step [OF acc] sh])
  have "mid c gid ss d1" using a by (simp add: mid_def)
  note r = apply_roll_hist [OF l1 sh1 this, of i ?ctx, folded d2_def]
  have l2: "gid < length (dr_groups d2)" by (rule keep [OF r(2)])
  note e = finish_episodes_hist [OF l2 r(1), of ?ctx completed, folded d3_def]
  have l3: "gid < length (dr_groups d3)" by (rule keep [OF e(2)])
  note f = flush_stale_hist [OF l3 e(1), of completed, folded d4']
  have og: "only_group gid d d4" using a(3) r(2) e(2) f(3) only_group_trans by blast
  have l4: "gid < length (dr_groups d4)" by (rule keep [OF f(3)])
  have full: "hist_full c (dr_groups d4 ! gid) ss (first_lane_steps gid d4)" if "\<not> (driver_owns_resets c \<and> completed \<noteq> [])"
    using e(1) f(2) that by (cases "completed = []") (auto simp: mid_def hist_full_def)
  from out consider "d' = stop_group gid (dr_groups d4 ! gid) d4" | "begin_reset c gid False d4 = (d', None)"
    | ob infos where "\<not> (driver_owns_resets c \<and> completed \<noteq> [])" "observe c i gid ob infos StepObservation False d4 = (d', None)"
    by blast
  then show ?thesis
  proof cases
    case 1
    then show ?thesis using stop_group_hist [OF l4 f(1)] og only_group_trans by blast
  next
    case 2
    then show ?thesis using begin_reset_hist [OF l4 f(1)] og only_group_trans by blast
  next
    case 3
    note o = observe_hist [OF dh l4 f(1) full [OF 3(1)] 3(2)]
    then show ?thesis using only_group_steps [OF o(2,3)] og only_group_trans by metis
  qed
qed

lemma on_reset_hist:
  assumes dh: "cf_deliver_history c" and sh: "shape_ok c d" and lt: "gid < length (dr_groups d)"
    and ok: "hist_ok c (dr_groups d ! gid) ss k" "g_phase (dr_groups d ! gid) = Resetting"
    and run: "on_reset c i gid initial resp rpc d = (d', None)"
  shows "hist_ok c (dr_groups d' ! gid) ss (first_lane_steps gid d') \<and> only_group gid d d'"
proof -
  let ?g = "dr_groups d ! gid" and ?ps = "g_positions (dr_groups d ! gid)"
  let ?ctx = "group_context ?ps (g_lane_group ?g) (dr_route d)"
  from run lt obtain ids slots where st: "g_pending_start ?g = Some (ids, slots)"
    by (cases "g_pending_start ?g") (auto simp: on_reset_def nth_opt_eq)
  obtain started rt where se: "start_episodes_at (io_now i) ?ps ids (\<not> initial) slots (dr_route d) = (started, rt)"
    by (cases "start_episodes_at (io_now i) ?ps ids (\<not> initial) slots (dr_route d)")
  define d2 where "d2 = (if initial then emit (ResetLogged (ro_session_id (dr_route d)) ?ctx rpc (length ids))
      (set_group gid (?g\<lparr>g_pending_start := None\<rparr>) d) else set_group gid (?g\<lparr>g_pending_start := None\<rparr>) d)"
  define d3 where "d3 = invoke_started_episodes ?ctx started (set_route rt d2)"
  have obs: "observe c i gid (rr_observation resp) (rr_infos resp) ResetObservation True d3 = (d', None)"
    using run lt st se by (cases initial) (simp_all add: on_reset_def nth_opt_eq Let_def d2_def d3_def)
  obtain reg rids where rt: "rt = sync_slots (io_now i) ?ps ids rids True (\<not> initial) ((dr_route d)\<lparr>ro_records := reg\<rparr>)"
    using se by (auto simp: start_episodes_at_def Let_def split: prod.splits)
  note ps = shape_positions [OF sh lt]
  have steps: "lane_steps rt ! q = (if q \<in> set ?ps then 0 else lane_steps (dr_route d) ! q)" if "q < length (ro_slots (dr_route d))" for q
    using steps_start [OF ps(2), of q "(dr_route d)\<lparr>ro_records := reg\<rparr>"] that by (simp add: rt counters)
  have g3: "dr_groups d3 = (dr_groups d)[gid := ?g\<lparr>g_pending_start := None\<rparr>]" by (simp add: d3_def d2_def)
  have "length (ro_slots rt) = length (ro_slots (dr_route d))"
    using shape_starts(1) [OF se] map_eq_imp_length_eq by (fastforce simp: route_shape_def)
  then have og: "only_group gid d d3"
    using lt steps by (auto simp: only_group_def g3 calls) (simp_all add: d3_def d2_def calls set_route_def)
  have "hd ?ps \<in> set ?ps" using ps(3) by simp
  then have k: "first_lane_steps gid d3 = 0"
    using steps [OF ps(4)] lt by (simp add: first_lane_steps_def g3) (simp add: d3_def set_route_def)
  have "hist_strict c ?g ss" using ok by (auto simp: hist_ok_def hist_strict_def order.strict_iff_order)
  then have "hist_strict c (dr_groups d3 ! gid) ss" using lt by (simp add: g3 hist_strict_def queued_def wanted_def)
  moreover have "hist_full c (dr_groups d3 ! gid) ss 0" by (simp add: hist_full_def)
  moreover have "gid < length (dr_groups d3)" using lt by (simp add: g3)
  ultimately have o: "hist_ok c (dr_groups d' ! gid) ss 0" "only_group gid d3 d'" "lane_steps (dr_route d') = lane_steps (dr_route d3)"
    using observe_hist [OF dh _ _ _ obs] by auto
  then show ?thesis using only_group_steps [OF o(2,3)] k og only_group_trans by metis
qed

section \<open>The moves of the loop\<close>

lemma hist_ok_cong:
  assumes "ss' @ queued g' = ss @ queued g" "g_steps g' = g_steps g" "g_obs_msg g' = g_obs_msg g"
    "g_pending_roll g' = g_pending_roll g"
    "g_phase g' = g_phase g \<or> (g_phase g = Ready \<or> g_phase g = Stepping) \<and> (g_phase g' = Stepping \<or> g_phase g' = Ready)"
  shows "hist_ok c g ss k \<Longrightarrow> hist_ok c g' ss' k"
  using assms by (auto simp: hist_ok_def)

lemma hist_dispatch_step:
  assumes dh: "cf_deliver_history c" and inv: "hist_inv c d" and sh: "shape_ok c d" and lt: "gid < length (dr_groups d)"
    and run: "dispatch_step c i gid d = (d', None)"
  shows "hist_inv c d'"
proof -
  let ?g = "dr_groups d ! gid"
  have ok: "hist_ok c ?g (sent gid d) (first_lane_steps gid d)" using inv lt by (simp add: hist_inv_def)
  have rf: "queued (refill ?g) = queued ?g" "g_steps (refill ?g) = g_steps ?g" "g_obs_msg (refill ?g) = g_obs_msg ?g"
    "g_pending_roll (refill ?g) = g_pending_roll ?g" "g_positions (refill ?g) = g_positions ?g" "g_phase (refill ?g) = g_phase ?g"
    by (auto simp: refill_def queued_def wanted_def split: list.splits predict_state.splits)
  consider "d' = d" | "g_phase ?g = Ready" "d' = set_group gid (refill ?g) d"
    | a rest g2 d2 where "g_phase ?g = Ready" "prefetch c gid ((refill ?g)\<lparr>g_replay := rest\<rparr>) d = (g2, d2)"
        "send_step c i gid g2 a d2 = (d', None)"
    using run lt by (auto simp: dispatch_step_refill split: if_splits list.splits prod.splits)
  then obtain g' where g: "dr_groups d' = (dr_groups d)[gid := g']" and rt: "lane_steps (dr_route d') = lane_steps (dr_route d)"
    and pos: "g_positions g' = g_positions ?g" and ok': "hist_ok c g' (sent gid d) (first_lane_steps gid d)"
  proof cases
    case 1
    then show thesis using that [of ?g] ok by simp
  next
    case 2
    then show thesis using that [of "refill ?g"] hist_ok_cong [OF _ rf(2-4), of "sent gid d" "sent gid d"] rf ok by simp
  next
    case (3 a rest g2 d2)
    let ?g1 = "(refill ?g)\<lparr>g_replay := rest\<rparr>"
    have obs: "\<forall>m. g_obs_msg ?g1 = Some m \<longrightarrow> pq_step m \<noteq> None" using ok by (simp add: hist_ok_def rf)
    have q1: "queued ?g1 = queued ?g" using rf(1) by (simp add: queued_def wanted_def)
    note p = prefetch_steps [OF dh obs 3(2)] and pg = prefetch_group [OF 3(2)]
    have d': "dr_groups d' = (dr_groups d)[gid := g2\<lparr>g_env := False, g_phase := Stepping\<rparr>]"
      using send_step_effect [OF 3(3)] pg(1) by (metis list_update_overwrite)
    have "dr_route d' = dr_route d" using 3(3) prefetch_lane [OF 3(2)]
      by (auto simp: send_step_def Let_def same_core_def dest!: transform_action_frame split: prod.splits sum.splits if_splits)
    then have rt: "lane_steps (dr_route d') = lane_steps (dr_route d)" by simp
    have "hist_ok c (g2\<lparr>g_env := False, g_phase := Stepping\<rparr>) (sent gid d) (first_lane_steps gid d)"
      by (rule hist_ok_cong [OF _ _ _ _ _ ok]) (use p q1 rf 3(1) in \<open>simp_all add: queued_def wanted_def\<close>)
    then show thesis using that [OF d' rt] p rf by simp
  qed
  have og: "only_group gid d d'" by (rule only_groupI [OF lt calls_dispatch_step [OF run] g pos rt])
  have g': "dr_groups d' ! gid = g'" unfolding g using lt by (rule nth_list_update_eq)
  have "sent gid d' = sent gid d" by (simp add: sent_calls calls_dispatch_step [OF run])
  then have "hist_ok c (dr_groups d' ! gid) (sent gid d') (first_lane_steps gid d')"
    using ok' only_group_steps [OF og rt] unfolding g' by simp
  then show ?thesis by (rule hist_inv_group [OF inv sh og])
qed

definition reqs_steps :: "nat \<Rightarrow> (nat \<times> predict_request \<times> nat) list \<Rightarrow> int list" where
  "reqs_steps k reqs = concat (map (\<lambda>(gid, m, _). if gid = k then req_steps m else []) reqs)"

lemma gather_steps:
  "gather c gids st acc d = (Inr (st', reqs), d') \<Longrightarrow> \<exists>new. reqs = acc @ new \<and> lane_steps (dr_route d') = lane_steps (dr_route d) \<and>
     length (dr_groups d') = length (dr_groups d) \<and> (\<forall>k < length (dr_groups d).
       queued (dr_groups d ! k) = reqs_steps k new @ queued (dr_groups d' ! k) \<and>
       (\<exists>p. dr_groups d' ! k = (dr_groups d ! k)\<lparr>g_predict := p\<rparr>))"
proof (induction c gids st acc d arbitrary: reqs rule: gather.induct)
  case (1 c step acc d)
  have "\<exists>p. g = g\<lparr>g_predict := p\<rparr>" for g :: group by (rule exI [of _ "g_predict g"]) simp
  then show ?case using 1 by (auto simp: reqs_steps_def)
next
  case (2 c gid rest st acc d)
  from 2(2) obtain g msg where g: "nth_opt (dr_groups d) gid = Some g" "g_predict g = PWanted msg"
    by (auto split: option.splits predict_state.splits)
  let ?d1 = "set_route (mark_predicted (g_positions g) (dr_route d)) (set_group gid (g\<lparr>g_predict := PInFlight False\<rparr>) d)"
  let ?st = "max st (sp_step (snapshot_at (g_positions g) (dr_route d)))" and ?rq = "(gid, msg, cf_len_predict_request c msg)"
  have lt: "gid < length (dr_groups d)" "dr_groups d ! gid = g" using g(1) by (auto simp: nth_opt_eq split: if_splits)
  have "gather c rest ?st (acc @ [?rq]) ?d1 = (Inr (st', reqs), d')" using 2(2) g by (simp add: Let_def)
  from 2(1) [OF g refl this] obtain new where new: "reqs = (acc @ [?rq]) @ new" "lane_steps (dr_route d') = lane_steps (dr_route ?d1)"
    "length (dr_groups d') = length (dr_groups d)"
    "\<And>k. k < length (dr_groups d) \<Longrightarrow> queued (dr_groups ?d1 ! k) = reqs_steps k new @ queued (dr_groups d' ! k) \<and>
       (\<exists>p. dr_groups d' ! k = (dr_groups ?d1 ! k)\<lparr>g_predict := p\<rparr>)"
    by auto
  have "queued (dr_groups d ! k) = reqs_steps k (?rq # new) @ queued (dr_groups d' ! k) \<and>
       (\<exists>p. dr_groups d' ! k = (dr_groups d ! k)\<lparr>g_predict := p\<rparr>)" if "k < length (dr_groups d)" for k
    using new(4) [OF that] g(2) lt by (cases "k = gid") (auto simp: reqs_steps_def queued_def wanted_def)
  moreover have "lane_steps (dr_route d') = lane_steps (dr_route d)" using new(2) by (simp add: counters set_route_def)
  ultimately show ?case using new(1,3) by (intro exI [of _ "?rq # new"]) simp
qed

lemma hist_predict_for:
  assumes inv: "hist_inv c d" and run: "predict_for c gids d = (d', None)"
  shows "hist_inv c d'"
proof -
  from run obtain st reqs d1 where ga: "gather c gids 0 [] d = (Inr (st, reqs), d1)"
    and mc: "model_calls d' = model_calls d @ [CallPredict (map (\<lambda>(gid, msg, _). (gid, msg)) reqs)]"
    by (rule calls_predict_for)
  have d': "dr_groups d' = dr_groups d1" "dr_route d' = dr_route d1"
    using run ga by (auto simp: predict_for_def)
  note s = gather_steps [OF ga]
  have "call_steps k (CallPredict (map (\<lambda>(gid, msg, _). (gid, msg)) reqs)) = reqs_steps k reqs" for k
    by (induction reqs) (auto simp: call_steps_def reqs_steps_def)
  then have sent: "sent k d' = sent k d @ reqs_steps k reqs" for k by (simp add: sent_calls mc)
  have "hist_ok c (dr_groups d' ! k) (sent k d') (first_lane_steps k d')" if k: "k < length (dr_groups d')" for k
  proof -
    have k': "k < length (dr_groups d)" using k s d' by simp
    then obtain p where p: "dr_groups d1 ! k = (dr_groups d ! k)\<lparr>g_predict := p\<rparr>"
      "queued (dr_groups d ! k) = reqs_steps k reqs @ queued (dr_groups d1 ! k)" using s by auto
    have "first_lane_steps k d' = first_lane_steps k d" using s p by (simp add: first_lane_steps_def d')
    moreover have "hist_ok c (dr_groups d ! k) (sent k d) (first_lane_steps k d)" using inv k' by (simp add: hist_inv_def)
    ultimately show ?thesis
      using hist_ok_cong [of "sent k d'" "dr_groups d' ! k" "sent k d" "dr_groups d ! k" c] p d' sent by simp
  qed
  then show ?thesis by (simp add: hist_inv_def)
qed

lemma hist_apply_prediction:
  assumes dh: "cf_deliver_history c" and inv: "hist_inv c d" and sh: "shape_ok c d"
    and run: "apply_prediction c n rpc x d = (d', None)"
  shows "hist_inv c d'"
proof -
  obtain first gid msg bytes res where x: "x = (first, (gid, msg, bytes), res)" by (cases x) auto
  let ?g = "(dr_groups d ! gid)\<lparr>g_pending_predict := g_pending_predict (dr_groups d ! gid) + rpc\<rparr>"
  from apply_prediction_effect [OF run [unfolded x]] obtain frames agg0 g' agg where lt: "gid < length (dr_groups d)"
    and land: "land_predict c ?g frames agg0 = (g', agg)"
    and g: "dr_groups d' = (dr_groups d)[gid := g']" and rt: "dr_route d' = dr_route d" by metis
  have ok: "hist_ok c (dr_groups d ! gid) (sent gid d) (first_lane_steps gid d)" using inv lt by (simp add: hist_inv_def)
  then have "\<forall>m. g_obs_msg ?g = Some m \<longrightarrow> pq_step m \<noteq> None" by (simp add: hist_ok_def)
  note l = land_predict_steps [OF dh this land]
  have og: "only_group gid d d'" by (rule only_groupI [OF lt calls_apply_prediction [OF run] g]) (use l rt in simp_all)
  have g': "dr_groups d' ! gid = g'" unfolding g using lt by (rule nth_list_update_eq)
  have "sent gid d' = sent gid d" by (simp add: sent_calls calls_apply_prediction [OF run])
  moreover have "first_lane_steps gid d' = first_lane_steps gid d" by (rule only_group_steps [OF og]) (simp add: rt)
  moreover have "hist_ok c g' (sent gid d) (first_lane_steps gid d)"
    by (rule hist_ok_cong [OF _ _ _ _ _ ok]) (use l in \<open>simp_all add: queued_def wanted_def\<close>)
  ultimately have "hist_ok c (dr_groups d' ! gid) (sent gid d') (first_lane_steps gid d')" unfolding g' by simp
  then show ?thesis by (rule hist_inv_group [OF inv sh og])
qed

lemma hist_on_predict_outcome:
  assumes dh: "cf_deliver_history c" and inv: "hist_inv c d" "shape_ok c d"
    and run: "on_predict_outcome c reqs rpc res d = (d', None)"
  shows "hist_inv c d'"
proof -
  from run obtain items where "for_each (apply_prediction c (length reqs) rpc) items d = (d', None)"
    by (auto simp: on_predict_outcome_def split: sum.splits if_splits)
  then have "hist_inv c d' \<and> shape_ok c d'"
    by (rule for_each_ok [where P = "\<lambda>d. hist_inv c d \<and> shape_ok c d"])
      (use inv hist_apply_prediction [OF dh] shape_ok_cong [OF shape_apply_prediction] in blast)+
  then show ?thesis by simp
qed

lemma hist_env_wake:
  assumes dh: "cf_deliver_history c" and base: "base_ok c d" and inv: "hist_inv c d" and k: "k < length (dr_env_ops d)"
    and fits: "result_fits (dr_env_ops d ! k) result"
    and run: "on_env_outcome c i (dr_env_ops d ! k) rpc result (d\<lparr>dr_env_ops := remove_nth k (dr_env_ops d)\<rparr>) = (d', None)"
  shows "hist_inv c d'"
proof -
  define op where "op = dr_env_ops d ! k"
  define gid where "gid = eo_gid op"
  define d1 where "d1 = set_group gid ((dr_groups d ! gid)\<lparr>g_env := True\<rparr>) (d\<lparr>dr_env_ops := remove_nth k (dr_env_ops d)\<rparr>)"
  have ok: "drv_ok c d" and sh: "shape_ok c d" using base by (simp_all add: base_ok_def)
  have lt: "gid < length (dr_groups d)" using drv_okD(3) [OF ok, of gid] k by (simp add: gid_def op_def)
  have "group_ok c (dr_groups d ! gid) (Some (is_reset_op op)) (gid \<in> set (flying (dr_predicts d)))"
    using drv_okD(5) [OF ok lt] env_kind_remove(2) [OF k drv_okD(1) [OF ok]] by (simp add: gid_def op_def)
  then have ph: "g_phase (dr_groups d ! gid) = (if is_reset_op op then Resetting else Stepping)"
    by (auto simp: group_ok_def phase_op_def split: env_phase.splits)
  have g1: "dr_groups (on_agg f d1) = (dr_groups d)[gid := (dr_groups d ! gid)\<lparr>g_env := True\<rparr>]" for f by (simp add: d1_def)
  have og1: "only_group gid d (on_agg f d1)" for f by (rule only_groupI [OF lt _ g1]) (simp_all add: d1_def calls)
  have sh1: "shape_ok c (on_agg f d1)" for f
  proof -
    have "drv_shape (on_agg f d1) = drv_shape d" by (rule drv_shape_group [OF g1]) (simp_all add: lane_of_def d1_def)
    then show ?thesis using sh by (simp add: shape_ok_def)
  qed
  have g1': "dr_groups (on_agg f d1) ! gid = (dr_groups d ! gid)\<lparr>g_env := True\<rparr>" for f
    unfolding g1 using lt by (rule nth_list_update_eq)
  have s1: "sent gid (on_agg f d1) = sent gid d" for f by (simp add: sent_calls calls d1_def)
  have k1: "first_lane_steps gid (on_agg f d1) = first_lane_steps gid d" for f by (rule only_group_steps [OF og1]) (simp add: d1_def)
  have "hist_ok c (dr_groups d ! gid) (sent gid d) (first_lane_steps gid d)" using inv lt by (simp add: hist_inv_def)
  then have ok1: "hist_ok c (dr_groups (on_agg f d1) ! gid) (sent gid d) (first_lane_steps gid (on_agg f d1))" for f
    unfolding k1 g1' by (rule hist_ok_cong [rotated -1]) (simp_all add: queued_def wanted_def)
  have ph1: "g_phase (dr_groups (on_agg f d1) ! gid) = (if is_reset_op op then Resetting else Stepping)" for f unfolding g1' by (simp add: ph)
  have lt1: "gid < length (dr_groups (on_agg f d1))" for f unfolding g1 using lt by simp
  have "(\<exists>initial resp f. is_reset_op op \<and> on_reset c i gid initial resp rpc (on_agg f d1) = (d', None)) \<or>
      (\<exists>resp f. \<not> is_reset_op op \<and> on_step c i gid resp rpc (on_agg f d1) = (d', None))"
    using run fits lt
    by (auto simp: on_env_outcome_def result_fits_def nth_opt_eq Let_def op_def [symmetric] gid_def [symmetric]
        d1_def [symmetric] is_reset_op_def split: env_op_kind.splits env_result.splits sum.splits)
  then obtain f where out: "hist_ok c (dr_groups d' ! gid) (sent gid d) (first_lane_steps gid d') \<and> only_group gid (on_agg f d1) d'"
    using on_reset_hist [OF dh sh1 lt1 ok1] on_step_hist [OF dh sh1 lt1 ok1] ph1 by metis
  then have "only_group gid d d'" using og1 only_group_trans by blast
  moreover from this have "sent gid d' = sent gid d" by (simp add: only_group_def sent_calls)
  ultimately show ?thesis using hist_inv_group [OF inv sh] out by simp
qed

text \<open>After start-up every group waits for its first reset, or is idle, with nothing seen.\<close>

definition unseen :: "cfg \<Rightarrow> group \<Rightarrow> bool" where
  "unseen c g \<longleftrightarrow> hist_strict c g [] \<and> g_replay g = [] \<and> g_predict g = PNone \<and> g_phase g \<noteq> Stepping"

lemma begin_reset_unseen:
  assumes all: "\<forall>g \<in> set (dr_groups d). unseen c g" and lt: "gid < length (dr_groups d)"
    and run: "begin_reset c gid True d = (d', None)"
  shows "\<forall>g \<in> set (dr_groups d'). unseen c g"
proof -
  have u: "unseen c (dr_groups d ! gid)" using all lt by simp
  have "\<exists>g. dr_groups d' = (dr_groups d)[gid := g] \<and> unseen c g"
    using run lt
  proof (cases rule: begin_reset_cases)
    case (idle rt)
    then show ?thesis using u by (auto simp: unseen_def hist_strict_def queued_def wanted_def)
  next
    case (reset slots rt1 ids seeds trials g rt op)
    have "unseen c (g\<lparr>g_env := False, g_phase := Resetting\<rparr>)"
      using u stage_reset_group [OF reset(4)] by (simp add: unseen_def hist_strict_def queued_def wanted_def)
    then show ?thesis using reset(8) by blast
  qed
  then obtain g where g: "dr_groups d' = (dr_groups d)[gid := g]" "unseen c g" by blast
  then show ?thesis using all set_update_subset_insert [of "dr_groups d" gid g] by auto
qed

lemma hist_start_loop:
  assumes run: "start_loop c (drv_new c now) = (d, None)" and base: "base_ok c d"
  shows "hist_inv c d"
proof -
  have all: "\<forall>g \<in> set (dr_groups d). unseen c g"
    using run
  proof (rule start_loop_induct)
    fix dc :: drv
    show "\<forall>g \<in> set (dr_groups (dc\<lparr>dr_groups := driver_groups c\<rparr>)). unseen c g"
      by (auto simp: driver_groups_def group_new_def Let_def unseen_def hist_strict_def queued_def wanted_def)
  qed (rule begin_reset_unseen)
  have "hist_ok c (dr_groups d ! gid) [] k" if lt: "gid < length (dr_groups d)" for gid k
  proof -
    have u: "unseen c (dr_groups d ! gid)" using all lt by simp
    then have "g_phase (dr_groups d ! gid) \<noteq> Ready"
      using drv_okD(5) [of c d gid] base lt by (auto simp: base_ok_def group_ok_def unseen_def)
    then show ?thesis using u by (intro hist_ok_drop [of c "dr_groups d ! gid"]) (simp_all add: unseen_def)
  qed
  then show ?thesis by (simp add: hist_inv_def sent_calls calls_start_loop [OF run])
qed

interpretation hist: loop_invariant c "\<lambda>_ _. True" "\<lambda>d. cf_deliver_history c \<longrightarrow> hist_inv c d" for c
proof unfold_locales
  fix d out assume I: "cf_deliver_history c \<longrightarrow> hist_inv c d"
  have "sent gid (flush_evictions out d) = sent gid d" for gid
    by (simp add: sent_calls calls_flush_evictions call_steps_def)
  moreover have "lane_steps (dr_route (flush_evictions out d)) = lane_steps (dr_route d)"
    by (auto simp: flush_evictions_def Let_def dest: steps_requests(2) split: prod.splits evict_outcome.splits)
  ultimately show "cf_deliver_history c \<longrightarrow> hist_inv c (flush_evictions out d)"
    using I by (simp add: hist_inv_def first_lane_steps_def)
next
  fix d d' k rpc presult
  assume base: "base_ok c d" and I: "cf_deliver_history c \<longrightarrow> hist_inv c d"
    and run: "on_predict_outcome c (po_requests (dr_predicts d ! k)) rpc presult
       (d\<lparr>dr_predicts := remove_nth k (dr_predicts d)\<rparr>) = (d', None)"
  let ?d = "d\<lparr>dr_predicts := remove_nth k (dr_predicts d)\<rparr>"
  have "hist_inv c d \<Longrightarrow> hist_inv c ?d" by (simp add: hist_inv_def first_lane_steps_def sent_calls calls)
  moreover have "shape_ok c ?d" using base by (simp add: base_ok_def shape_ok_def drv_shape_def)
  ultimately show "cf_deliver_history c \<longrightarrow> hist_inv c d'" using I hist_on_predict_outcome [OF _ _ _ run] by blast
qed (auto simp: base_ok_def intro: hist_start_loop hist_dispatch_step hist_predict_for hist_env_wake)

section \<open>Every step once, in order\<close>

text \<open>
  C4. On a history route each group hands every step to the model at most once and in order: the
  steps of its predict calls, then of its wanted request, then of its backlog, are strictly
  increasing and none is ahead of the group's counter. Where the driver owns the resets none is
  missing either: for a group that is not between episodes, every step of the running episode of its
  first lane (its last \<open>sl_step\<close> steps and the observation it started from) is among them.
\<close>

theorem history_exactly_once:
  assumes "reach c d" "cf_deliver_history c" "gid < length (dr_groups d)"
  shows "sorted_wrt (<) (sent gid d @ queued (dr_groups d ! gid)) \<and>
    (\<forall>s \<in> set (sent gid d @ queued (dr_groups d ! gid)). s \<le> g_steps (dr_groups d ! gid)) \<and>
    (driver_owns_resets c \<and> g_phase (dr_groups d ! gid) \<in> {Ready, Stepping} \<longrightarrow>
       {g_steps (dr_groups d ! gid) - sl_step (ro_slots (dr_route d) ! hd (g_positions (dr_groups d ! gid)))
         ..g_steps (dr_groups d ! gid)} \<subseteq> set (sent gid d @ queued (dr_groups d ! gid)))"
proof -
  have base: "base_ok c d" and "hist_inv c d" using hist.reach_inv [OF assms(1)] assms(2) by simp_all
  then have ok: "hist_ok c (dr_groups d ! gid) (sent gid d) (first_lane_steps gid d)" using assms(3) by (simp add: hist_inv_def)
  have "hd (g_positions (dr_groups d ! gid)) < length (ro_slots (dr_route d))"
    using shape_positions(3,4) [of c d gid] base assms(3) by (simp add: base_ok_def)
  then have "first_lane_steps gid d = sl_step (ro_slots (dr_route d) ! hd (g_positions (dr_groups d ! gid)))"
    by (simp add: first_lane_steps_def lane_steps_def)
  then show ?thesis using ok by (auto simp: hist_ok_def)
qed

abbreviation history_cfg :: cfg where
  "history_cfg \<equiv> next_step_cfg\<lparr>cf_deliver_history := True\<rparr>"

lemma history_cfg_reach: "\<exists>d. reach history_cfg d \<and> 0 < length (dr_groups d)"
proof -
  have "\<not> driver_owns_resets history_cfg" "driver_ceiling history_cfg EnvToModel = None"
    using next_step_owner by (simp_all add: driver_owns_resets_def driver_autoreset_mode_def driver_ceiling_def
        sample_cfg_def sample_defs)
  then obtain d where d: "start_loop history_cfg (drv_new history_cfg (\<lambda>_. 0)) = (d, None)"
    using start_loop_next_step by blast
  have "length (dr_groups d) = length (driver_groups history_cfg)"
    using shape_ok_start [OF d] map_eq_imp_length_eq by (fastforce simp: shape_ok_def drv_shape_def)
  moreover have "0 < length (driver_groups history_cfg)"
    by (simp add: driver_groups_def lane_partitions_def Let_def)
  ultimately have "reach history_cfg d \<and> 0 < length (dr_groups d)" using reach_start [OF d] by metis
  then show ?thesis by blast
qed

theorem history_exactly_once_witness:
  "\<exists>d. reach history_cfg d \<and> 0 < length (dr_groups d) \<and> sorted_wrt (<) (sent 0 d @ queued (dr_groups d ! 0))"
proof -
  obtain d where d: "reach history_cfg d" "0 < length (dr_groups d)" using history_cfg_reach by blast
  then show ?thesis using history_exactly_once [OF d(1) _ d(2)] by (intro exI [of _ d]) simp
qed

end
