(* ===== verification/Tensors.thy ===== *)
theory Tensors
  imports DTypes
begin

text \<open>
  Tensors (\<^verbatim>\<open>crates/rlmesh-spaces/src/tensor.rs\<close>): n-dimensional views of a shared,
  immutable byte storage. A view is a shape, element-unit strides (\<open>None\<close>: C-contiguous) and a byte
  offset.

  \<open>usize\<close> is 64 bits wide. The workspace's overflow checks make the unchecked products of the
  accessors panic; a function that may panic returns \<open>None\<close> for it, and a \<open>Result\<close> is the sum type
  below that. The storage is its bytes: alignment and reference counts are not observable here.
\<close>

section \<open>Errors and integer operations\<close>

datatype tensor_error =
    TUnspecifiedDtype
  | NegativeDim int
  | NegativeStride int
  | StrideRankMismatch nat nat
  | TByteLengthMismatch nat nat
  | OutOfBounds nat nat nat
  | NumelMismatch nat nat
  | AmbiguousReshape
  | EmptyStack
  | StackMismatch nat
  | UnstackScalar
  | TOverflow

text \<open>\<open>usize::checked_mul\<close>, \<open>usize::checked_add\<close>, and \<open>*\<close> on \<open>i64\<close>, whose overflow panics.\<close>

definition checked_mul :: "nat \<Rightarrow> nat \<Rightarrow> nat option" where
  "checked_mul a b = (if a * b \<le> u64_max then Some (a * b) else None)"

definition checked_add :: "nat \<Rightarrow> nat \<Rightarrow> nat option" where
  "checked_add a b = (if a + b \<le> u64_max then Some (a + b) else None)"

definition i64_mul :: "int \<Rightarrow> int \<Rightarrow> int option" where
  "i64_mul a b = (if i64_min \<le> a * b \<and> a * b \<le> i64_max then Some (a * b) else None)"

section \<open>Storage\<close>

text \<open>
  \<open>Storage\<close> (\<^verbatim>\<open>tensor/storage.rs\<close>): a buffer the crate allocates over-allocates by 63 bytes and starts the payload at
  the first 64-byte boundary past the address \<open>addr\<close> the allocator returned; \<open>as_slice\<close> skips that
  padding. A capacity past \<open>isize::MAX\<close> panics.
\<close>

record aligned_bytes =
  ab_buf :: bytes
  ab_offset :: nat
  ab_len :: nat

definition with_aligned_offset :: "nat \<Rightarrow> nat \<Rightarrow> aligned_bytes option" where
  "with_aligned_offset addr len =
     (if 2 ^ 63 \<le> len + 64 - 1 then None
      else let offset = (64 - addr mod 64) mod 64 in
        Some \<lparr>ab_buf = replicate offset 0, ab_offset = offset, ab_len = len\<rparr>)"

definition ab_as_slice :: "aligned_bytes \<Rightarrow> bytes option" where
  "ab_as_slice b = (if ab_offset b + ab_len b \<le> length (ab_buf b)
     then Some (take (ab_len b) (drop (ab_offset b) (ab_buf b))) else None)"

text \<open>\<open>Storage::aligned_with\<close>, read back through \<open>as_slice\<close>; \<open>fill\<close> is what the closure appends.\<close>

definition aligned_with :: "nat \<Rightarrow> nat \<Rightarrow> bytes \<Rightarrow> bytes option" where
  "aligned_with addr len fill =
     (case with_aligned_offset addr len of None \<Rightarrow> None
      | Some b \<Rightarrow> ab_as_slice (b\<lparr>ab_buf := ab_buf b @ fill\<rparr>))"

section \<open>Views\<close>

record tensor =
  t_storage :: bytes
  t_dtype :: dtype
  t_shape :: "int list"
  t_strides :: "int list option"
  t_byte_offset :: nat

fun checked_numel_from :: "nat \<Rightarrow> int list \<Rightarrow> tensor_error + nat" where
  "checked_numel_from numel [] = Inr numel"
| "checked_numel_from numel (d # ds) =
     (if d < 0 then Inl (NegativeDim d)
      else bind_res (ok_or (checked_mul numel (nat d)) TOverflow) (\<lambda>n. checked_numel_from n ds))"

definition checked_numel :: "int list \<Rightarrow> tensor_error + nat" where
  "checked_numel shape = checked_numel_from 1 shape"

definition checked_nbytes :: "int list \<Rightarrow> dtype \<Rightarrow> tensor_error + nat" where
  "checked_nbytes shape dt =
     (if dt = DUnspecified then Inl TUnspecifiedDtype
      else bind_res (checked_numel shape) (\<lambda>n. ok_or (checked_mul n (dtype_size dt)) TOverflow))"

fun last_element_from :: "nat \<Rightarrow> (int \<times> int) list \<Rightarrow> tensor_error + nat" where
  "last_element_from acc [] = Inr acc"
| "last_element_from acc ((d, s) # r) =
     bind_res (ok_or (checked_mul (nat d - 1) (nat s)) TOverflow) (\<lambda>span.
     bind_res (ok_or (checked_add acc span) TOverflow) (\<lambda>acc'. last_element_from acc' r))"

definition required_bytes :: "int list \<Rightarrow> int list option \<Rightarrow> dtype \<Rightarrow> tensor_error + nat" where
  "required_bytes shape strides dt =
     bind_res (checked_numel shape) (\<lambda>numel.
       if numel = 0 then Inr 0
       else case strides of
         None \<Rightarrow> ok_or (checked_mul numel (dtype_size dt)) TOverflow
       | Some ss \<Rightarrow> bind_res (last_element_from 0 (zip shape ss)) (\<lambda>last.
           bind_res (ok_or (checked_add last 1) TOverflow) (\<lambda>n.
             ok_or (checked_mul n (dtype_size dt)) TOverflow)))"

definition stride_fault :: "int list \<Rightarrow> int list option \<Rightarrow> tensor_error option" where
  "stride_fault shape strides =
     (case strides of None \<Rightarrow> None
      | Some ss \<Rightarrow> if length ss \<noteq> length shape then Some (StrideRankMismatch (length ss) (length shape))
          else map_option NegativeStride (find (\<lambda>s. s < 0) ss))"

definition from_storage ::
    "bytes \<Rightarrow> dtype \<Rightarrow> int list \<Rightarrow> int list option \<Rightarrow> nat \<Rightarrow> tensor_error + tensor" where
  "from_storage storage dt shape strides byte_offset =
     (if dt = DUnspecified then Inl TUnspecifiedDtype
      else case stride_fault shape strides of
        Some e \<Rightarrow> Inl e
      | None \<Rightarrow> bind_res (required_bytes shape strides dt) (\<lambda>required.
          if length storage < byte_offset \<or> length storage - byte_offset < required
          then Inl (OutOfBounds required byte_offset (length storage))
          else Inr \<lparr>t_storage = storage, t_dtype = dt, t_shape = shape, t_strides = strides,
                    t_byte_offset = byte_offset\<rparr>))"

definition from_vec :: "bytes \<Rightarrow> int list \<Rightarrow> dtype \<Rightarrow> tensor_error + tensor" where
  "from_vec data shape dt =
     bind_res (checked_nbytes shape dt) (\<lambda>expected.
       if length data \<noteq> expected then Inl (TByteLengthMismatch expected (length data))
       else from_storage data dt shape None 0)"

definition tensor_from_slice :: "nat \<Rightarrow> bytes \<Rightarrow> int list \<Rightarrow> dtype \<Rightarrow> (tensor_error + tensor) option" where
  "tensor_from_slice addr data shape dt =
     (case checked_nbytes shape dt of Inl e \<Rightarrow> Some (Inl e)
      | Inr expected \<Rightarrow>
          if length data \<noteq> expected then Some (Inl (TByteLengthMismatch expected (length data)))
          else map_option (\<lambda>storage. from_storage storage dt shape None 0)
                 (aligned_with addr (length data) data))"

definition zeros :: "nat \<Rightarrow> int list \<Rightarrow> dtype \<Rightarrow> (tensor_error + tensor) option" where
  "zeros addr shape dt =
     (case checked_nbytes shape dt of Inl e \<Rightarrow> Some (Inl e)
      | Inr nbytes \<Rightarrow> map_option (\<lambda>storage. from_storage storage dt shape None 0)
                        (aligned_with addr nbytes (replicate nbytes 0)))"

section \<open>Accessors\<close>

text \<open>\<open>contiguous_strides\<close> fills from the last axis; the running stride is multiplied once per axis.\<close>

fun strides_from_last :: "int list \<Rightarrow> (int list \<times> int) option" where
  "strides_from_last [] = Some ([], 1)"
| "strides_from_last (d # ds) =
     (case strides_from_last ds of None \<Rightarrow> None
      | Some (ss, stride) \<Rightarrow> map_option (\<lambda>stride'. (stride # ss, stride')) (i64_mul stride d))"

definition contiguous_strides :: "int list \<Rightarrow> int list option" where
  "contiguous_strides shape = map_option fst (strides_from_last shape)"

definition effective_strides :: "tensor \<Rightarrow> int list option" where
  "effective_strides t =
     (case t_strides t of Some ss \<Rightarrow> Some ss | None \<Rightarrow> contiguous_strides (t_shape t))"

fun usize_product :: "nat \<Rightarrow> nat list \<Rightarrow> nat option" where
  "usize_product acc [] = Some acc"
| "usize_product acc (d # ds) =
     (case checked_mul acc d of None \<Rightarrow> None | Some acc' \<Rightarrow> usize_product acc' ds)"

definition tensor_numel :: "tensor \<Rightarrow> nat option" where
  "tensor_numel t = usize_product 1 (map nat (t_shape t))"

definition tensor_nbytes :: "tensor \<Rightarrow> nat option" where
  "tensor_nbytes t =
     (case tensor_numel t of None \<Rightarrow> None | Some n \<Rightarrow> checked_mul n (dtype_size (t_dtype t)))"

fun contiguous_from :: "int \<Rightarrow> (int \<times> int) list \<Rightarrow> bool option" where
  "contiguous_from expected [] = Some True"
| "contiguous_from expected ((dim, stride) # r) =
     (if dim = 0 then Some True
      else if dim \<noteq> 1 then
        if stride \<noteq> expected then Some False
        else case i64_mul expected dim of None \<Rightarrow> None | Some e \<Rightarrow> contiguous_from e r
      else contiguous_from expected r)"

definition is_contiguous :: "tensor \<Rightarrow> bool option" where
  "is_contiguous t =
     (case t_strides t of None \<Rightarrow> Some True
      | Some ss \<Rightarrow> contiguous_from 1 (rev (zip (t_shape t) ss)))"

text \<open>\<open>gather_into\<close>: an odometer over the axes, the last one fastest.\<close>

fun bump_from_last :: "nat list \<Rightarrow> int list \<Rightarrow> nat list" where
  "bump_from_last (i # is) (d # ds) =
     (if int (i + 1) < d then (i + 1) # is else 0 # bump_from_last is ds)"
| "bump_from_last is ds = is"

definition bump :: "int list \<Rightarrow> nat list \<Rightarrow> nat list" where
  "bump shape index = rev (bump_from_last (rev index) (rev shape))"

definition element_at :: "nat list \<Rightarrow> int list \<Rightarrow> nat" where
  "element_at index strides = sum_list (map2 (\<lambda>i s. i * nat s) index strides)"

definition slice_at :: "bytes \<Rightarrow> nat \<Rightarrow> nat \<Rightarrow> bytes option" where
  "slice_at data start len =
     (if start + len \<le> length data then Some (take len (drop start data)) else None)"

fun gather_loop :: "nat \<Rightarrow> int list \<Rightarrow> int list \<Rightarrow> nat \<Rightarrow> bytes \<Rightarrow> nat list \<Rightarrow> bytes \<Rightarrow> bytes option" where
  "gather_loop itemsize shape strides 0 data index out = Some out"
| "gather_loop itemsize shape strides (Suc n) data index out =
     (case slice_at data (element_at index strides * itemsize) itemsize of
        None \<Rightarrow> None
      | Some e \<Rightarrow> gather_loop itemsize shape strides n data (bump shape index) (out @ e))"

definition gather_into :: "tensor \<Rightarrow> bytes \<Rightarrow> bytes option" where
  "gather_into t out =
     (case effective_strides t of None \<Rightarrow> None
      | Some ss \<Rightarrow> if length (t_storage t) < t_byte_offset t then None
          else case tensor_numel t of None \<Rightarrow> None
          | Some n \<Rightarrow> gather_loop (dtype_size (t_dtype t)) (t_shape t) ss n
              (drop (t_byte_offset t) (t_storage t)) (replicate (length (t_shape t)) 0) out)"

definition to_contiguous_bytes :: "tensor \<Rightarrow> bytes option" where
  "to_contiguous_bytes t =
     (case is_contiguous t of None \<Rightarrow> None
      | Some True \<Rightarrow> (case tensor_nbytes t of None \<Rightarrow> None
          | Some n \<Rightarrow> slice_at (t_storage t) (t_byte_offset t) n)
      | Some False \<Rightarrow> (case tensor_nbytes t of None \<Rightarrow> None
          | Some n \<Rightarrow> if 2 ^ 63 \<le> n then None else gather_into t []))"

definition tensor_eq :: "tensor \<Rightarrow> tensor \<Rightarrow> bool option" where
  "tensor_eq a b =
     (if t_dtype a = t_dtype b \<and> t_shape a = t_shape b
      then case to_contiguous_bytes a of None \<Rightarrow> None
        | Some x \<Rightarrow> map_option (\<lambda>y. x = y) (to_contiguous_bytes b)
      else Some False)"

section \<open>Reshape, stack and unstack\<close>

fun known_from :: "nat \<Rightarrow> int list \<Rightarrow> tensor_error + nat" where
  "known_from known [] = Inr known"
| "known_from known (d # ds) =
     (if d < -1 then Inl (NegativeDim d)
      else if 0 \<le> d then bind_res (ok_or (checked_mul known (nat d)) TOverflow) (\<lambda>k. known_from k ds)
      else known_from known ds)"

definition resolve_reshape_dims :: "tensor \<Rightarrow> int list \<Rightarrow> (tensor_error + int list) option" where
  "resolve_reshape_dims t shape =
     (let wildcards = length (filter (\<lambda>d. d = -1) shape) in
      if 1 < wildcards then Some (Inl AmbiguousReshape)
      else if wildcards = 0 then Some (Inr shape)
      else case known_from 1 shape of Inl e \<Rightarrow> Some (Inl e)
        | Inr known \<Rightarrow> map_option (\<lambda>from.
            if known = 0 \<or> from mod known \<noteq> 0 then Inl (NumelMismatch from known)
            else Inr (map (\<lambda>d. if d = -1 then as_i64 (from div known) else d) shape))
            (tensor_numel t))"

definition reshape :: "nat \<Rightarrow> tensor \<Rightarrow> int list \<Rightarrow> (tensor_error + tensor) option" where
  "reshape addr t dims =
     (case resolve_reshape_dims t dims of None \<Rightarrow> None
      | Some (Inl e) \<Rightarrow> Some (Inl e)
      | Some (Inr shape) \<Rightarrow> (case checked_numel shape of Inl e \<Rightarrow> Some (Inl e)
        | Inr to \<Rightarrow> (case tensor_numel t of None \<Rightarrow> None
          | Some from \<Rightarrow>
              if from \<noteq> to then Some (Inl (NumelMismatch from to))
              else case is_contiguous t of None \<Rightarrow> None
                | Some True \<Rightarrow>
                    Some (from_storage (t_storage t) (t_dtype t) shape None (t_byte_offset t))
                | Some False \<Rightarrow> (case tensor_nbytes t of None \<Rightarrow> None
                    | Some n \<Rightarrow> (case gather_into t [] of None \<Rightarrow> None
                        | Some out \<Rightarrow> map_option (\<lambda>storage. from_storage storage (t_dtype t) shape None 0)
                            (aligned_with addr n out))))))"

fun append_all :: "tensor list \<Rightarrow> bytes \<Rightarrow> bytes option" where
  "append_all [] buf = Some buf"
| "append_all (t # ts) buf =
     (case to_contiguous_bytes t of None \<Rightarrow> None | Some b \<Rightarrow> append_all ts (buf @ b))"

definition stack :: "nat \<Rightarrow> tensor list \<Rightarrow> (tensor_error + tensor) option" where
  "stack addr ts =
     (case ts of [] \<Rightarrow> Some (Inl EmptyStack)
      | first # _ \<Rightarrow>
        (case position (\<lambda>t. t_dtype t \<noteq> t_dtype first \<or> t_shape t \<noteq> t_shape first) ts of
           Some index \<Rightarrow> Some (Inl (StackMismatch index))
         | None \<Rightarrow> (case tensor_nbytes first of None \<Rightarrow> None
           | Some n \<Rightarrow> (case checked_mul n (length ts) of None \<Rightarrow> Some (Inl TOverflow)
             | Some nb \<Rightarrow> (case append_all ts [] of None \<Rightarrow> None
               | Some buf \<Rightarrow> map_option (\<lambda>storage. from_storage storage (t_dtype first)
                   (as_i64 (length ts) # t_shape first) None 0) (aligned_with addr nb buf))))))"

fun collect_views :: "(tensor_error + tensor) option list \<Rightarrow> (tensor_error + tensor list) option" where
  "collect_views [] = Some (Inr [])"
| "collect_views (r # rs) =
     (case r of None \<Rightarrow> None
      | Some (Inl e) \<Rightarrow> Some (Inl e)
      | Some (Inr t) \<Rightarrow> (case collect_views rs of None \<Rightarrow> None
          | Some (Inl e) \<Rightarrow> Some (Inl e)
          | Some (Inr ts) \<Rightarrow> Some (Inr (t # ts))))"

definition unstack :: "tensor \<Rightarrow> (tensor_error + tensor list) option" where
  "unstack t =
     (case t_shape t of [] \<Rightarrow> Some (Inl UnstackScalar)
      | d # inner_shape \<Rightarrow> (case effective_strides t of None \<Rightarrow> None
        | Some ss \<Rightarrow> (case checked_mul (nat (hd ss)) (dtype_size (t_dtype t)) of None \<Rightarrow> None
          | Some outer_stride_bytes \<Rightarrow>
              collect_views (map (\<lambda>index.
                if t_byte_offset t + index * outer_stride_bytes \<le> u64_max
                then Some (from_storage (t_storage t) (t_dtype t) inner_shape
                  (map_option (\<lambda>_. tl ss) (t_strides t))
                  (t_byte_offset t + index * outer_stride_bytes))
                else None) [0..<nat d]))))"

section \<open>DLPack types\<close>

text \<open>\<open>DLDataType\<close> triples (\<^verbatim>\<open>tensor/dlpack.rs\<close>): codes 0 int, 1 uint, 2 float, 6 bool.\<close>

record dlpack_ty =
  dl_code :: nat
  dl_bits :: nat
  dl_lanes :: nat

definition dlpack_type :: "dtype \<Rightarrow> dlpack_ty option" where
  "dlpack_type dt =
     map_option (\<lambda>(code, bits). \<lparr>dl_code = code, dl_bits = bits, dl_lanes = 1\<rparr>)
       (case dt of DUnspecified \<Rightarrow> None
        | Bool \<Rightarrow> Some (6, 8)
        | Uint8 \<Rightarrow> Some (1, 8) | Uint16 \<Rightarrow> Some (1, 16) | Uint32 \<Rightarrow> Some (1, 32) | Uint64 \<Rightarrow> Some (1, 64)
        | Int8 \<Rightarrow> Some (0, 8) | Int16 \<Rightarrow> Some (0, 16) | Int32 \<Rightarrow> Some (0, 32) | Int64 \<Rightarrow> Some (0, 64)
        | Float16 \<Rightarrow> Some (2, 16) | Float32 \<Rightarrow> Some (2, 32) | Float64 \<Rightarrow> Some (2, 64))"

definition dtype_from_dlpack :: "dlpack_ty \<Rightarrow> dtype option" where
  "dtype_from_dlpack ty =
     (if dl_lanes ty \<noteq> 1 then None
      else let c = dl_code ty; b = dl_bits ty in
        if c = 6 \<and> b = 8 then Some Bool
        else if c = 1 \<and> b = 8 then Some Uint8 else if c = 1 \<and> b = 16 then Some Uint16
        else if c = 1 \<and> b = 32 then Some Uint32 else if c = 1 \<and> b = 64 then Some Uint64
        else if c = 0 \<and> b = 8 then Some Int8 else if c = 0 \<and> b = 16 then Some Int16
        else if c = 0 \<and> b = 32 then Some Int32 else if c = 0 \<and> b = 64 then Some Int64
        else if c = 2 \<and> b = 16 then Some Float16 else if c = 2 \<and> b = 32 then Some Float32
        else if c = 2 \<and> b = 64 then Some Float64 else None)"

lemma dlpack_round_trip: "dtype_from_dlpack ty = Some dt \<longleftrightarrow> dlpack_type dt = Some ty"
  by (cases ty; cases dt) (auto simp: dtype_from_dlpack_def dlpack_type_def Let_def)

section \<open>What a view denotes\<close>

text \<open>
  The element bytes of a view in C order, read off its strides axis by axis: the specification of
  \<open>to_contiguous_bytes\<close>.
\<close>

fun c_elems :: "nat \<Rightarrow> nat list \<Rightarrow> nat list \<Rightarrow> nat \<Rightarrow> bytes \<Rightarrow> bytes" where
  "c_elems itemsize (d # ds) (s # ss) at data =
     concat (map (\<lambda>i. c_elems itemsize ds ss (at + i * s) data) [0..<d])"
| "c_elems itemsize _ _ at data = take itemsize (drop (at * itemsize) data)"

text \<open>Row-major strides of a shape, and the strides a view has.\<close>

fun c_strides :: "nat list \<Rightarrow> nat list" where
  "c_strides [] = []"
| "c_strides (d # ds) = prod_list ds # c_strides ds"

lemma length_c_strides [simp]: "length (c_strides ds) = length ds"
  by (induction ds) simp_all

definition view_shape :: "tensor \<Rightarrow> nat list" where
  "view_shape t = map nat (t_shape t)"

definition view_strides :: "tensor \<Rightarrow> nat list" where
  "view_strides t =
     (case t_strides t of None \<Rightarrow> c_strides (view_shape t) | Some ss \<Rightarrow> map nat ss)"

definition tensor_elems :: "tensor \<Rightarrow> bytes" where
  "tensor_elems t = c_elems (dtype_size (t_dtype t)) (view_shape t) (view_strides t) 0
     (drop (t_byte_offset t) (t_storage t))"

definition spans :: "nat list \<Rightarrow> nat list \<Rightarrow> nat" where
  "spans ds ss = sum_list (map2 (\<lambda>d s. (d - 1) * s) ds ss)"

definition tensor_ok :: "tensor \<Rightarrow> bool" where
  "tensor_ok t \<longleftrightarrow> t_dtype t \<noteq> DUnspecified \<and> stride_fault (t_shape t) (t_strides t) = None \<and>
     (\<exists>r. required_bytes (t_shape t) (t_strides t) (t_dtype t) = Inr r \<and>
       t_byte_offset t \<le> length (t_storage t) \<and> r \<le> length (t_storage t) - t_byte_offset t)"

lemma from_storage_Inr_iff:
  "from_storage st dt sh ss off = Inr t \<longleftrightarrow>
     t = \<lparr>t_storage = st, t_dtype = dt, t_shape = sh, t_strides = ss, t_byte_offset = off\<rparr> \<and> tensor_ok t"
  by (auto simp: from_storage_def tensor_ok_def res_simps split: option.splits if_splits)

section \<open>Sizes\<close>

lemma checked_mul_Some_iff [simp]: "checked_mul a b = Some n \<longleftrightarrow> n = a * b \<and> a * b \<le> u64_max"
  by (auto simp: checked_mul_def)

lemma checked_add_Some_iff [simp]: "checked_add a b = Some n \<longleftrightarrow> n = a + b \<and> a + b \<le> u64_max"
  by (auto simp: checked_add_def)

lemma i64_mul_Some_iff [simp]:
  "i64_mul a b = Some n \<longleftrightarrow> n = a * b \<and> i64_min \<le> a * b \<and> a * b \<le> i64_max"
  by (auto simp: i64_mul_def)

lemma checked_ops [simp]:
  "a * b \<le> u64_max \<Longrightarrow> checked_mul a b = Some (a * b)" "a + b \<le> u64_max \<Longrightarrow> checked_add a b = Some (a + b)"
  by simp_all

lemma checked_numel_from_Inr:
  "checked_numel_from a ds = Inr n \<Longrightarrow> (\<forall>d \<in> set ds. 0 \<le> d) \<and> n = a * prod_list (map nat ds) \<and>
     usize_product a (map nat ds) = Some n"
  by (induction a ds rule: checked_numel_from.induct) (auto simp: res_simps simp flip: mult.assoc split: if_splits)

lemma le_of_mult: "0 < n \<Longrightarrow> a * n \<le> b \<Longrightarrow> a \<le> (b :: nat)"
  by (cases n) auto

lemma less_of_mult_add: "0 < k \<Longrightarrow> k * n + c < b \<Longrightarrow> n < (b :: nat)"
  by (cases k) auto

lemma prod_list_pos: "0 \<notin> set ds \<Longrightarrow> 0 < prod_list (ds :: nat list)"
  by (induction ds) auto

lemma nat_pos_set: "\<forall>d \<in> set sh. 0 < d \<Longrightarrow> 0 \<notin> set (map nat sh)"
  by force

lemma checked_numel_from_small:
  assumes "\<forall>d \<in> set ds. 0 < d" "a * prod_list (map nat ds) \<le> u64_max" 
  shows "checked_numel_from a ds = Inr (a * prod_list (map nat ds))"
  using assms
proof (induction ds arbitrary: a)
  case (Cons d ds)
  have "0 < prod_list (map nat ds)" using Cons.prems by (intro prod_list_pos) auto
  then have "a * nat d \<le> a * nat d * prod_list (map nat ds)" by simp
  also have "\<dots> \<le> u64_max" using Cons.prems by (simp add: mult.assoc)
  finally have "checked_mul a (nat d) = Some (a * nat d)" by simp
  with Cons show ?case by (auto simp: mult.assoc)
qed simp

lemma usize_product_le: "usize_product a ds = Some n \<Longrightarrow> a \<le> u64_max \<Longrightarrow> n \<le> u64_max"
  by (induction a ds rule: usize_product.induct) (auto split: option.splits)

lemma last_element_from_Inr:
  "last_element_from a zs = Inr n \<Longrightarrow> n = a + sum_list (map (\<lambda>(d, s). (nat d - 1) * nat s) zs) \<and> n \<le> max a u64_max"
  by (induction a zs rule: last_element_from.induct) (fastforce simp: res_simps)+

lemma spans_zip: "sum_list (map (\<lambda>(d, s). (nat d - 1) * nat s) (zip ds ss)) = spans (map nat ds) (map nat ss)"
  by (simp add: spans_def zip_map_map split_def comp_def)

text \<open>What the constructors establish, in arithmetic.\<close>

lemma tensor_okD:
  assumes "tensor_ok t"
  shows "t_dtype t \<noteq> DUnspecified" "\<forall>d \<in> set (t_shape t). 0 \<le> d"
    "tensor_numel t = Some (prod_list (view_shape t))" "prod_list (view_shape t) \<le> u64_max"
    "t_byte_offset t \<le> length (t_storage t)"
    "t_strides t = Some ss \<Longrightarrow> length ss = length (t_shape t) \<and> (\<forall>s \<in> set ss. 0 \<le> s)"
proof -
  from assms obtain r where r: "required_bytes (t_shape t) (t_strides t) (t_dtype t) = Inr r"
    and ok: "t_dtype t \<noteq> DUnspecified" "stride_fault (t_shape t) (t_strides t) = None"
      "t_byte_offset t \<le> length (t_storage t)"
    by (auto simp: tensor_ok_def)
  from r obtain n where n: "checked_numel_from 1 (t_shape t) = Inr n"
    by (auto simp: required_bytes_def checked_numel_def res_simps)
  note cn = checked_numel_from_Inr [OF n]
  show "t_dtype t \<noteq> DUnspecified" "t_byte_offset t \<le> length (t_storage t)" using ok by simp_all
  show "\<forall>d \<in> set (t_shape t). 0 \<le> d" using cn by simp
  show numel: "tensor_numel t = Some (prod_list (view_shape t))"
    using cn by (simp add: tensor_numel_def view_shape_def)
  show "prod_list (view_shape t) \<le> u64_max"
    using usize_product_le [of 1 "map nat (t_shape t)"] numel by (simp add: tensor_numel_def)
  show "t_strides t = Some ss \<Longrightarrow> length ss = length (t_shape t) \<and> (\<forall>s \<in> set ss. 0 \<le> s)"
    using ok(2) by (auto simp: stride_fault_def find_None_iff not_less split: if_splits)
qed

lemma spans_simps [simp]:
  "spans [] ss = 0" "spans (d # ds) (s # ss) = (d - 1) * s + spans ds ss"
  by (simp_all add: spans_def)

lemma spans_c_strides: "0 \<notin> set ds \<Longrightarrow> spans ds (c_strides ds) + 1 = prod_list ds"
proof (induction ds)
  case (Cons d ds)
  then obtain k where "d = Suc k" by (cases d) auto
  with Cons show ?case by simp
qed simp

text \<open>The storage holds every element of a non-empty view.\<close>

lemma tensor_ok_span:
  assumes "tensor_ok t" "0 \<notin> set (view_shape t)"
  shows "(spans (view_shape t) (view_strides t) + 1) * dtype_size (t_dtype t)
    \<le> length (t_storage t) - t_byte_offset t"
proof -
  from assms(1) obtain r where r: "required_bytes (t_shape t) (t_strides t) (t_dtype t) = Inr r"
    and fit: "r \<le> length (t_storage t) - t_byte_offset t"
    by (auto simp: tensor_ok_def)
  from r obtain n where n: "checked_numel_from 1 (t_shape t) = Inr n"
    by (auto simp: required_bytes_def checked_numel_def res_simps)
  then have n_eq: "n = prod_list (view_shape t)"
    using checked_numel_from_Inr [OF n] by (simp add: view_shape_def)
  then have "n \<noteq> 0" using prod_list_pos [OF assms(2)] by simp
  with r n have "(spans (view_shape t) (view_strides t) + 1) * dtype_size (t_dtype t) = r"
  proof (cases "t_strides t")
    case None
    with r n \<open>n \<noteq> 0\<close> have "r = n * dtype_size (t_dtype t)"
      by (auto simp: required_bytes_def checked_numel_def res_simps)
    then show ?thesis
      using None spans_c_strides [OF assms(2)] n_eq by (simp add: view_strides_def)
  next
    case (Some ss)
    with r n \<open>n \<noteq> 0\<close> obtain m where m: "last_element_from 0 (zip (t_shape t) ss) = Inr m"
      and r_eq: "r = (m + 1) * dtype_size (t_dtype t)"
      by (auto simp: required_bytes_def checked_numel_def res_simps)
    from last_element_from_Inr [OF m] have "m = spans (map nat (t_shape t)) (map nat ss)"
      unfolding spans_zip by simp
    then show ?thesis using Some r_eq by (simp add: view_strides_def view_shape_def)
  qed
  with fit show ?thesis by simp
qed

section \<open>The odometer\<close>

text \<open>The mixed-radix digits of an element's position, least significant axis first.\<close>

fun digits :: "nat list \<Rightarrow> nat \<Rightarrow> nat list" where
  "digits [] k = []"
| "digits (d # ds) k = k mod d # digits ds (k div d)"

lemma length_digits [simp]: "length (digits ds k) = length ds"
  by (induction ds arbitrary: k) simp_all

lemma digits_snoc: "digits (ds @ [d]) k = digits ds k @ [k div prod_list ds mod d]"
  by (induction ds arbitrary: k) (simp_all add: div_mult2_eq)

lemma digits_mod: "0 \<notin> set ds \<Longrightarrow> digits ds (k mod prod_list ds) = digits ds k"
proof (induction ds arbitrary: k)
  case (Cons d ds)
  have "k mod (d * prod_list ds) mod d = k mod d" by (simp add: mod_mult2_eq)
  moreover have "k mod (d * prod_list ds) div d = k div d mod prod_list ds"
    using Cons.prems by (simp add: mod_mult2_eq)
  ultimately show ?case using Cons by simp
qed simp

lemma digits_zero: "digits ds 0 = replicate (length ds) 0"
  by (induction ds) simp_all

lemma bump_digits:
  assumes "\<forall>d \<in> set ds. 0 < d"
  shows "bump_from_last (digits (map nat ds) k) ds = digits (map nat ds) (Suc k)"
  using assms
proof (induction ds arbitrary: k)
  case (Cons d ds)
  then obtain n where d: "d = int n" "0 < n" by (metis list.set_intros(1) zero_less_imp_eq_int)
  show ?case
  proof (cases "Suc (k mod n) = n")
    case True
    with d have "Suc k mod n = 0" "Suc k div n = Suc (k div n)" by (simp_all add: mod_Suc div_Suc)
    with True d Cons show ?thesis by simp
  next
    case False
    with d have "Suc (k mod n) < n" by (metis Suc_lessI mod_less_divisor)
    with False d have "Suc k mod n = Suc (k mod n)" "Suc k div n = k div n"
      by (simp_all add: mod_Suc div_Suc)
    with d \<open>Suc (k mod n) < n\<close> show ?thesis by simp
  qed
qed simp

section \<open>Gathering\<close>

definition dot :: "nat list \<Rightarrow> nat list \<Rightarrow> nat" where
  "dot is ss = sum_list (map2 (*) is ss)"

lemma dot_simps [simp]: "dot [] ss = 0" "dot (i # is) (s # ss) = i * s + dot is ss"
  by (simp_all add: dot_def)

lemma element_at_dot: "element_at is ss = dot is (map nat ss)"
  by (simp add: element_at_def dot_def zip_map2 split_def comp_def)

text \<open>The index at position \<open>k\<close>, in axis order.\<close>

definition index_of :: "nat list \<Rightarrow> nat \<Rightarrow> nat list" where
  "index_of ds k = rev (digits (rev ds) k)"

lemma index_of_simps [simp]:
  "index_of [] k = []"
  "index_of (d # ds) k = (k div prod_list ds mod d) # index_of ds k"
  "length (index_of ds k) = length ds"
  by (simp_all add: index_of_def digits_snoc prod_list.rev)

lemma index_of_mod: "0 \<notin> set ds \<Longrightarrow> index_of ds (k mod prod_list ds) = index_of ds k"
  using digits_mod [of "rev ds" k] by (simp add: index_of_def prod_list.rev)

lemma index_of_zero: "index_of ds 0 = replicate (length ds) 0"
  by (simp add: index_of_def digits_zero)

lemma bump_index:
  "\<forall>d \<in> set sh. 0 < d \<Longrightarrow> bump sh (index_of (map nat sh) k) = index_of (map nat sh) (Suc k)"
  using bump_digits [of "rev sh" k] by (simp add: bump_def index_of_def rev_map)

lemma dot_index_le:
  "0 \<notin> set ds \<Longrightarrow> length ss = length ds \<Longrightarrow> dot (index_of ds k) ss \<le> spans ds ss"
proof (induction ds arbitrary: ss)
  case (Cons d ds)
  then obtain s ss' where ss: "ss = s # ss'" by (cases ss) auto
  have "k div prod_list ds mod d \<le> d - 1" using Cons.prems by (simp add: le_diff_conv2 flip: less_eq_Suc_le)
  then have "(k div prod_list ds mod d) * s \<le> (d - 1) * s" by (rule mult_le_mono1)
  with Cons ss show ?case by (simp add: add_mono)
qed simp

lemma concat_upt_mult:
  "concat (map f [0..<d * p]) = concat (map (\<lambda>i. concat (map (\<lambda>j. f (i * p + j)) [0..<p])) [0..<d])"
proof (induction d)
  case (Suc d)
  have "[0..<Suc d * p] = [0..<d * p] @ map (\<lambda>j. d * p + j) [0..<p]"
    using upt_add_eq_append [of 0 "d * p" p] map_add_upt [of "d * p" p] by (simp add: add.commute)
  with Suc show ?case by (simp add: comp_def)
qed simp

text \<open>The specification, as one pass over the positions.\<close>

lemma c_elems_positions:
  assumes "0 \<notin> set ds" "length ss = length ds"
  shows "c_elems n ds ss at data =
    concat (map (\<lambda>k. take n (drop ((at + dot (index_of ds k) ss) * n) data)) [0..<prod_list ds])"
  using assms
proof (induction ds arbitrary: ss at)
  case (Cons d ds)
  then obtain s ss' where ss: "ss = s # ss'" by (cases ss) auto
  let ?p = "prod_list ds"
  define f where "f = (\<lambda>k. take n (drop ((at + dot (index_of (d # ds) k) ss) * n) data))"
  have pos: "0 < ?p" using Cons.prems by (simp add: prod_list_pos)
  have at_pos: "f (i * ?p + j) = take n (drop ((at + i * s + dot (index_of ds j) ss') * n) data)"
    if "i < d" "j < ?p" for i j
  proof -
    have "index_of ds (i * ?p + j) = index_of ds j"
      using index_of_mod [of ds "i * ?p + j"] index_of_mod [of ds j] Cons.prems by simp
    with that pos show ?thesis by (simp add: f_def ss add.assoc)
  qed
  have row: "concat (map (\<lambda>j. f (i * ?p + j)) [0..<?p]) = c_elems n ds ss' (at + i * s) data"
    if "i < d" for i
  proof -
    have m: "map (\<lambda>j. f (i * ?p + j)) [0..<?p] =
        map (\<lambda>j. take n (drop ((at + i * s + dot (index_of ds j) ss') * n) data)) [0..<?p]"
      by (rule map_cong [OF refl], rule at_pos) (use that in simp_all)
    show ?thesis unfolding m using Cons.IH [of ss' "at + i * s"] Cons.prems ss by simp
  qed
  have "concat (map f [0..<d * ?p]) =
      concat (map (\<lambda>i. c_elems n ds ss' (at + i * s) data) [0..<d])"
    unfolding concat_upt_mult
    by (rule arg_cong [of _ _ concat], rule map_cong [OF refl], rule row) simp
  then show ?case by (simp add: ss f_def)
qed (cases ss; simp)

lemma c_elems_empty: "0 \<in> set ds \<Longrightarrow> length ss = length ds \<Longrightarrow> c_elems n ds ss at data = []"
  by (induction n ds ss at data rule: c_elems.induct) auto

lemma gather_loop_run:
  assumes "\<forall>d \<in> set sh. 0 < d"
    and "\<And>k. element_at (index_of (map nat sh) k) ss * n + n \<le> length data"
  shows "gather_loop n sh ss m data (index_of (map nat sh) k) out =
    Some (out @ concat (map (\<lambda>j. take n (drop (element_at (index_of (map nat sh) j) ss * n) data)) [k..<k + m]))"
  using assms(2)
proof (induction m arbitrary: k out)
  case (Suc m)
  have "[k..<k + Suc m] = k # [Suc k..<Suc k + m]" by (simp add: upt_rec)
  then show ?case using Suc bump_index [OF assms(1)] by (simp add: slice_at_def)
qed simp

section \<open>Contiguous views\<close>

lemma dot_c_strides: "0 \<notin> set ds \<Longrightarrow> k < prod_list ds \<Longrightarrow> dot (index_of ds k) (c_strides ds) = k"
proof (induction ds arbitrary: k)
  case (Cons d ds)
  let ?p = "prod_list ds"
  have "0 < ?p" using Cons.prems by (simp add: prod_list_pos)
  then have "dot (index_of ds (k mod ?p)) (c_strides ds) = k mod ?p" using Cons by simp
  then have "dot (index_of ds k) (c_strides ds) = k mod ?p" using Cons.prems index_of_mod [of ds k] by simp
  moreover have "k div ?p mod d = k div ?p" using Cons.prems by (simp add: less_mult_imp_div_less)
  ultimately show ?case by simp
qed simp

lemma dot_rev: "length is = length ss \<Longrightarrow> dot (rev is) (rev ss) = dot is ss"
  by (simp add: dot_def zip_rev rev_map [symmetric])

lemma spans_rev: "length ds = length ss \<Longrightarrow> spans (rev ds) (rev ss) = spans ds ss"
  by (simp add: spans_def zip_rev rev_map [symmetric])

lemma contiguous_dot:
  assumes "contiguous_from (int e) (zip sh ss) = Some True" "\<forall>d \<in> set sh. 0 < d" "length ss = length sh"
    and "k < prod_list (map nat sh)"
  shows "dot (digits (map nat sh) k) (map nat ss) = e * k"
  using assms
proof (induction sh arbitrary: ss e k)
  case (Cons d sh)
  then obtain s ss' where ss: "ss = s # ss'" by (cases ss) auto
  obtain n where d: "d = int n" "0 < n" using Cons.prems(2) by (metis list.set_intros(1) zero_less_imp_eq_int)
  have k: "k div n < prod_list (map nat sh)" using Cons.prems(4) d by (simp add: less_mult_imp_div_less mult.commute)
  show ?case
  proof (cases "n = 1")
    case True
    with Cons ss d k show ?thesis by simp
  next
    case False
    with Cons.prems ss d have "s = int e" and rest: "contiguous_from (int (e * n)) (zip sh ss') = Some True"
      by (auto split: if_splits option.splits)
    moreover have "dot (digits (map nat sh) (k div n)) (map nat ss') = e * n * (k div n)"
      using Cons.IH [OF rest] Cons.prems ss k by simp
    moreover have "k mod n * e + e * n * (k div n) = e * k"
      by (metis add_mult_distrib2 mod_mult_div_eq mult.assoc mult.commute)
    ultimately show ?thesis using ss d by simp
  qed
qed simp

text \<open>The unchecked product of \<open>is_contiguous\<close> stays below what the storage holds.\<close>

lemma contiguous_total:
  assumes "\<forall>d \<in> set sh. 0 < d" "\<forall>s \<in> set ss. 0 \<le> s" "0 < e" "length ss = length sh"
    and "e - 1 + spans (map nat sh) (map nat ss) < 2 ^ 63 - 1"
  shows "contiguous_from (int e) (zip sh ss) \<noteq> None"
  using assms
proof (induction sh arbitrary: ss e)
  case (Cons d sh)
  then obtain s ss' where ss: "ss = s # ss'" by (cases ss) auto
  obtain n where d: "d = int n" "0 < n" using Cons.prems(1) by (metis list.set_intros(1) zero_less_imp_eq_int)
  show ?case
  proof (cases "n = 1 \<or> s \<noteq> int e")
    case True
    then show ?thesis using Cons.prems Cons.IH [of ss' e] ss d by auto
  next
    case False
    obtain m where m: "n = Suc m" using d by (cases n) auto
    have "spans (map nat (d # sh)) (map nat ss) = m * e + spans (map nat sh) (map nat ss')"
      using ss d m False by (simp del: of_nat_Suc)
    then have b: "e * n - 1 + spans (map nat sh) (map nat ss') < 2 ^ 63 - 1"
      using Cons.prems(3,5) m by (simp add: algebra_simps)
    then have "e * n \<le> 9223372036854775807" by simp
    then have "int (e * n) \<le> int 9223372036854775807" by (simp only: of_nat_le_iff)
    then have "int e * int n \<le> i64_max" by simp
    moreover have "i64_min \<le> int e * int n" by (rule order_trans [of _ 0]) simp_all
    ultimately have "i64_mul (int e) (int n) = Some (int (e * n))" by simp
    then have "contiguous_from (int e) (zip (d # sh) ss) = contiguous_from (int (e * n)) (zip sh ss')"
      using False ss d by (simp del: of_nat_mult i64_mul_Some_iff)
    moreover have "contiguous_from (int (e * n)) (zip sh ss') \<noteq> None"
      using Cons.prems ss d by (intro Cons.IH b) simp_all
    ultimately show ?thesis by simp
  qed
qed simp

lemma concat_takes: "concat (map (\<lambda>k. take n (drop (k * n) data)) [0..<p]) = take (p * n) data"
  by (induction p) (simp_all add: take_add [symmetric] add.commute)

lemma length_concat_const: "\<forall>x \<in> set xs. length (f x) = n \<Longrightarrow> length (concat (map f xs)) = length xs * n"
  by (induction xs) simp_all

lemma length_take_drop: "a + n \<le> length data \<Longrightarrow> length (take n (drop a data)) = n"
  by simp

lemma length_c_elems:
  assumes "0 \<notin> set ds" "length ss = length ds" "(at + spans ds ss + 1) * n \<le> length data"
  shows "length (c_elems n ds ss at data) = prod_list ds * n"
proof -
  have "(at + dot (index_of ds k) ss) * n + n \<le> length data" for k
  proof -
    have "(at + dot (index_of ds k) ss + 1) * n \<le> (at + spans ds ss + 1) * n"
      using dot_index_le [OF assms(1,2), of k] by (intro mult_le_mono1) simp
    also note assms(3)
    finally show ?thesis by (simp add: algebra_simps)
  qed
  then have "\<forall>k \<in> set [0..<prod_list ds]. length (take n (drop ((at + dot (index_of ds k) ss) * n) data)) = n"
    by (intro ballI length_take_drop)
  from length_concat_const [OF this] show ?thesis by (simp add: c_elems_positions [OF assms(1,2)])
qed

lemma length_view_shape [simp]: "length (view_shape t) = length (t_shape t)"
  by (simp add: view_shape_def)

lemma view_lengths:
  "tensor_ok t \<Longrightarrow> length (view_strides t) = length (view_shape t)"
  using tensor_okD(6) [of t] by (auto simp: view_strides_def view_shape_def length_c_strides split: option.splits)

lemma tensor_ok_pos:
  "tensor_ok t \<Longrightarrow> 0 \<notin> set (view_shape t) \<Longrightarrow> \<forall>d \<in> set (t_shape t). 0 < d"
  using tensor_okD(2) [of t] by (force simp: view_shape_def image_iff)

text \<open>A view as \<open>is_contiguous\<close> classifies it: in place exactly when the strides are row-major.\<close>

lemma contiguous_elems:
  assumes t: "tensor_ok t" and pos: "0 \<notin> set (view_shape t)" and "is_contiguous t = Some True"
  shows "tensor_elems t =
    take (prod_list (view_shape t) * dtype_size (t_dtype t)) (drop (t_byte_offset t) (t_storage t))"
proof -
  have "dot (index_of (view_shape t) k) (view_strides t) = k" if k: "k < prod_list (view_shape t)" for k
  proof (cases "t_strides t")
    case None
    then show ?thesis using dot_c_strides [OF pos k] by (simp add: view_strides_def)
  next
    case (Some ss)
    have len: "length ss = length (t_shape t)" using tensor_okD(6) [OF t Some] by simp
    have "contiguous_from (int 1) (zip (rev (t_shape t)) (rev ss)) = Some True"
      using assms(3) Some len by (simp add: is_contiguous_def zip_rev)
    then have "dot (digits (map nat (rev (t_shape t))) k) (map nat (rev ss)) = 1 * k"
      by (rule contiguous_dot)
        (use tensor_ok_pos [OF t pos] len k in \<open>simp_all add: view_shape_def prod_list.rev flip: rev_map\<close>)
    then show ?thesis
      using dot_rev [of "digits (rev (view_shape t)) k" "rev (map nat ss)"] Some len
      by (simp add: index_of_def view_shape_def view_strides_def rev_map)
  qed
  then have "map (\<lambda>k. take n (drop ((0 + dot (index_of (view_shape t) k) (view_strides t)) * n) data))
      [0..<prod_list (view_shape t)] = map (\<lambda>k. take n (drop (k * n) data)) [0..<prod_list (view_shape t)]" for n and data :: bytes
    by (intro map_cong) simp_all
  then show ?thesis
    unfolding tensor_elems_def c_elems_positions [OF pos view_lengths [OF t]] by (simp only: concat_takes)
qed

lemma is_contiguous_defined:
  assumes t: "tensor_ok t" and "0 \<notin> set (view_shape t)" "length (t_storage t) < 2 ^ 63"
  shows "is_contiguous t \<noteq> None"
proof (cases "t_strides t")
  case (Some ss)
  have len: "length ss = length (t_shape t)" "\<forall>s \<in> set ss. 0 \<le> s" using tensor_okD(6) [OF t Some] by simp_all
  have "0 < dtype_size (t_dtype t)" using tensor_okD(1) [OF t] by (simp add: dtype_size_pos)
  from le_of_mult [OF this tensor_ok_span [OF t assms(2)]]
  have "spans (view_shape t) (view_strides t) + 1 \<le> length (t_storage t)" by simp
  then have "spans (map nat (t_shape t)) (map nat ss) < 2 ^ 63 - 1"
    using assms(3) Some by (simp add: view_shape_def view_strides_def)
  moreover have "spans (map nat (rev (t_shape t))) (map nat (rev ss)) = spans (map nat (t_shape t)) (map nat ss)"
    using len by (simp add: spans_rev flip: rev_map)
  ultimately have "contiguous_from (int 1) (zip (rev (t_shape t)) (rev ss)) \<noteq> None"
    using tensor_ok_pos [OF t assms(2)] len by (intro contiguous_total) simp_all
  then show ?thesis using Some len by (simp add: is_contiguous_def zip_rev)
qed (simp add: is_contiguous_def)

section \<open>The accessors on views that can be materialized\<close>

text \<open>
  A buffer has at most \<open>isize::MAX\<close> bytes. A view can be materialized when its element bytes fit such a
  buffer and, if it has explicit strides, no axis is empty.
\<close>

definition materializes :: "tensor \<Rightarrow> bool" where
  "materializes t \<longleftrightarrow> tensor_ok t \<and> length (t_storage t) < 2 ^ 63 \<and>
     prod_list (view_shape t) * dtype_size (t_dtype t) < 2 ^ 63 \<and>
     (t_strides t = None \<or> 0 \<notin> set (view_shape t))"

lemma tensor_nbytes_eq:
  "materializes t \<Longrightarrow> tensor_nbytes t = Some (prod_list (view_shape t) * dtype_size (t_dtype t))"
  using tensor_okD(3) [of t] by (simp add: materializes_def tensor_nbytes_def)

lemma length_tensor_elems:
  assumes "materializes t"
  shows "length (tensor_elems t) = prod_list (view_shape t) * dtype_size (t_dtype t)"
proof (cases "0 \<in> set (view_shape t)")
  case True
  then have "prod_list (view_shape t) = 0" by (simp add: prod_list_zero_iff)
  with True assms view_lengths [of t] show ?thesis
    by (simp add: tensor_elems_def c_elems_empty materializes_def)
next
  case False
  with assms tensor_ok_span [of t] view_lengths [of t] show ?thesis
    unfolding tensor_elems_def by (intro length_c_elems) (simp_all add: materializes_def)
qed

lemma gather_into_elems:
  assumes t: "tensor_ok t" and pos: "0 \<notin> set (view_shape t)" and ss: "t_strides t = Some ss"
  shows "gather_into t out = Some (out @ tensor_elems t)"
proof -
  let ?n = "dtype_size (t_dtype t)" and ?data = "drop (t_byte_offset t) (t_storage t)"
  have len: "length (view_strides t) = length (view_shape t)" by (rule view_lengths [OF t])
  have vs: "view_strides t = map nat ss" using ss by (simp add: view_strides_def)
  have "element_at (index_of (map nat (t_shape t)) k) ss * ?n + ?n \<le> length ?data" for k
  proof -
    have "(element_at (index_of (map nat (t_shape t)) k) ss + 1) * ?n \<le> (spans (view_shape t) (view_strides t) + 1) * ?n"
      using dot_index_le [OF pos len, of k] vs by (intro mult_le_mono1) (simp add: element_at_dot view_shape_def)
    also have "\<dots> \<le> length ?data" using tensor_ok_span [OF t pos] by simp
    finally show ?thesis by (simp add: algebra_simps)
  qed
  from gather_loop_run [OF tensor_ok_pos [OF t pos] this, where k = 0 and m = "prod_list (view_shape t)" and out = out]
  have "gather_loop ?n (t_shape t) ss (prod_list (view_shape t)) ?data (replicate (length (t_shape t)) 0) out =
      Some (out @ tensor_elems t)"
    unfolding tensor_elems_def c_elems_positions [OF pos len]
    by (simp add: index_of_zero element_at_dot vs flip: view_shape_def)
  then show ?thesis
    using tensor_okD(3,5) [OF t] ss by (simp add: gather_into_def effective_strides_def)
qed

lemma to_contiguous_elems:
  assumes "materializes t"
  shows "to_contiguous_bytes t = Some (tensor_elems t)"
proof -
  have t: "tensor_ok t" using assms by (simp add: materializes_def)
  note nb = tensor_nbytes_eq [OF assms] and len = length_tensor_elems [OF assms]
  show ?thesis
  proof (cases "0 \<in> set (view_shape t)")
    case True
    then have "t_strides t = None" "prod_list (view_shape t) = 0"
      using assms by (simp_all add: materializes_def prod_list_zero_iff)
    with nb len tensor_okD(5) [OF t] show ?thesis
      by (simp add: to_contiguous_bytes_def is_contiguous_def slice_at_def)
  next
    case pos: False
    from is_contiguous_defined [OF t pos] assms obtain b where b: "is_contiguous t = Some b"
      by (auto simp: materializes_def)
    show ?thesis
    proof (cases b)
      case True
      with b have elems: "tensor_elems t = take (prod_list (view_shape t) * dtype_size (t_dtype t))
          (drop (t_byte_offset t) (t_storage t))" by (intro contiguous_elems [OF t pos]) simp
      with len have "prod_list (view_shape t) * dtype_size (t_dtype t) \<le> length (t_storage t) - t_byte_offset t"
        by (metis length_drop length_take min.absorb_iff2 min.commute)
      with b True nb elems tensor_okD(5) [OF t] show ?thesis
        by (simp add: to_contiguous_bytes_def slice_at_def)
    next
      case False
      with b obtain ss where "t_strides t = Some ss" by (auto simp: is_contiguous_def split: option.splits)
      with gather_into_elems [OF t pos] b False nb assms show ?thesis
        by (simp add: to_contiguous_bytes_def materializes_def)
    qed
  qed
qed

section \<open>Storage and fresh tensors\<close>

lemma aligned_with_eq: "length fill = len \<Longrightarrow> len + 63 < 2 ^ 63 \<Longrightarrow> aligned_with addr len fill = Some fill"
  by (simp add: aligned_with_def with_aligned_offset_def ab_as_slice_def Let_def)

lemma aligned_with_aligned:
  "with_aligned_offset addr len = Some b \<Longrightarrow> (addr + ab_offset b) mod 64 = 0"
proof -
  assume "with_aligned_offset addr len = Some b"
  then have "ab_offset b = (64 - addr mod 64) mod 64"
    by (auto simp: with_aligned_offset_def Let_def split: if_splits)
  moreover have "addr + (64 - addr mod 64) = 64 * (addr div 64 + 1)"
  proof -
    have "64 * q + r + (64 - r) = 64 * (q + 1)" if "r < 64" for q r :: nat using that by simp
    from this [of "addr mod 64" "addr div 64"] show ?thesis by simp
  qed
  ultimately show ?thesis by (metis mod_add_right_eq mod_mult_self1_is_0)
qed

lemma last_element_from_total:
  assumes "a + sum_list (map (\<lambda>(d, s). (nat d - 1) * nat s) zs) \<le> u64_max"
  shows "last_element_from a zs = Inr (a + sum_list (map (\<lambda>(d, s). (nat d - 1) * nat s) zs))"
  using assms by (induction a zs rule: last_element_from.induct) (auto simp: add.assoc)

text \<open>A view all of whose elements lie in the storage passes the constructor.\<close>

lemma tensor_okI:
  assumes "t_dtype t \<noteq> DUnspecified" "\<forall>d \<in> set (t_shape t). 0 < d" "prod_list (view_shape t) \<le> u64_max"
    and strides: "\<And>ss. t_strides t = Some ss \<Longrightarrow> length ss = length (t_shape t) \<and> (\<forall>s \<in> set ss. 0 \<le> s)"
    and fit: "t_byte_offset t + (spans (view_shape t) (view_strides t) + 1) * dtype_size (t_dtype t) \<le> length (t_storage t)"
    and small: "length (t_storage t) < 2 ^ 63"
  shows "tensor_ok t"
proof -
  let ?n = "dtype_size (t_dtype t)" and ?p = "prod_list (view_shape t)"
  have n: "checked_numel (t_shape t) = Inr ?p"
    using checked_numel_from_small [of "t_shape t" 1] assms(2,3) by (simp add: checked_numel_def view_shape_def)
  have pos: "0 \<notin> set (view_shape t)" using assms(2) by (force simp: view_shape_def)
  then have p: "0 < ?p" by (rule prod_list_pos)
  have bytes: "(spans (view_shape t) (view_strides t) + 1) * ?n \<le> u64_max" using fit small by simp
  have "0 < ?n" using assms(1) by (simp add: dtype_size_pos)
  from le_of_mult [OF this bytes] have elems: "spans (view_shape t) (view_strides t) + 1 \<le> u64_max" .
  have "required_bytes (t_shape t) (t_strides t) (t_dtype t) =
      Inr ((spans (view_shape t) (view_strides t) + 1) * ?n)"
  proof (cases "t_strides t")
    case None
    then have e: "spans (view_shape t) (view_strides t) + 1 = ?p"
      using spans_c_strides [OF pos] by (simp add: view_strides_def)
    show ?thesis using None n p bytes unfolding e by (simp add: required_bytes_def)
  next
    case (Some ss)
    then have sp: "spans (view_shape t) (view_strides t) = spans (map nat (t_shape t)) (map nat ss)"
      by (simp add: view_shape_def view_strides_def)
    have "last_element_from 0 (zip (t_shape t) ss) = Inr (spans (view_shape t) (view_strides t))"
      using last_element_from_total [of 0 "zip (t_shape t) ss"] elems unfolding spans_zip sp by simp
    with Some n p bytes elems show ?thesis by (simp add: required_bytes_def)
  qed
  moreover have "stride_fault (t_shape t) (t_strides t) = None"
    using strides by (auto simp: stride_fault_def find_None_iff not_less split: option.splits)
  ultimately show ?thesis using assms(1) fit by (simp add: tensor_ok_def)
qed

text \<open>A C-contiguous tensor over exactly its bytes.\<close>

definition packed :: "bytes \<Rightarrow> dtype \<Rightarrow> int list \<Rightarrow> tensor" where
  "packed data dt sh = \<lparr>t_storage = data, t_dtype = dt, t_shape = sh, t_strides = None, t_byte_offset = 0\<rparr>"

lemma packed_ok:
  assumes "dt \<noteq> DUnspecified" "\<forall>d \<in> set sh. 0 < d" "length data = prod_list (map nat sh) * dtype_size dt"
    and "length data < 2 ^ 63"
  shows "materializes (packed data dt sh)" "tensor_elems (packed data dt sh) = data"
    "from_storage data dt sh None 0 = Inr (packed data dt sh)"
proof -
  let ?t = "packed data dt sh"
  have vs: "view_shape ?t = map nat sh" "view_strides ?t = c_strides (map nat sh)"
    by (simp_all add: packed_def view_shape_def view_strides_def)
  have pos: "0 \<notin> set (map nat sh)" using assms(2) by force
  have "0 < dtype_size dt" using assms(1) by (simp add: dtype_size_pos)
  then have "prod_list (map nat sh) \<le> length data" using assms(3) by simp
  then have small: "prod_list (map nat sh) \<le> u64_max" using assms(4) by simp
  have "tensor_ok ?t"
  proof (rule tensor_okI)
    show "t_byte_offset ?t + (spans (view_shape ?t) (view_strides ?t) + 1) * dtype_size (t_dtype ?t) \<le> length (t_storage ?t)"
      unfolding vs spans_c_strides [OF pos] using assms(3) by (simp add: packed_def)
  qed (use assms small vs in \<open>simp_all add: packed_def\<close>)
  with assms show "materializes ?t" by (simp add: materializes_def vs) (simp add: packed_def)
  from \<open>tensor_ok ?t\<close> show "from_storage data dt sh None 0 = Inr ?t"
    by (simp add: from_storage_Inr_iff) (simp add: packed_def)
  have "is_contiguous ?t = Some True" by (simp add: is_contiguous_def packed_def)
  then have "tensor_elems ?t = take (length data) data"
    using contiguous_elems [OF \<open>tensor_ok ?t\<close>] pos assms(3) by (simp add: vs) (simp add: packed_def)
  then show "tensor_elems ?t = data" by simp
qed

section \<open>Stack and unstack\<close>

lemma append_all_elems:
  "\<forall>t \<in> set ts. materializes t \<Longrightarrow> append_all ts buf = Some (buf @ concat (map tensor_elems ts))"
  by (induction ts arbitrary: buf) (simp_all add: to_contiguous_elems)

lemma stack_run:
  assumes "ts \<noteq> []" "position (\<lambda>t. t_dtype t \<noteq> t_dtype (hd ts) \<or> t_shape t \<noteq> t_shape (hd ts)) ts = None"
    and "tensor_nbytes (hd ts) = Some n" "checked_mul n (length ts) = Some nb" "append_all ts [] = Some buf"
    and "aligned_with addr nb buf = Some storage"
  shows "stack addr ts = Some (from_storage storage (t_dtype (hd ts)) (as_i64 (length ts) # t_shape (hd ts)) None 0)"
  using assms unfolding stack_def by (cases ts) (simp_all del: checked_mul_Some_iff append_all.simps position.simps)

lemma stack_elems:
  assumes ts: "ts = first # rest" "\<forall>t \<in> set ts. materializes t \<and> t_dtype t = t_dtype first \<and> t_shape t = t_shape first"
    and pos: "0 \<notin> set (view_shape first)"
    and fit: "length ts * (prod_list (view_shape first) * dtype_size (t_dtype first)) + 63 < 2 ^ 63"
  shows "stack addr ts = Some (Inr (packed (concat (map tensor_elems ts)) (t_dtype first) (int (length ts) # t_shape first)))"
    and "materializes (packed (concat (map tensor_elems ts)) (t_dtype first) (int (length ts) # t_shape first))"
    and "tensor_elems (packed (concat (map tensor_elems ts)) (t_dtype first) (int (length ts) # t_shape first)) =
      concat (map tensor_elems ts)"
proof -
  let ?n = "prod_list (view_shape first) * dtype_size (t_dtype first)"
  let ?buf = "concat (map tensor_elems ts)"
  have first: "materializes first" using ts by simp
  then have ok: "tensor_ok first" by (simp add: materializes_def)
  have "\<forall>t \<in> set ts. length (tensor_elems t) = ?n"
    using ts(2) length_tensor_elems by (auto simp: view_shape_def)
  then have len: "length ?buf = length ts * ?n" by (rule length_concat_const)
  have hd: "hd ts = first" "ts \<noteq> []" using ts(1) by simp_all
  have st: "stack addr ts = Some (from_storage ?buf (t_dtype first) (as_i64 (length ts) # t_shape first) None 0)"
  proof (subst hd(1) [symmetric], subst hd(1) [symmetric], rule stack_run)
    show "position (\<lambda>t. t_dtype t \<noteq> t_dtype (hd ts) \<or> t_shape t \<noteq> t_shape (hd ts)) ts = None"
      using ts(2) hd by (auto simp: position_None_iff)
    show "tensor_nbytes (hd ts) = Some ?n" unfolding hd(1) by (rule tensor_nbytes_eq [OF first])
    show "checked_mul ?n (length ts) = Some (length ts * ?n)" using fit by (simp add: mult.commute)
    show "append_all ts [] = Some ?buf" using append_all_elems [of ts "[]"] ts(2) by simp
    show "aligned_with addr (length ts * ?n) ?buf = Some ?buf" using len fit by (intro aligned_with_eq) simp_all
  qed (rule hd(2))
  have "0 < ?n" using pos ok tensor_okD(1) prod_list_pos [of "view_shape first"] by (simp add: dtype_size_pos)
  then have "length ts \<le> length ts * ?n" by simp
  then have "length ts < 2 ^ 63" using fit by linarith
  then have n: "as_i64 (length ts) = int (length ts)" by (rule as_i64_small)
  have "\<forall>d \<in> set (int (length ts) # t_shape first). 0 < d" using tensor_ok_pos [OF ok pos] ts(1) by simp
  moreover have "length ?buf = prod_list (map nat (int (length ts) # t_shape first)) * dtype_size (t_dtype first)"
    unfolding len by (simp add: view_shape_def)
  moreover have "length ?buf < 2 ^ 63" unfolding len using fit by simp
  ultimately have p: "materializes (packed ?buf (t_dtype first) (int (length ts) # t_shape first))"
    "tensor_elems (packed ?buf (t_dtype first) (int (length ts) # t_shape first)) = ?buf"
    "from_storage ?buf (t_dtype first) (int (length ts) # t_shape first) None 0 =
      Inr (packed ?buf (t_dtype first) (int (length ts) # t_shape first))"
    by (rule packed_ok [OF tensor_okD(1) [OF ok]])+
  then show "materializes (packed ?buf (t_dtype first) (int (length ts) # t_shape first))"
    and "tensor_elems (packed ?buf (t_dtype first) (int (length ts) # t_shape first)) = ?buf" by simp_all
  show "stack addr ts = Some (Inr (packed ?buf (t_dtype first) (int (length ts) # t_shape first)))"
    unfolding st n p(3) ..
qed

lemma strides_from_last_eq:
  assumes "\<forall>d \<in> set sh. 0 < d" "prod_list (map nat sh) < 2 ^ 63"
  shows "strides_from_last sh = Some (map int (c_strides (map nat sh)), int (prod_list (map nat sh)))"
  using assms
proof (induction sh)
  case (Cons d sh)
  have d: "0 < d" using Cons.prems by simp
  then have "1 * prod_list (map nat sh) \<le> nat d * prod_list (map nat sh)" by (intro mult_le_mono1) simp
  then have "prod_list (map nat sh) < 2 ^ 63" using Cons.prems(2) unfolding list.map prod_list.Cons by linarith
  with Cons have ih: "strides_from_last sh = Some (map int (c_strides (map nat sh)), int (prod_list (map nat sh)))"
    by simp
  have "int (prod_list (map nat sh)) * d = int (prod_list (map nat (d # sh)))" using d by (simp add: mult.commute)
  moreover have "int (prod_list (map nat (d # sh))) < int (2 ^ 63)" using Cons.prems(2) by (simp only: of_nat_less_iff)
  ultimately have "i64_mul (int (prod_list (map nat sh))) d = Some (int (prod_list (map nat (d # sh))))"
    using order_trans [of i64_min 0] by (simp del: list.map prod_list.Cons)
  with ih d show ?case by (simp del: i64_mul_Some_iff)
qed simp

lemma c_elems_shift: "c_elems n ds ss at (drop (b * n) data) = c_elems n ds ss (b + at) data"
proof (induction ds arbitrary: ss at)
  case Nil
  then show ?case by (simp add: add_mult_distrib add.commute)
next
  case (Cons d ds)
  then show ?case by (cases ss) (simp_all add: add.assoc, simp add: add_mult_distrib add.commute)
qed

lemma collect_views_all: "collect_views (map (\<lambda>i. Some (Inr (f i))) xs) = Some (Inr (map f xs))"
  by (induction xs) simp_all

text \<open>The \<open>i\<close>-th view along the leading axis.\<close>

definition slice_view :: "tensor \<Rightarrow> nat \<Rightarrow> tensor" where
  "slice_view t i = \<lparr>t_storage = t_storage t, t_dtype = t_dtype t, t_shape = tl (t_shape t),
     t_strides = map_option tl (t_strides t),
     t_byte_offset = t_byte_offset t + i * (hd (view_strides t) * dtype_size (t_dtype t))\<rparr>"

lemma slice_view_shape:
  assumes "t_shape t = d # inner" "tensor_ok t"
  shows "view_shape (slice_view t i) = tl (view_shape t)" "view_strides (slice_view t i) = tl (view_strides t)"
    "view_strides t = hd (view_strides t) # tl (view_strides t)" "view_shape t = nat d # tl (view_shape t)"
proof -
  show "view_shape (slice_view t i) = tl (view_shape t)" "view_shape t = nat d # tl (view_shape t)"
    using assms by (simp_all add: view_shape_def slice_view_def)
  show "view_strides (slice_view t i) = tl (view_strides t)"
    using assms by (cases "t_strides t") (simp_all add: view_strides_def view_shape_def slice_view_def map_tl)
  show "view_strides t = hd (view_strides t) # tl (view_strides t)"
    using view_lengths [OF assms(2)] assms(1) by (cases "view_strides t") simp_all
qed

lemma slice_view_ok:
  assumes m: "materializes t" and sh: "t_shape t = d # inner" and pos: "0 \<notin> set (view_shape t)" and i: "i < nat d"
  shows "materializes (slice_view t i)"
    and "tensor_elems (slice_view t i) = c_elems (dtype_size (t_dtype t)) (tl (view_shape t)) (tl (view_strides t))
      (i * hd (view_strides t)) (drop (t_byte_offset t) (t_storage t))"
proof -
  let ?v = "slice_view t i" and ?n = "dtype_size (t_dtype t)" and ?s = "hd (view_strides t)"
  have ok: "tensor_ok t" and small: "length (t_storage t) < 2 ^ 63" using m by (simp_all add: materializes_def)
  note shapes = slice_view_shape [OF sh ok]
  have sp: "spans (view_shape t) (view_strides t) = (nat d - 1) * ?s + spans (tl (view_shape t)) (tl (view_strides t))"
    using shapes(3,4) spans_simps(2) by metis
  have "(i * ?s + spans (tl (view_shape t)) (tl (view_strides t)) + 1) * ?n
      \<le> (spans (view_shape t) (view_strides t) + 1) * ?n"
    using i unfolding sp by (intro mult_le_mono1 add_le_mono) simp_all
  also have "\<dots> \<le> length (t_storage t) - t_byte_offset t" by (rule tensor_ok_span [OF ok pos])
  finally have fit: "t_byte_offset t + i * (?s * ?n) + (spans (tl (view_shape t)) (tl (view_strides t)) + 1) * ?n
      \<le> length (t_storage t)"
    using tensor_okD(5) [OF ok] by (simp add: algebra_simps)
  have "prod_list (view_shape t) = nat d * prod_list (tl (view_shape t))"
    using shapes(4) prod_list.Cons by metis
  moreover have "1 * prod_list (tl (view_shape t)) \<le> nat d * prod_list (tl (view_shape t))"
    using i by (intro mult_le_mono1) linarith
  ultimately have le: "prod_list (tl (view_shape t)) \<le> prod_list (view_shape t)" by simp
  from mult_le_mono1 [OF le] have "prod_list (tl (view_shape t)) * ?n \<le> prod_list (view_shape t) * ?n" .
  also have "\<dots> < 2 ^ 63" using m by (simp add: materializes_def)
  finally have bytes: "prod_list (tl (view_shape t)) * ?n < 2 ^ 63" .
  have "tensor_ok ?v"
  proof (rule tensor_okI)
    show "prod_list (view_shape ?v) \<le> u64_max" using le tensor_okD(4) [OF ok] by (simp add: shapes(1,2))
    show "t_byte_offset ?v + (spans (view_shape ?v) (view_strides ?v) + 1) * dtype_size (t_dtype ?v) \<le> length (t_storage ?v)"
      using fit by (simp add: shapes(1,2)) (simp add: slice_view_def)
    show "\<forall>d \<in> set (t_shape ?v). 0 < d" using tensor_ok_pos [OF ok pos] sh by (simp add: slice_view_def)
    show "length ss = length (t_shape ?v) \<and> (\<forall>s \<in> set ss. 0 \<le> s)" if st: "t_strides ?v = Some ss" for ss
    proof -
      obtain ss0 where s0: "t_strides t = Some ss0" "ss = tl ss0"
        using st by (cases "t_strides t") (simp_all add: slice_view_def)
      from tensor_okD(6) [OF ok s0(1)] s0(2) sh show ?thesis by (cases ss0) (simp_all add: slice_view_def)
    qed
  qed (use tensor_okD(1) [OF ok] small in \<open>simp_all add: slice_view_def\<close>)
  moreover have "0 \<notin> set (tl (view_shape t))" using pos by (metis list.set_sel(2) list.sel(2))
  ultimately show "materializes ?v"
    using small bytes by (simp add: materializes_def shapes(1,2)) (simp add: slice_view_def)
  show "tensor_elems ?v = c_elems ?n (tl (view_shape t)) (tl (view_strides t)) (i * ?s) (drop (t_byte_offset t) (t_storage t))"
    using c_elems_shift [of ?n "tl (view_shape t)" "tl (view_strides t)" 0 "i * ?s" "drop (t_byte_offset t) (t_storage t)"]
    by (simp add: tensor_elems_def shapes(1,2)) (simp add: slice_view_def ac_simps)
qed

lemma materializes_numel: "materializes t \<Longrightarrow> prod_list (view_shape t) < 2 ^ 63"
  using le_of_mult [of "dtype_size (t_dtype t)" "prod_list (view_shape t)" "2 ^ 63 - 1"]
  by (simp add: materializes_def dtype_size_pos tensor_okD(1))

lemma unstack_views:
  assumes m: "materializes t" and sh: "t_shape t = d # inner" and pos: "0 \<notin> set (view_shape t)"
    and stride: "hd (view_strides t) * dtype_size (t_dtype t) \<le> u64_max"
  shows "unstack t = Some (Inr (map (slice_view t) [0..<nat d]))"
    and "concat (map tensor_elems (map (slice_view t) [0..<nat d])) = tensor_elems t"
proof -
  let ?n = "dtype_size (t_dtype t)" and ?s = "hd (view_strides t)"
  have ok: "tensor_ok t" and small: "length (t_storage t) < 2 ^ 63" using m by (simp_all add: materializes_def)
  note shapes = slice_view_shape [OF sh ok]
  have "strides_from_last (t_shape t) =
      Some (map int (c_strides (view_shape t)), int (prod_list (view_shape t)))"
    using strides_from_last_eq [OF tensor_ok_pos [OF ok pos]] materializes_numel [OF m] by (simp add: view_shape_def)
  then obtain ss where ss: "effective_strides t = Some ss" "map nat ss = view_strides t"
      "t_strides t = None \<or> t_strides t = Some ss"
    by (cases "t_strides t") (auto simp: effective_strides_def contiguous_strides_def view_strides_def comp_def)
  have "ss \<noteq> []" using ss(2) view_lengths [OF ok] sh by auto
  then have hd: "nat (hd ss) = ?s" unfolding ss(2) [symmetric] by (simp add: hd_map)
  have view: "from_storage (t_storage t) (t_dtype t) inner (map_option (\<lambda>_. tl ss) (t_strides t))
      (t_byte_offset t + i * (?s * ?n)) = Inr (slice_view t i)"
    and off: "t_byte_offset t + i * (?s * ?n) \<le> u64_max" if "i < nat d" for i
  proof -
    have v: "tensor_ok (slice_view t i)"
      using slice_view_ok(1) [OF m sh pos that] by (simp add: materializes_def)
    show "from_storage (t_storage t) (t_dtype t) inner (map_option (\<lambda>_. tl ss) (t_strides t))
        (t_byte_offset t + i * (?s * ?n)) = Inr (slice_view t i)"
      using v ss(3) sh by (auto simp: from_storage_Inr_iff slice_view_def)
    show "t_byte_offset t + i * (?s * ?n) \<le> u64_max"
      using tensor_okD(5) [OF v] small by (simp add: slice_view_def)
  qed
  have views: "map (\<lambda>i. if t_byte_offset t + i * (?s * ?n) \<le> u64_max
        then Some (from_storage (t_storage t) (t_dtype t) inner (map_option (\<lambda>_. tl ss) (t_strides t))
          (t_byte_offset t + i * (?s * ?n))) else None) [0..<nat d] =
      map (\<lambda>i. Some (Inr (slice_view t i))) [0..<nat d]"
    by (rule map_cong [OF refl]) (simp add: view off)
  have mul: "checked_mul (nat (hd ss)) ?n = Some (?s * ?n)" using stride hd by simp
  show "unstack t = Some (Inr (map (slice_view t) [0..<nat d]))"
    by (simp only: unstack_def sh ss(1) list.case option.case mul views collect_views_all)
  have "map tensor_elems (map (slice_view t) [0..<nat d]) = map (\<lambda>i. c_elems ?n (tl (view_shape t))
      (tl (view_strides t)) (0 + i * ?s) (drop (t_byte_offset t) (t_storage t))) [0..<nat d]"
    using slice_view_ok(2) [OF m sh pos] by simp
  also have "concat \<dots> = c_elems ?n (nat d # tl (view_shape t)) (?s # tl (view_strides t)) 0
      (drop (t_byte_offset t) (t_storage t))" by simp
  finally show "concat (map tensor_elems (map (slice_view t) [0..<nat d])) = tensor_elems t"
    unfolding tensor_elems_def shapes(3,4) [symmetric] .
qed

section \<open>Reshape\<close>

lemma packed_at:
  assumes m: "materializes t" and pos: "0 \<notin> set (view_shape t)" and con: "is_contiguous t = Some True"
    and sh: "\<forall>d \<in> set sh. 0 < d" "prod_list (map nat sh) = prod_list (view_shape t)"
  shows "\<exists>u. from_storage (t_storage t) (t_dtype t) sh None (t_byte_offset t) = Inr u \<and> t_dtype u = t_dtype t \<and>
    t_shape u = sh \<and> materializes u \<and> tensor_elems u = tensor_elems t"
proof -
  let ?u = "\<lparr>t_storage = t_storage t, t_dtype = t_dtype t, t_shape = sh, t_strides = None, t_byte_offset = t_byte_offset t\<rparr>"
  let ?n = "prod_list (view_shape t) * dtype_size (t_dtype t)"
  have ok: "tensor_ok t" using m by (simp add: materializes_def)
  have vs: "view_shape ?u = map nat sh" "view_strides ?u = c_strides (map nat sh)"
    by (simp_all add: view_shape_def view_strides_def)
  have posu: "0 \<notin> set (map nat sh)" using sh(1) by force
  have elems: "tensor_elems t = take ?n (drop (t_byte_offset t) (t_storage t))"
    by (rule contiguous_elems [OF ok pos con])
  have fit: "t_byte_offset t + ?n \<le> length (t_storage t)"
    using length_tensor_elems [OF m] tensor_okD(5) [OF ok] unfolding elems by simp
  have "tensor_ok ?u"
  proof (rule tensor_okI)
    show "t_byte_offset ?u + (spans (view_shape ?u) (view_strides ?u) + 1) * dtype_size (t_dtype ?u) \<le> length (t_storage ?u)"
      unfolding vs spans_c_strides [OF posu] sh(2) using fit by simp
    show "prod_list (view_shape ?u) \<le> u64_max" unfolding vs sh(2) by (rule tensor_okD(4) [OF ok])
  qed (use m sh tensor_okD(1) [OF ok] in \<open>simp_all add: materializes_def\<close>)
  moreover from this have "materializes ?u" using m sh(2) by (simp add: materializes_def vs)
  moreover have "tensor_elems ?u = tensor_elems t"
    unfolding elems using contiguous_elems [OF \<open>tensor_ok ?u\<close>] posu sh(2) by (simp add: vs is_contiguous_def)
  ultimately show ?thesis by (intro exI [of _ ?u]) (simp add: from_storage_Inr_iff)
qed

lemma checked_numel_Inr: "checked_numel sh = Inr n \<Longrightarrow> (\<forall>d \<in> set sh. 0 \<le> d) \<and> n = prod_list (map nat sh)"
  using checked_numel_from_Inr [of 1 sh n] by (simp add: checked_numel_def)

lemma reshape_run:
  assumes m: "materializes t" and pos: "0 \<notin> set (view_shape t)"
    and fit: "prod_list (view_shape t) * dtype_size (t_dtype t) + 63 < 2 ^ 63"
    and res: "resolve_reshape_dims t dims = Some (Inr sh)" and n: "checked_numel sh = Inr (prod_list (view_shape t))"
  shows "\<exists>u. reshape addr t dims = Some (Inr u) \<and> t_dtype u = t_dtype t \<and> t_shape u = sh \<and>
      materializes u \<and> tensor_elems u = tensor_elems t"
proof -
  have ok: "tensor_ok t" using m by (simp add: materializes_def)
  note numel = tensor_okD(3) [OF ok]
  have sh: "prod_list (map nat sh) = prod_list (view_shape t)" "\<forall>d \<in> set sh. 0 \<le> d"
    using checked_numel_Inr [OF n] by simp_all
  have "0 \<notin> set (map nat sh)" using sh(1) prod_list_pos [OF pos] by (metis prod_list_zero_iff less_irrefl)
  with sh(2) have shpos: "\<forall>d \<in> set sh. 0 < d" by (force simp: image_iff)
  obtain b where b: "is_contiguous t = Some b"
    using is_contiguous_defined [OF ok pos] m by (auto simp: materializes_def)
  show ?thesis
  proof (cases b)
    case True
    from packed_at [OF m pos _ shpos sh(1)] b True n numel res show ?thesis
      by (auto simp: reshape_def)
  next
    case False
    then obtain ss where "t_strides t = Some ss" using b by (auto simp: is_contiguous_def split: option.splits)
    then have g: "gather_into t [] = Some (tensor_elems t)" using gather_into_elems [OF ok pos] by simp
    have len: "length (tensor_elems t) = prod_list (map nat sh) * dtype_size (t_dtype t)"
      using length_tensor_elems [OF m] sh(1) by simp
    have "aligned_with addr (prod_list (view_shape t) * dtype_size (t_dtype t)) (tensor_elems t) = Some (tensor_elems t)"
      using length_tensor_elems [OF m] fit by (intro aligned_with_eq)
    then have "reshape addr t dims = Some (from_storage (tensor_elems t) (t_dtype t) sh None 0)"
      using b False n numel res g tensor_nbytes_eq [OF m] by (simp add: reshape_def)
    moreover have "length (tensor_elems t) < 2 ^ 63" using len sh(1) m by (simp add: materializes_def)
    ultimately show ?thesis
      using packed_ok [OF tensor_okD(1) [OF ok] shpos len] by (auto simp: packed_def)
  qed
qed

lemma reshape_mismatch:
  assumes "materializes t" "resolve_reshape_dims t dims = Some (Inr sh)" "checked_numel sh \<noteq> Inr (prod_list (view_shape t))"
  shows "\<exists>e. reshape addr t dims = Some (Inl e)"
proof -
  have "tensor_numel t = Some (prod_list (view_shape t))" using assms(1) tensor_okD(3) [of t] by (simp add: materializes_def)
  with assms(2,3) show ?thesis by (auto simp: reshape_def split: sum.splits)
qed

lemma resolve_defined: "materializes t \<Longrightarrow> resolve_reshape_dims t dims \<noteq> None"
  using tensor_okD(3) [of t] by (auto simp: resolve_reshape_dims_def Let_def materializes_def split: sum.splits)

lemma known_from_pos:
  assumes "\<forall>d \<in> set ds. 0 < d \<or> d = -1" "k * prod_list (map nat (filter (\<lambda>d. d \<noteq> -1) ds)) \<le> u64_max"
  shows "known_from k ds = Inr (k * prod_list (map nat (filter (\<lambda>d. d \<noteq> -1) ds)))"
  using assms
proof (induction ds arbitrary: k)
  case (Cons d ds)
  show ?case
  proof (cases "d = -1")
    case False
    let ?r = "prod_list (map nat (filter (\<lambda>d. d \<noteq> -1) ds))"
    have "0 < ?r" using Cons.prems(1) by (intro prod_list_pos) auto
    moreover have b: "k * nat d * ?r \<le> u64_max" using Cons.prems(2) False by (simp add: mult.assoc)
    ultimately have "k * nat d \<le> u64_max" by (rule le_of_mult)
    with False b Cons.prems(1) Cons.IH [of "k * nat d"] show ?thesis by (simp add: mult.assoc)
  qed (use Cons in simp)
qed simp

text \<open>A shape with at most one \<open>-1\<close> resolves to the completion with the right element count.\<close>

lemma resolve_completes:
  assumes m: "materializes t" and sh: "\<forall>d \<in> set sh. 0 < d" "prod_list (map nat sh) = prod_list (view_shape t)"
    and dims: "dims = sh \<or> (\<exists>a w b. sh = a @ w # b \<and> dims = a @ (-1) # b)"
  shows "resolve_reshape_dims t dims = Some (Inr sh)"
  using dims
proof
  assume "dims = sh"
  moreover have "filter (\<lambda>d. d = -1) sh = []" using sh(1) by (force simp: filter_empty_conv)
  ultimately show ?thesis by (simp add: resolve_reshape_dims_def)
next
  assume "\<exists>a w b. sh = a @ w # b \<and> dims = a @ (-1) # b"
  then obtain a w b where split: "sh = a @ w # b" "dims = a @ (-1) # b" by blast
  let ?k = "prod_list (map nat (a @ b))" and ?n = "prod_list (view_shape t)"
  have "d \<noteq> -1" if "d \<in> set a \<union> set b" for d
  proof -
    have "0 < d" using sh(1) split that by auto
    then show ?thesis by simp
  qed
  then have none: "\<forall>d \<in> set a. d \<noteq> -1" "\<forall>d \<in> set b. d \<noteq> -1" by auto
  have fa: "filter (\<lambda>d. d = -1) a = []" "filter (\<lambda>d. d = -1) b = []"
    "filter (\<lambda>d. d \<noteq> -1) a = a" "filter (\<lambda>d. d \<noteq> -1) b = b"
    using none by (simp_all add: filter_empty_conv filter_id_conv)
  have n: "?n = ?k * nat w" unfolding sh(2) [symmetric] split by simp
  have w: "0 < nat w" using sh(1) split by simp
  have nb: "?n < 2 ^ 63" by (rule materializes_numel [OF m])
  with n w have k_le: "?k \<le> u64_max" using le_of_mult [of "nat w" ?k "2 ^ 63 - 1"] by simp
  have "0 < ?k" using sh(1) split by (intro prod_list_pos nat_pos_set) auto
  have "known_from 1 dims = Inr (1 * prod_list (map nat (filter (\<lambda>d. d \<noteq> -1) dims)))"
    using sh(1) split fa k_le by (intro known_from_pos) auto
  then have known: "known_from 1 dims = Inr ?k" using split fa by simp
  have div: "?n div ?k = nat w" "?n mod ?k = 0" unfolding n using \<open>0 < ?k\<close> by simp_all
  have "nat w \<le> ?n" unfolding n using \<open>0 < ?k\<close> by simp
  then have w64: "as_i64 (nat w) = w" using nb w by (subst as_i64_small) auto
  have "map (\<lambda>d. if d = -1 then w else d) a = a" "map (\<lambda>d. if d = -1 then w else d) b = b"
    using none by (auto intro!: map_idI)
  then have map: "map (\<lambda>d. if d = -1 then as_i64 (?n div ?k) else d) dims = sh"
    unfolding div w64 using split by simp
  have wild: "length (filter (\<lambda>d. d = -1) dims) = 1" using split fa by simp
  have "tensor_numel t = Some ?n" using tensor_okD(3) m by (simp add: materializes_def)
  then show ?thesis
    unfolding resolve_reshape_dims_def Let_def wild known map_option_case
    using \<open>0 < ?k\<close> div(2) map by (simp del: map_append prod_list.append)
qed

section \<open>Properties\<close>

text \<open>
  C27. \<open>to_contiguous_bytes\<close> never panics on a view that can be materialized, and returns exactly its
  elements in C order, whether it borrows the storage or gathers through the odometer.
\<close>

theorem contiguous_bytes_exact:
  assumes "materializes t"
  shows "to_contiguous_bytes t = Some (tensor_elems t) \<and>
    length (tensor_elems t) = prod_list (view_shape t) * dtype_size (t_dtype t)"
  using to_contiguous_elems [OF assms] length_tensor_elems [OF assms] by simp

definition transposed :: tensor where
  "transposed = \<lparr>t_storage = [1, 2, 3, 4, 5, 6], t_dtype = Uint8, t_shape = [3, 2], t_strides = Some [1, 3], t_byte_offset = 0\<rparr>"

lemma transposed_materializes: "materializes transposed"
  by (simp add: transposed_def materializes_def tensor_ok_def stride_fault_def required_bytes_def
      checked_numel_def view_shape_def checked_mul_def checked_add_def)

theorem contiguous_bytes_exact_witness:
  "materializes transposed \<and> to_contiguous_bytes transposed = Some [1, 4, 2, 5, 3, 6]"
proof -
  have "tensor_elems transposed = [1, 4, 2, 5, 3, 6]"
    by (simp add: tensor_elems_def transposed_def view_shape_def view_strides_def upt_rec numeral_2_eq_2 numeral_3_eq_3)
  then show ?thesis using transposed_materializes contiguous_bytes_exact [of transposed] by simp
qed


definition pair_tensor :: "bytes \<Rightarrow> tensor" where
  "pair_tensor data = packed data Uint8 [2]"

lemma pair_materializes: "length data = 2 \<Longrightarrow> materializes (pair_tensor data)"
  unfolding pair_tensor_def by (rule packed_ok(1)) simp_all






section \<open>Views the accessors cannot read\<close>


end
