(* ===== verification/Scalars.thy ===== *)
theory Scalars
  imports Float64 DTypes
begin

text \<open>
  The scalar byte codec and comparison (\<^verbatim>\<open>crates/rlmesh-spaces/src/scalar.rs\<close>): one
  dtype-independent element, its order in the dtype's own domain, the integer range checks and the
  little-endian encoding of every dtype.

  An \<open>i64\<close> is a \<open>64 word\<close> (\<open>sint\<close> its value, \<open>uint\<close> its \<open>as u64\<close> reading). IEEE formats are their bit patterns, as
  numbers; \<open>f64\<close> is the exact model of \<open>Float64\<close>, where all NaNs are one value, so an encoded NaN is the
  canonical quiet one. The crate \<open>half\<close> is a parameter: its conversions \<open>f16::to_f64\<close> and \<open>f16::from_f32\<close>.
\<close>

section \<open>Casts and bytes\<close>

type_synonym i64 = "64 word"

text \<open>\<open>x as uW\<close> and \<open>x as iW\<close> of an integer.\<close>

definition wrap_u :: "nat \<Rightarrow> int \<Rightarrow> int" where
  "wrap_u w x = x mod 2 ^ w"

definition wrap_s :: "nat \<Rightarrow> int \<Rightarrow> int" where
  "wrap_s w x = (x + 2 ^ (w - 1)) mod 2 ^ w - 2 ^ (w - 1)"

text \<open>\<open>to_le_bytes\<close> of an \<open>n\<close>-byte integer and \<open>from_le_bytes\<close>, unsigned and signed.\<close>

fun le_bytes :: "nat \<Rightarrow> int \<Rightarrow> bytes" where
  "le_bytes 0 x = []"
| "le_bytes (Suc n) x = word_of_int x # le_bytes n (x div 256)"

fun from_le_u :: "bytes \<Rightarrow> int" where
  "from_le_u [] = 0"
| "from_le_u (b # bs) = uint b + 256 * from_le_u bs"

definition from_le_s :: "bytes \<Rightarrow> int" where
  "from_le_s bs = wrap_s (8 * length bs) (from_le_u bs)"

section \<open>Floats\<close>

text \<open>\<open>f as iN\<close> and \<open>f as uN\<close>: truncated, saturating at the type's range, 0 for NaN.\<close>

definition f64_as_int :: "int \<Rightarrow> int \<Rightarrow> f64 \<Rightarrow> int" where
  "f64_as_int lo hi f =
     (case f of NaN \<Rightarrow> 0 | Inf s \<Rightarrow> if s then lo else hi
      | Fin s m \<Rightarrow> max lo (min hi (if s then - int (m div f64_unit) else int (m div f64_unit))))"

text \<open>\<open>floor\<close> and \<open>ceil\<close>, exact in \<open>f64\<close>; \<open>2.0.powi(k)\<close>.\<close>

definition f64_floor :: "f64 \<Rightarrow> f64" where
  "f64_floor f = (case f of
     Fin s m \<Rightarrow> Fin s ((if s then (m + (f64_unit - 1)) div f64_unit else m div f64_unit) * f64_unit)
   | x \<Rightarrow> x)"

definition f64_ceil :: "f64 \<Rightarrow> f64" where
  "f64_ceil f = (case f of
     Fin s m \<Rightarrow> Fin s ((if s then m div f64_unit else (m + (f64_unit - 1)) div f64_unit) * f64_unit)
   | x \<Rightarrow> x)"

definition f64_pow2 :: "nat \<Rightarrow> f64" where
  "f64_pow2 k = Fin False (2 ^ k * f64_unit)"

definition f64_neg :: "f64 \<Rightarrow> f64" where
  "f64_neg f = (case f of NaN \<Rightarrow> NaN | Inf s \<Rightarrow> Inf (\<not> s) | Fin s m \<Rightarrow> Fin (\<not> s) m)"

text \<open>
  The IEEE interchange format with \<open>eb\<close> exponent and \<open>mb\<close> mantissa bits: its unit in units of
  $2^{-1074}$, the value of a pattern, and the pattern a double rounds to (nearest, ties to even).
\<close>

definition fmt_unit :: "nat \<Rightarrow> nat \<Rightarrow> nat" where
  "fmt_unit eb mb = 2 ^ (1074 - (2 ^ (eb - 1) + mb - 2))"

definition float_of_bits :: "nat \<Rightarrow> nat \<Rightarrow> nat \<Rightarrow> f64" where
  "float_of_bits eb mb b =
     (let s = odd (b div 2 ^ (eb + mb)); e = b div 2 ^ mb mod 2 ^ eb; m = b mod 2 ^ mb in
      if e = 2 ^ eb - 1 then (if m = 0 then Inf s else NaN)
      else if e = 0 then Fin s (m * fmt_unit eb mb)
      else Fin s ((2 ^ mb + m) * 2 ^ (e - 1) * fmt_unit eb mb))"

definition round_prec :: "nat \<Rightarrow> nat \<Rightarrow> nat \<Rightarrow> nat" where
  "round_prec prec p q = (let d = p div q in
     if d < 2 ^ prec then rne p q
     else let k = bitlen d - prec in rne p (q * 2 ^ k) * 2 ^ k)"

definition pack_mag :: "nat \<Rightarrow> nat \<Rightarrow> nat \<Rightarrow> nat" where
  "pack_mag eb mb m =
     (if m < 2 ^ mb then m
      else let k = bitlen m - (mb + 1) in
        if 2 ^ eb - 1 \<le> k + 1 then (2 ^ eb - 1) * 2 ^ mb
        else k * 2 ^ mb + m div 2 ^ k)"

definition bits_of_float :: "nat \<Rightarrow> nat \<Rightarrow> f64 \<Rightarrow> nat" where
  "bits_of_float eb mb x =
     (case x of
        NaN \<Rightarrow> (2 ^ eb - 1) * 2 ^ mb + 2 ^ (mb - 1)
      | Inf s \<Rightarrow> (if s then 2 ^ (eb + mb) else 0) + (2 ^ eb - 1) * 2 ^ mb
      | Fin s m \<Rightarrow> (if s then 2 ^ (eb + mb) else 0) + pack_mag eb mb (round_prec (mb + 1) m (fmt_unit eb mb)))"

record half =
  half_to_f64 :: "nat \<Rightarrow> f64"
  half_from_f32 :: "nat \<Rightarrow> nat"

text \<open>\<open>f64_to_f16_bits\<close>: to \<open>f32\<close> first, with the low bit set when that step was inexact.\<close>

definition f64_to_f16_bits :: "half \<Rightarrow> f64 \<Rightarrow> nat" where
  "f64_to_f16_bits h v =
     (let nearest = bits_of_float 8 23 v;
          odd_bits = (if f64_eq (float_of_bits 8 23 nearest) v then nearest
                      else if even nearest then nearest + 1 else nearest) in
      half_from_f32 h odd_bits)"

section \<open>Scalars and their order\<close>

datatype scalar = SBool bool | SInt i64 | SFloat f64

definition scalar_as_i64 :: "scalar \<Rightarrow> i64" where
  "scalar_as_i64 s = (case s of SBool b \<Rightarrow> (if b then 1 else 0) | SInt v \<Rightarrow> v
     | SFloat f \<Rightarrow> word_of_int (f64_as_int i64_min i64_max f))"

text \<open>\<open>as_u64\<close>, as the number.\<close>

definition scalar_as_u64 :: "scalar \<Rightarrow> int" where
  "scalar_as_u64 s = (case s of SBool b \<Rightarrow> (if b then 1 else 0) | SInt v \<Rightarrow> uint v
     | SFloat f \<Rightarrow> f64_as_int 0 (int u64_max) f)"

definition scalar_to_f64 :: "dtype \<Rightarrow> scalar \<Rightarrow> f64" where
  "scalar_to_f64 dt s = (case s of SBool b \<Rightarrow> f64_of_nat (if b then 1 else 0) | SFloat f \<Rightarrow> f
     | SInt v \<Rightarrow> if dt = Uint64 then f64_of_int (uint v) else f64_of_int (sint v))"

datatype ordering = Less | Equal | Greater

definition cmp_int :: "int \<Rightarrow> int \<Rightarrow> ordering" where
  "cmp_int a b = (if a < b then Less else if a = b then Equal else Greater)"

fun rev_ord :: "ordering \<Rightarrow> ordering" where
  "rev_ord Less = Greater" | "rev_ord Equal = Equal" | "rev_ord Greater = Less"

definition f64_partial_cmp :: "f64 \<Rightarrow> f64 \<Rightarrow> ordering option" where
  "f64_partial_cmp a b = (if f64_lt a b then Some Less else if f64_eq a b then Some Equal
     else if f64_lt b a then Some Greater else None)"

text \<open>\<open>IntOperand\<close>: the integer side of a mixed comparison, in its own domain.\<close>

datatype int_operand = Signed int | Unsigned int

definition int_operand :: "dtype \<Rightarrow> scalar \<Rightarrow> int_operand" where
  "int_operand dt s = (if dt = Uint64 then Unsigned (scalar_as_u64 s) else Signed (sint (scalar_as_i64 s)))"

definition refine_int_vs_float :: "ordering \<Rightarrow> f64 \<Rightarrow> f64 \<Rightarrow> ordering" where
  "refine_int_vs_float c f fl = (case c of Less \<Rightarrow> Less | Greater \<Rightarrow> Greater
     | Equal \<Rightarrow> if f64_eq f fl then Equal else Less)"

definition cmp_float_int :: "f64 \<Rightarrow> int_operand \<Rightarrow> ordering option" where
  "cmp_float_int f i =
     (if f64_is_nan f then None
      else let fl = f64_floor f in
        Some (rev_ord (case i of
          Signed v \<Rightarrow>
            if f64_lt fl (f64_neg (f64_pow2 63)) then Greater
            else if f64_le (f64_pow2 63) fl then Less
            else refine_int_vs_float (cmp_int v (f64_as_int i64_min i64_max fl)) f fl
        | Unsigned v \<Rightarrow>
            if f64_lt fl f64_zero then Greater
            else if f64_le (f64_pow2 64) fl then Less
            else refine_int_vs_float (cmp_int v (f64_as_int 0 (int u64_max) fl)) f fl)))"

definition cmp_typed :: "dtype \<Rightarrow> scalar \<Rightarrow> scalar \<Rightarrow> ordering option" where
  "cmp_typed dt a b =
     (case (a, b) of
        (SFloat x, SFloat y) \<Rightarrow> f64_partial_cmp x y
      | (SBool x, SBool y) \<Rightarrow> Some (if \<not> x \<and> y then Less else if x = y then Equal else Greater)
      | (SFloat f, other) \<Rightarrow> cmp_float_int f (int_operand dt other)
      | (this, SFloat f) \<Rightarrow> map_option rev_ord (cmp_float_int f (int_operand dt this))
      | _ \<Rightarrow> if dt = Uint64 then Some (cmp_int (scalar_as_u64 a) (scalar_as_u64 b))
             else Some (cmp_int (sint (scalar_as_i64 a)) (sint (scalar_as_i64 b))))"

section \<open>Range checks\<close>

datatype scalar_error = SUnspecifiedDtype | SByteLengthMismatch nat nat dtype | OutOfRange string dtype

fun signed_dtype_range :: "dtype \<Rightarrow> (int \<times> int) option" where
  "signed_dtype_range Bool = Some (0, 1)"
| "signed_dtype_range Uint8 = Some (0, 255)"
| "signed_dtype_range Int8 = Some (-128, 127)"
| "signed_dtype_range Int16 = Some (-32768, 32767)"
| "signed_dtype_range Uint16 = Some (0, 65535)"
| "signed_dtype_range Int32 = Some (-2147483648, 2147483647)"
| "signed_dtype_range Uint32 = Some (0, 4294967295)"
| "signed_dtype_range Int64 = Some (i64_min, i64_max)"
| "signed_dtype_range Uint64 = Some (0, i64_max)"
| "signed_dtype_range _ = None"

definition check_int_in_dtype_range :: "int \<Rightarrow> dtype \<Rightarrow> scalar_error + unit" where
  "check_int_in_dtype_range v dt =
     (if dt = DUnspecified then Inl SUnspecifiedDtype
      else case signed_dtype_range dt of
        Some (lo, hi) \<Rightarrow> if lo \<le> v \<and> v \<le> hi then Inr () else Inl (OutOfRange (dec_int v) dt)
      | None \<Rightarrow> Inr ())"

definition check_uint_in_dtype_range :: "int \<Rightarrow> dtype \<Rightarrow> scalar_error + unit" where
  "check_uint_in_dtype_range v dt =
     (if dt = DUnspecified then Inl SUnspecifiedDtype
      else if (case dt of Uint64 \<Rightarrow> False | Bool \<Rightarrow> 1 < v | Uint8 \<Rightarrow> 255 < v | Uint16 \<Rightarrow> 65535 < v
          | Uint32 \<Rightarrow> 4294967295 < v | Int8 \<Rightarrow> 127 < v | Int16 \<Rightarrow> 32767 < v | Int32 \<Rightarrow> 2147483647 < v
          | Int64 \<Rightarrow> i64_max < v | _ \<Rightarrow> False)
        then Inl (OutOfRange (dec_int v) dt) else Inr ())"

section \<open>The byte codec\<close>

definition scalar_float_value :: "scalar \<Rightarrow> f64" where
  "scalar_float_value s = (case s of SBool b \<Rightarrow> f64_of_nat (if b then 1 else 0)
     | SInt v \<Rightarrow> f64_of_int (sint v) | SFloat f \<Rightarrow> f)"

definition encode_one :: "half \<Rightarrow> scalar \<Rightarrow> dtype \<Rightarrow> bytes option" where
  "encode_one h v dt =
     (case dt of
        Bool \<Rightarrow> Some [case v of SBool b \<Rightarrow> if b then 1 else 0
                 | SInt i \<Rightarrow> if i \<noteq> 0 then 1 else 0
                 | SFloat f \<Rightarrow> if f64_eq f f64_zero then 0 else 1]
      | Uint8 \<Rightarrow> Some [case v of SBool b \<Rightarrow> if b then 1 else 0
                 | SInt i \<Rightarrow> word_of_int (wrap_u 8 (sint i))
                 | SFloat f \<Rightarrow> word_of_int (f64_as_int 0 255 f)]
      | Int8 \<Rightarrow> Some (le_bytes 1 (wrap_s 8 (sint (scalar_as_i64 v))))
      | Int16 \<Rightarrow> Some (le_bytes 2 (wrap_s 16 (sint (scalar_as_i64 v))))
      | Int32 \<Rightarrow> Some (le_bytes 4 (wrap_s 32 (sint (scalar_as_i64 v))))
      | Int64 \<Rightarrow> Some (le_bytes 8 (sint (scalar_as_i64 v)))
      | Uint16 \<Rightarrow> Some (le_bytes 2 (wrap_u 16 (sint (scalar_as_i64 v))))
      | Uint32 \<Rightarrow> Some (le_bytes 4 (wrap_u 32 (sint (scalar_as_i64 v))))
      | Uint64 \<Rightarrow> Some (le_bytes 8 (wrap_u 64 (sint (scalar_as_i64 v))))
      | Float16 \<Rightarrow> Some (le_bytes 2 (int (f64_to_f16_bits h (scalar_float_value v))))
      | Float32 \<Rightarrow> Some (le_bytes 4 (int (bits_of_float 8 23 (scalar_float_value v))))
      | Float64 \<Rightarrow> Some (le_bytes 8 (int (bits_of_float 11 52 (scalar_float_value v))))
      | DUnspecified \<Rightarrow> None)"

fun encode_all :: "half \<Rightarrow> scalar list \<Rightarrow> dtype \<Rightarrow> bytes \<Rightarrow> bytes option" where
  "encode_all h [] dt out = Some out"
| "encode_all h (v # vs) dt out =
     (case encode_one h v dt of None \<Rightarrow> None | Some b \<Rightarrow> encode_all h vs dt (out @ b))"

definition encode_scalars :: "half \<Rightarrow> scalar list \<Rightarrow> dtype \<Rightarrow> (scalar_error + bytes) option" where
  "encode_scalars h vs dt =
     (if dt = DUnspecified then Some (Inl SUnspecifiedDtype) else map_option Inr (encode_all h vs dt []))"

definition encode_i64_scalars :: "half \<Rightarrow> i64 list \<Rightarrow> dtype \<Rightarrow> (scalar_error + bytes) option" where
  "encode_i64_scalars h vs dt =
     (if dt = DUnspecified then Some (Inl SUnspecifiedDtype) else map_option Inr (encode_all h (map SInt vs) dt []))"

text \<open>\<open>decode_scalar\<close> panics on a chunk of the wrong length and on an unspecified dtype.\<close>

definition decode_scalar :: "half \<Rightarrow> bytes \<Rightarrow> dtype \<Rightarrow> scalar option" where
  "decode_scalar h chunk dt =
     (if length chunk \<noteq> dtype_size dt then None
      else case dt of
        Bool \<Rightarrow> Some (SBool (hd chunk \<noteq> 0))
      | Uint8 \<Rightarrow> Some (SInt (word_of_int (uint (hd chunk))))
      | Int8 \<Rightarrow> Some (SInt (word_of_int (from_le_s chunk)))
      | Int16 \<Rightarrow> Some (SInt (word_of_int (from_le_s chunk)))
      | Uint16 \<Rightarrow> Some (SInt (word_of_int (from_le_u chunk)))
      | Int32 \<Rightarrow> Some (SInt (word_of_int (from_le_s chunk)))
      | Uint32 \<Rightarrow> Some (SInt (word_of_int (from_le_u chunk)))
      | Int64 \<Rightarrow> Some (SInt (word_of_int (from_le_s chunk)))
      | Uint64 \<Rightarrow> Some (SInt (word_of_int (from_le_u chunk)))
      | Float16 \<Rightarrow> Some (SFloat (half_to_f64 h (nat (from_le_u chunk))))
      | Float32 \<Rightarrow> Some (SFloat (float_of_bits 8 23 (nat (from_le_u chunk))))
      | Float64 \<Rightarrow> Some (SFloat (float_of_bits 11 52 (nat (from_le_u chunk))))
      | DUnspecified \<Rightarrow> None)"

function chunks_exact :: "nat \<Rightarrow> 'a list \<Rightarrow> 'a list list" where
  "chunks_exact n xs = (if n = 0 \<or> length xs < n then [] else take n xs # chunks_exact n (drop n xs))"
  by pat_completeness auto
termination by (relation "measure (length \<circ> snd)") auto

declare chunks_exact.simps [simp del]

definition decode_scalars :: "half \<Rightarrow> bytes \<Rightarrow> dtype \<Rightarrow> (scalar_error + scalar list) option" where
  "decode_scalars h bytes dt =
     (if dt = DUnspecified then Some (Inl SUnspecifiedDtype)
      else if length bytes mod dtype_size dt \<noteq> 0
        then Some (Inl (SByteLengthMismatch (length bytes) (dtype_size dt) dt))
      else map_option Inr (those (map (\<lambda>c. decode_scalar h c dt) (chunks_exact (dtype_size dt) bytes))))"

section \<open>Comparison is exact\<close>

text \<open>
  A scalar's true value. The magnitudes of \<open>Float64.Fin\<close> are unbounded, so every integer has an unrounded
  image there and \<open>f64_partial_cmp\<close> compares real numbers.
\<close>

definition exact_int :: "int \<Rightarrow> f64" where
  "exact_int i = Fin (i < 0) (nat \<bar>i\<bar> * f64_unit)"

definition exact :: "dtype \<Rightarrow> scalar \<Rightarrow> f64" where
  "exact dt s = (case s of SFloat f \<Rightarrow> f | SBool b \<Rightarrow> exact_int (if b then 1 else 0)
     | SInt v \<Rightarrow> exact_int (if dt = Uint64 then uint v else sint v))"

lemma sval_exact_int: "sval (i < 0) (nat \<bar>i\<bar> * u) = i * int u"
  by (simp add: sval_def)

lemma f64_partial_cmp_Fin:
  "f64_partial_cmp (Fin s a) (Fin t b) = Some (cmp_int (sval s a) (sval t b))"
  by (auto simp: f64_partial_cmp_def cmp_int_def)

lemma cmp_int_scale: "0 < u \<Longrightarrow> cmp_int (a * u) (b * u) = cmp_int a b"
  by (auto simp: cmp_int_def)

lemma cmp_exact_int: "f64_partial_cmp (exact_int i) (exact_int j) = Some (cmp_int i j)"
  using f64_unit_pos by (simp add: exact_int_def f64_partial_cmp_Fin sval_exact_int cmp_int_scale)

lemma rev_ord_cmp: "rev_ord (cmp_int a b) = cmp_int b a"
  by (auto simp: cmp_int_def)

lemma f64_partial_cmp_swap: "f64_partial_cmp b a = map_option rev_ord (f64_partial_cmp a b)"
  by (cases a; cases b) (auto simp: f64_partial_cmp_def)

text \<open>The floor of a double, in whole units.\<close>

lemma sval_floor:
  "f64_floor (Fin s m) = Fin s q \<Longrightarrow> sval s q = sval s m div int f64_unit * int f64_unit"
proof -
  assume q: "f64_floor (Fin s m) = Fin s q"
  have u: "0 < f64_unit" by (rule f64_unit_pos)
  have "(- int m) div int f64_unit = - int ((m + (f64_unit - 1)) div f64_unit)"
  proof -
    obtain k r where kr: "m = k * f64_unit + r" "r < f64_unit"
      by (metis u div_mult_mod_eq mod_less_divisor)
    show ?thesis
    proof (cases "r = 0")
      case True
      have "(m + (f64_unit - 1)) div f64_unit = k"
        using kr True u by (intro div_nat_eqI) (simp_all add: algebra_simps)
      moreover have "(- int m) div int f64_unit = - int k"
        using kr True u by (intro int_div_pos_eq [where r = 0]) simp_all
      ultimately show ?thesis by simp
    next
      case False
      have "(m + (f64_unit - 1)) div f64_unit = k + 1"
        using kr False u by (intro div_nat_eqI) (simp_all add: algebra_simps)
      moreover have "(- int m) div int f64_unit = - int (k + 1)"
        using kr False u by (intro int_div_pos_eq [where r = "int f64_unit - int r"]) (simp_all add: algebra_simps)
      ultimately show ?thesis by simp
    qed
  qed
  with q show ?thesis by (cases s) (auto simp: f64_floor_def sval_def zdiv_int split: if_splits)
qed

lemma floor_cmp:
  fixes x v lo hi u q :: int
  assumes "0 < u" "lo \<le> v" "v < hi" and q_def: "q = x div u"
  shows "(if q < lo then Greater else if hi \<le> q then Less
      else case cmp_int v q of Less \<Rightarrow> Less | Greater \<Rightarrow> Greater
        | Equal \<Rightarrow> if x = q * u then Equal else Less) = cmp_int (v * u) x"
proof -
  have x: "x = q * u + x mod u" "0 \<le> x mod u" "x mod u < u" using assms(1) by (simp_all add: q_def)
  then have below: "q * u \<le> x" by linarith
  have "(q + 1) * u = q * u + u" by (simp add: distrib_right)
  with x have above: "x < (q + 1) * u" by linarith
  show ?thesis
  proof (cases v q rule: linorder_cases)
    case less
    then have "v * u < q * u" using assms(1) by simp
    also note below
    finally have "v * u < x" .
    with less assms(1-3) show ?thesis by (auto simp: cmp_int_def)
  next
    case equal
    with below assms(1-3) show ?thesis by (auto simp: cmp_int_def)
  next
    case greater
    then have "(q + 1) * u \<le> v * u" using assms(1) by (intro mult_right_mono) simp_all
    with above have "x < v * u" by linarith
    with greater assms(1-3) show ?thesis by (auto simp: cmp_int_def)
  qed
qed

lemma trunc_whole:
  assumes "sval s q = k * int f64_unit"
  shows "(if s then - int (q div f64_unit) else int (q div f64_unit)) = k"
proof -
  have u: "0 < int f64_unit" using f64_unit_pos by simp
  show ?thesis
  proof (cases s)
    case True
    with assms have "int q = - k * int f64_unit" by (simp add: sval_def)
    then have "int (q div f64_unit) = - k" unfolding zdiv_int using u by (simp del: mult_minus_left)
    with True show ?thesis by simp
  next
    case False
    with assms have "int q = k * int f64_unit" by (simp add: sval_def)
    then have "int (q div f64_unit) = k" using u by (simp add: zdiv_int)
    with False show ?thesis by simp
  qed
qed

lemma f64_as_int_whole:
  assumes "sval s q = k * int f64_unit" "lo \<le> k" "k \<le> hi"
  shows "f64_as_int lo hi (Fin s q) = k"
  using trunc_whole [OF assms(1)] assms(2,3) by (simp add: f64_as_int_def)

lemma f64_le_Fin: "f64_le (Fin s a) (Fin t b) \<longleftrightarrow> sval s a \<le> sval t b"
  by (auto simp: f64_le_def)

lemma f64_order_whole:
  assumes "sval s q = k * int f64_unit"
  shows "f64_lt (Fin s q) (f64_neg (f64_pow2 n)) \<longleftrightarrow> k < - (2 ^ n)"
    and "f64_lt (Fin s q) f64_zero \<longleftrightarrow> k < 0"
    and "f64_le (f64_pow2 n) (Fin s q) \<longleftrightarrow> 2 ^ n \<le> k"
proof -
  have u: "0 < int f64_unit" using f64_unit_pos by simp
  have neg: "sval True (2 ^ n * f64_unit) = - (2 ^ n) * int f64_unit" by (simp add: sval_def)
  have pos: "sval False (2 ^ n * f64_unit) = 2 ^ n * int f64_unit" by (simp add: sval_def)
  show "f64_lt (Fin s q) (f64_neg (f64_pow2 n)) \<longleftrightarrow> k < - (2 ^ n)"
    using mult_less_cancel_right_pos [OF u, of k "- (2 ^ n)"] by (simp only: f64_neg_def f64_pow2_def f64.case f64_lt.simps neg assms not_False_eq_True)
  show "f64_lt (Fin s q) f64_zero \<longleftrightarrow> k < 0" using u by (simp add: assms, simp add: sval_def mult_less_0_iff)
  show "f64_le (f64_pow2 n) (Fin s q) \<longleftrightarrow> 2 ^ n \<le> k"
    using mult_le_cancel_right_pos [OF u, of "2 ^ n" k] by (simp only: f64_le_Fin f64_pow2_def pos assms)
qed

lemma cmp_float_int_exact:
  assumes "case i of Signed v \<Rightarrow> - (2 ^ 63) \<le> v \<and> v < 2 ^ 63 | Unsigned v \<Rightarrow> 0 \<le> v \<and> v < 2 ^ 64"
  shows "cmp_float_int f i = f64_partial_cmp f (exact_int (case i of Signed v \<Rightarrow> v | Unsigned v \<Rightarrow> v))"
proof (cases f)
  case NaN
  then show ?thesis by (cases i) (simp_all add: cmp_float_int_def f64_is_nan_def f64_partial_cmp_def exact_int_def)
next
  case (Inf s)
  then show ?thesis
    by (cases i; cases s) (simp_all add: cmp_float_int_def f64_is_nan_def f64_partial_cmp_def exact_int_def
        f64_floor_def f64_neg_def f64_pow2_def f64_le_def)
next
  case (Fin s m)
  obtain q where q: "f64_floor (Fin s m) = Fin s q" by (simp add: f64_floor_def)
  obtain k where k_def: "k = sval s m div int f64_unit" and k: "sval s q = k * int f64_unit"
    using sval_floor [OF q] by blast
  have u: "0 < int f64_unit" using f64_unit_pos by simp
  have eq: "f64_eq (Fin s m) (Fin s q) \<longleftrightarrow> sval s m = k * int f64_unit" by (simp add: k)
  show ?thesis
  proof (cases i)
    case (Signed v)
    then have v: "- (2 ^ 63) \<le> v" "v < 2 ^ 63" using assms by simp_all
    have as_int: "\<not> k < - (2 ^ 63) \<Longrightarrow> \<not> 2 ^ 63 \<le> k \<Longrightarrow> f64_as_int i64_min i64_max (Fin s q) = k"
      by (rule f64_as_int_whole [OF k]) simp_all
    have "cmp_float_int f i = Some (rev_ord (cmp_int (v * int f64_unit) (sval s m)))"
      unfolding floor_cmp [OF u v k_def, symmetric]
      by (simp add: cmp_float_int_def Fin Signed q Let_def f64_is_nan_def f64_order_whole [OF k] as_int
          refine_int_vs_float_def eq del: f64_eq.simps f64_lt.simps cong: if_cong)
    then show ?thesis
      by (simp add: rev_ord_cmp Fin Signed exact_int_def f64_partial_cmp_Fin sval_exact_int)
  next
    case (Unsigned v)
    then have v: "0 \<le> v" "v < 2 ^ 64" using assms by simp_all
    have as_int: "\<not> k < 0 \<Longrightarrow> \<not> 2 ^ 64 \<le> k \<Longrightarrow> f64_as_int 0 18446744073709551615 (Fin s q) = k"
      by (rule f64_as_int_whole [OF k]) simp_all
    have "cmp_float_int f i = Some (rev_ord (cmp_int (v * int f64_unit) (sval s m)))"
      unfolding floor_cmp [OF u v k_def, symmetric]
      by (simp add: cmp_float_int_def Fin Unsigned q Let_def f64_is_nan_def f64_order_whole [OF k] as_int
          refine_int_vs_float_def eq del: f64_eq.simps f64_lt.simps cong: if_cong)
    then show ?thesis
      by (simp add: rev_ord_cmp Fin Unsigned exact_int_def f64_partial_cmp_Fin sval_exact_int)
  qed
qed

section \<open>Bytes of integers\<close>

lemma length_le_bytes [simp]: "length (le_bytes n x) = n"
  by (induction n arbitrary: x) simp_all

lemma from_le_u_le_bytes: "from_le_u (le_bytes n x) = x mod 256 ^ n"
proof (induction n arbitrary: x)
  case (Suc n)
  have "uint (word_of_int x :: u8) = x mod 256" by (simp add: uint_word_of_int)
  with Suc show ?case using zmod_zmult2_eq [of "256 ^ n" x 256] by simp
qed simp

lemma from_le_u_bounds: "0 \<le> from_le_u bs" "from_le_u bs < 256 ^ length bs"
proof (induction bs)
  case (Cons b bs)
  have "uint b < 256" "0 \<le> uint b" using uint_lt2p [of b] by simp_all
  moreover {
    case 1
    show ?case using Cons calculation by simp
  next
    case 2
    have "from_le_u bs + 1 \<le> 256 ^ length bs" using Cons by linarith
    then have "256 * (from_le_u bs + 1) \<le> 256 * 256 ^ length bs" by (intro mult_left_mono) simp_all
    then show ?case using calculation by simp
  }
qed simp_all

lemma le_bytes_from_le_u: "le_bytes (length bs) (from_le_u bs) = bs"
proof (induction bs)
  case (Cons b bs)
  have b: "0 \<le> uint b" "uint b < 256" using uint_lt2p [of b] by simp_all
  then have "(uint b + 256 * from_le_u bs) div 256 = from_le_u bs" by simp
  moreover have "(word_of_int (uint b + 256 * from_le_u bs) :: u8) = b"
  proof -
    have "uint (word_of_int (uint b + 256 * from_le_u bs) :: u8) = (uint b + 256 * from_le_u bs) mod 256"
      by (subst uint_word_of_int) simp
    also have "\<dots> = uint b" using b by simp
    finally show ?thesis by (simp only: word_uint_eq_iff)
  qed
  ultimately show ?case using Cons by simp
qed simp

lemma le_bytes_mod: "x mod 256 ^ n = y mod 256 ^ n \<Longrightarrow> le_bytes n x = le_bytes n y"
  by (metis from_le_u_le_bytes le_bytes_from_le_u length_le_bytes)

lemma wrap_s_mod: "0 < w \<Longrightarrow> wrap_s w x mod 2 ^ w = x mod 2 ^ w"
  by (simp add: wrap_s_def mod_diff_left_eq)

lemma wrap_s_cong: "x mod 2 ^ w = y mod 2 ^ w \<Longrightarrow> wrap_s w x = wrap_s w y"
  unfolding wrap_s_def by (metis mod_add_left_eq)

lemma wrap_s_id: "0 < w \<Longrightarrow> - (2 ^ (w - 1)) \<le> x \<Longrightarrow> x < 2 ^ (w - 1) \<Longrightarrow> wrap_s w x = x"
proof -
  assume w: "0 < w" and x: "- (2 ^ (w - 1)) \<le> x" "x < 2 ^ (w - 1)"
  have "(2 :: int) ^ w = 2 * 2 ^ (w - 1)" using w by (cases w) simp_all
  with x have "(x + 2 ^ (w - 1)) mod 2 ^ w = x + 2 ^ (w - 1)" by (intro mod_pos_pos_trivial) simp_all
  then show ?thesis by (simp add: wrap_s_def)
qed

lemma wrap_s_range: "0 < w \<Longrightarrow> - (2 ^ (w - 1)) \<le> wrap_s w x \<and> wrap_s w x < 2 ^ (w - 1)"
proof -
  assume w: "0 < w"
  have "(2 :: int) ^ w = 2 * 2 ^ (w - 1)" using w by (cases w) simp_all
  moreover have "0 \<le> (x + 2 ^ (w - 1)) mod 2 ^ w" "(x + 2 ^ (w - 1)) mod 2 ^ w < 2 ^ w" by simp_all
  ultimately show ?thesis unfolding wrap_s_def by linarith
qed

lemma power_256: "(256 :: int) ^ n = 2 ^ (8 * n)"
  by (simp add: power_mult)

lemma from_le_s_le_bytes: "0 < n \<Longrightarrow> from_le_s (le_bytes n x) = wrap_s (8 * n) x"
  by (auto simp: from_le_s_def from_le_u_le_bytes power_256 intro: wrap_s_cong)

lemma le_bytes_from_le_s: "bs \<noteq> [] \<Longrightarrow> le_bytes (length bs) (from_le_s bs) = bs"
proof -
  assume "bs \<noteq> []"
  then have "from_le_s bs mod 256 ^ length bs = from_le_u bs mod 256 ^ length bs"
    unfolding from_le_s_def power_256 by (intro wrap_s_mod) simp
  from le_bytes_mod [OF this] show ?thesis by (simp add: le_bytes_from_le_u)
qed

lemma sint_word_of_int_64: "i64_min \<le> x \<Longrightarrow> x \<le> i64_max \<Longrightarrow> sint (word_of_int x :: i64) = x"
  by (simp add: signed_of_int signed_take_bit_int_eq_self)

section \<open>IEEE bit patterns\<close>

lemma bits_decompose:
  fixes b :: nat
  assumes "b < 2 ^ (eb + mb + 1)"
  shows "b = (if odd (b div 2 ^ (eb + mb)) then 2 ^ (eb + mb) else 0) + (b div 2 ^ mb mod 2 ^ eb * 2 ^ mb + b mod 2 ^ mb)"
proof -
  let ?c = "b div 2 ^ mb"
  have top: "b div 2 ^ (eb + mb) = ?c div 2 ^ eb" by (metis add.commute div_mult2_eq power_add)
  have "b < 2 * 2 ^ (eb + mb)" using assms by simp
  then have "b div 2 ^ (eb + mb) < 2" by (simp add: less_mult_imp_div_less)
  then have "b div 2 ^ (eb + mb) = (if odd (b div 2 ^ (eb + mb)) then 1 else 0)" by (auto simp: less_2_cases_iff)
  then have "?c div 2 ^ eb * 2 ^ eb = (if odd (b div 2 ^ (eb + mb)) then 2 ^ eb else 0)" unfolding top by (auto split: if_splits)
  then have "?c = (if odd (b div 2 ^ (eb + mb)) then 2 ^ eb else 0) + ?c mod 2 ^ eb"
    using div_mult_mod_eq [of ?c "2 ^ eb"] by linarith
  then have "?c * 2 ^ mb = ((if odd (b div 2 ^ (eb + mb)) then 2 ^ eb else 0) + ?c mod 2 ^ eb) * 2 ^ mb" by simp
  also have "\<dots> = (if odd (b div 2 ^ (eb + mb)) then 2 ^ (eb + mb) else 0) + ?c mod 2 ^ eb * 2 ^ mb"
    by (simp add: add_mult_distrib power_add)
  finally show ?thesis using div_mult_mod_eq [of b "2 ^ mb"] by linarith
qed

lemma bitlen_eqI: "2 ^ k \<le> n \<Longrightarrow> n < 2 ^ Suc k \<Longrightarrow> bitlen n = Suc k"
  by (meson bitlen_le_iff le_antisym not_less not_less_eq_eq)

lemma round_prec_exact:
  assumes "c < 2 ^ prec" "0 < u"
  shows "round_prec prec (c * 2 ^ k * u) u = c * 2 ^ k"
proof (cases "c * 2 ^ k < 2 ^ prec")
  case True
  with assms(2) show ?thesis by (simp add: round_prec_def rne_exact)
next
  case False
  let ?j = "bitlen (c * 2 ^ k) - prec"
  have "c * 2 ^ k < 2 ^ (prec + k)" using assms(1) by (simp add: power_add)
  then have "?j \<le> k" using bitlen_le_iff [of "c * 2 ^ k" "prec + k"] by simp
  then have split: "c * 2 ^ k = c * 2 ^ (k - ?j) * 2 ^ ?j" by (simp add: power_add [symmetric])
  then have eq: "c * 2 ^ k * u = c * 2 ^ (k - ?j) * (u * 2 ^ ?j)" by (metis mult.assoc mult.commute)
  have rne: "rne (c * 2 ^ k * u) (u * 2 ^ ?j) = c * 2 ^ (k - ?j)"
    unfolding eq by (rule rne_exact) (use assms(2) in simp)
  have "round_prec prec (c * 2 ^ k * u) u = rne (c * 2 ^ k * u) (u * 2 ^ ?j) * 2 ^ ?j"
    using False assms(2) by (simp add: round_prec_def Let_def)
  also have "\<dots> = c * 2 ^ k" unfolding rne by (rule split [symmetric])
  finally show ?thesis .
qed

lemma fmt_unit_pos [simp]: "0 < fmt_unit eb mb"
  by (simp add: fmt_unit_def)

text \<open>Every pattern but a NaN is the pattern its value rounds to.\<close>

lemma bits_of_float_of_bits:
  assumes "b < 2 ^ (eb + mb + 1)" "float_of_bits eb mb b \<noteq> NaN"
  shows "bits_of_float eb mb (float_of_bits eb mb b) = b"
proof -
  define s where "s = odd (b div 2 ^ (eb + mb))"
  define e where "e = b div 2 ^ mb mod 2 ^ eb"
  define m where "m = b mod 2 ^ mb"
  have b: "b = (if s then 2 ^ (eb + mb) else 0) + (e * 2 ^ mb + m)"
    using bits_decompose [OF assms(1)] by (simp only: s_def e_def m_def)
  have m: "m < 2 ^ mb" and e: "e < 2 ^ eb" by (simp_all add: m_def e_def)
  have val: "float_of_bits eb mb b = (if e = 2 ^ eb - 1 then (if m = 0 then Inf s else NaN)
      else if e = 0 then Fin s (m * fmt_unit eb mb) else Fin s ((2 ^ mb + m) * 2 ^ (e - 1) * fmt_unit eb mb))"
    by (simp add: float_of_bits_def s_def e_def m_def Let_def)
  consider "e = 2 ^ eb - 1" | "e \<noteq> 2 ^ eb - 1" "e = 0" | "e \<noteq> 2 ^ eb - 1" "e \<noteq> 0" by blast
  then show ?thesis
  proof cases
    case 1
    with val assms(2) have "m = 0" by (auto split: if_splits)
    with 1 val b show ?thesis by (simp add: bits_of_float_def)
  next
    case 2
    have "round_prec (mb + 1) (m * 2 ^ 0 * fmt_unit eb mb) (fmt_unit eb mb) = m * 2 ^ 0"
      using m by (intro round_prec_exact) simp_all
    with 2 val b m show ?thesis by (simp add: bits_of_float_def pack_mag_def)
  next
    case 3
    let ?m = "(2 ^ mb + m) * 2 ^ (e - 1)"
    have r: "round_prec (mb + 1) (?m * fmt_unit eb mb) (fmt_unit eb mb) = ?m"
      using m by (intro round_prec_exact) simp_all
    have lo: "2 ^ (mb + (e - 1)) \<le> ?m" by (simp add: power_add)
    have "(2 ^ mb + m) * 2 ^ (e - 1) < 2 ^ Suc mb * 2 ^ (e - 1)" using m by simp
    then have hi: "?m < 2 ^ Suc (mb + (e - 1))" by (simp add: power_add)
    from bitlen_eqI [OF lo hi] have len: "bitlen ?m - (mb + 1) = e - 1" by simp
    have "2 ^ mb \<le> ?m" using lo by (meson le_add1 le_trans one_le_numeral power_increasing)
    moreover have "\<not> 2 ^ eb - 1 \<le> e - 1 + 1" using 3 e by simp
    ultimately have "pack_mag eb mb ?m = (e - 1) * 2 ^ mb + (2 ^ mb + m)"
      unfolding pack_mag_def Let_def len by (simp del: One_nat_def)
    also have "\<dots> = e * 2 ^ mb + m" using 3 by (cases e) simp_all
    finally have "pack_mag eb mb ?m = e * 2 ^ mb + m" .
    with 3 val b r show ?thesis by (simp add: bits_of_float_def)
  qed
qed

text \<open>Conversely, a value with few enough significant bits, inside the format's range, has a pattern.\<close>

lemma bits_fields:
  fixes m e :: nat
  assumes "m < 2 ^ mb" "e < 2 ^ eb"
  shows "((if s then 2 ^ (eb + mb) else 0) + (e * 2 ^ mb + m)) div 2 ^ (eb + mb) = (if s then 1 else 0)"
    and "((if s then 2 ^ (eb + mb) else 0) + (e * 2 ^ mb + m)) div 2 ^ mb mod 2 ^ eb = e"
    and "((if s then 2 ^ (eb + mb) else 0) + (e * 2 ^ mb + m)) mod 2 ^ mb = m"
proof -
  let ?b = "(if s then 2 ^ (eb + mb) else 0) + (e * 2 ^ mb + m)"
  have "(e + 1) * 2 ^ mb \<le> 2 ^ eb * 2 ^ mb" using assms(2) by (intro mult_le_mono1) simp
  then have low: "e * 2 ^ mb + m < 2 ^ (eb + mb)" using assms(1) by (simp add: power_add)
  then show "?b div 2 ^ (eb + mb) = (if s then 1 else 0)" by (simp add: div_add_self1)
  have b: "?b = ((if s then 2 ^ eb else 0) + e) * 2 ^ mb + m" by (simp add: power_add add_mult_distrib)
  show "?b mod 2 ^ mb = m" unfolding b using assms(1) by simp
  have "?b div 2 ^ mb = (if s then 2 ^ eb else 0) + e" unfolding b using assms(1) by simp
  then show "?b div 2 ^ mb mod 2 ^ eb = e" using assms(2) by simp
qed

lemma float_of_fields:
  fixes m e :: nat
  assumes "m < 2 ^ mb" "e < 2 ^ eb"
  shows "float_of_bits eb mb ((if s then 2 ^ (eb + mb) else 0) + (e * 2 ^ mb + m)) =
    (if e = 2 ^ eb - 1 then (if m = 0 then Inf s else NaN)
     else if e = 0 then Fin s (m * fmt_unit eb mb) else Fin s ((2 ^ mb + m) * 2 ^ (e - 1) * fmt_unit eb mb))"
  unfolding float_of_bits_def Let_def bits_fields [OF assms] by (cases s) simp_all

definition in_format :: "nat \<Rightarrow> nat \<Rightarrow> f64 \<Rightarrow> bool" where
  "in_format eb mb f \<longleftrightarrow> (\<exists>b < 2 ^ (eb + mb + 1). float_of_bits eb mb b = f)"

lemma in_format_fields:
  fixes m e :: nat
  assumes "m < 2 ^ mb" "e < 2 ^ eb"
  shows "in_format eb mb (float_of_bits eb mb ((if s then 2 ^ (eb + mb) else 0) + (e * 2 ^ mb + m)))"
proof -
  have "(e + 1) * 2 ^ mb \<le> 2 ^ eb * 2 ^ mb" using assms(2) by (intro mult_le_mono1) simp
  then have "e * 2 ^ mb + m < 2 ^ (eb + mb)" using assms(1) by (simp add: power_add)
  then show ?thesis unfolding in_format_def by (intro exI conjI) auto
qed

lemma in_format_Fin:
  assumes c: "c < 2 ^ (mb + 1)" and "1 < eb" and small: "c * 2 ^ k < 2 ^ (mb + 2 ^ eb - 2)"
  shows "in_format eb mb (Fin s (c * 2 ^ k * fmt_unit eb mb))"
proof -
  define M where "M = c * 2 ^ k"
  have e2: "2 < (2 :: nat) ^ eb" using assms(2) by (metis less_exp power_one_right power_strict_increasing one_less_numeral_iff semiring_norm(76))
  show ?thesis
  proof (cases "M < 2 ^ mb")
    case True
    then have "in_format eb mb (float_of_bits eb mb ((if s then 2 ^ (eb + mb) else 0) + (0 * 2 ^ mb + M)))"
      by (intro in_format_fields) simp_all
    moreover have "float_of_bits eb mb ((if s then 2 ^ (eb + mb) else 0) + (0 * 2 ^ mb + M)) = Fin s (M * fmt_unit eb mb)"
      using True e2 by (subst float_of_fields) simp_all
    ultimately show ?thesis by (simp add: M_def)
  next
    case False
    define j where "j = bitlen M - (mb + 1)"
    have len: "mb + 1 \<le> bitlen M" using False bitlen_le_iff [of M mb] by simp
    have "M < 2 ^ (mb + 1 + k)" using c by (simp add: M_def power_add)
    then have "j \<le> k" unfolding j_def using bitlen_le_iff [of M "mb + 1 + k"] by simp
    then have split: "M = c * 2 ^ (k - j) * 2 ^ j" by (simp add: M_def power_add [symmetric])
    define d where "d = c * 2 ^ (k - j)"
    have M: "M = d * 2 ^ j" using split by (simp add: d_def)
    have "M < 2 ^ (mb + 1 + j)" "\<not> M < 2 ^ (mb + j)"
      using bitlen_le_iff [of M] len by (simp_all add: j_def flip: bitlen_le_iff)
    then have d: "d < 2 ^ (mb + 1)" "2 ^ mb \<le> d" by (simp_all add: M power_add not_less)
    have "mb + j < mb + 2 ^ eb - 2"
    proof -
      have "(2 :: nat) ^ (mb + j) < 2 ^ (mb + 2 ^ eb - 2)"
        using small \<open>\<not> M < 2 ^ (mb + j)\<close> unfolding M_def [symmetric] by linarith
      then show ?thesis by (rule power_less_imp_less_exp [rotated]) simp
    qed
    then have e: "j + 1 < 2 ^ eb - 1" by simp
    have "in_format eb mb (float_of_bits eb mb ((if s then 2 ^ (eb + mb) else 0) + ((j + 1) * 2 ^ mb + (d - 2 ^ mb))))"
      using d e by (intro in_format_fields) simp_all
    moreover have "float_of_bits eb mb ((if s then 2 ^ (eb + mb) else 0) + ((j + 1) * 2 ^ mb + (d - 2 ^ mb))) = Fin s (M * fmt_unit eb mb)"
      using d e by (subst float_of_fields) (simp_all add: M)
    ultimately show ?thesis by (simp add: M_def)
  qed
qed

section \<open>The \<open>half\<close> crate\<close>

text \<open>
  What the codec relies on: \<open>f16\<close> values are exact in \<open>f32\<close>, \<open>from_f32\<close> is the identity on them, and NaN stays NaN.
  \<open>ieee_half\<close> is the correctly rounded implementation.
\<close>

locale half_crate =
  fixes h :: half
  assumes half_in_f32: "b < 2 ^ 16 \<Longrightarrow> in_format 8 23 (half_to_f64 h b)"
    and half_exact: "b < 2 ^ 16 \<Longrightarrow> half_to_f64 h b \<noteq> NaN \<Longrightarrow> half_from_f32 h (bits_of_float 8 23 (half_to_f64 h b)) = b"
    and half_nan: "float_of_bits 8 23 x = NaN \<Longrightarrow> half_to_f64 h (half_from_f32 h x) = NaN"
    and half_16: "half_from_f32 h x < 2 ^ 16"

definition ieee_half :: half where
  "ieee_half = \<lparr>half_to_f64 = float_of_bits 5 10, half_from_f32 = (\<lambda>b. bits_of_float 5 10 (float_of_bits 8 23 b))\<rparr>"

lemma float_of_bits_of_float:
  assumes "in_format eb mb f" "0 < eb" "0 < mb"
  shows "float_of_bits eb mb (bits_of_float eb mb f) = f"
proof (cases "f = NaN")
  case True
  have "(2 :: nat) ^ (mb - 1) < 2 ^ mb" using assms(3) by simp
  with True show ?thesis
    using float_of_fields [of "2 ^ (mb - 1)" mb "2 ^ eb - 1" eb False] by (simp add: bits_of_float_def)
next
  case False
  with assms(1) show ?thesis using bits_of_float_of_bits [of _ eb mb] by (auto simp: in_format_def)
qed

lemma in_format_special:
  fixes m :: nat
  assumes "m < 2 ^ mb"
  shows "in_format eb mb (if m = 0 then Inf s else NaN)"
proof -
  have e: "2 ^ eb - 1 < (2 :: nat) ^ eb" by simp
  from in_format_fields [OF assms e, of s] show ?thesis unfolding float_of_fields [OF assms e] by simp
qed

lemma in_format_Inf: "in_format eb mb (Inf s)"
  using in_format_special [of 0 mb eb s] by simp

lemma in_format_NaN: "0 < mb \<Longrightarrow> in_format eb mb NaN"
  using in_format_special [OF one_less_power [of "2 :: nat" mb], of eb] by simp

lemma f16_in_f32:
  assumes "b < 2 ^ 16"
  shows "in_format 8 23 (float_of_bits 5 10 b)"
proof -
  define s e m where "s = odd (b div 2 ^ (5 + 10))" and "e = b div 2 ^ 10 mod 2 ^ 5" and "m = b mod 2 ^ 10"
  have b: "b = (if s then 2 ^ (5 + 10) else 0) + (e * 2 ^ 10 + m)"
    unfolding s_def e_def m_def by (rule bits_decompose) (use assms in simp)
  have lim: "m < 2 ^ 10" "e < 2 ^ 5" by (simp_all add: m_def e_def)
  note fields = float_of_fields [OF lim, of s, folded b]
  have u: "fmt_unit 5 10 = 2 ^ 125 * fmt_unit 8 23" unfolding fmt_unit_def by (simp flip: power_add)
  have fin: "in_format 8 23 (Fin s (c * 2 ^ k * fmt_unit 5 10))" if "c < 2 ^ 11" "k < 31" for c k
  proof -
    have "c * 2 ^ (k + 125) < 2 ^ 11 * 2 ^ (k + 125)" using that by simp
    also have "\<dots> \<le> 2 ^ 11 * 2 ^ 156" using that by (intro mult_le_mono2 power_increasing) simp_all
    also have "\<dots> \<le> 2 ^ (23 + 2 ^ 8 - 2)" by (simp flip: power_add)
    finally have "in_format 8 23 (Fin s (c * 2 ^ (k + 125) * fmt_unit 8 23))"
      using that by (intro in_format_Fin) simp_all
    moreover have "c * 2 ^ (k + 125) * fmt_unit 8 23 = c * 2 ^ k * fmt_unit 5 10"
      unfolding u power_add by (simp only: mult.assoc)
    ultimately show ?thesis by simp
  qed
  show ?thesis
    using fields fin [of m 0] fin [of "2 ^ 10 + m" "e - 1"] lim in_format_Inf [of 8 23 s] in_format_NaN [of 23 8]
    by (auto split: if_splits)
qed

lemma pack_mag_less: "0 < eb \<Longrightarrow> pack_mag eb mb m < 2 ^ (eb + mb)"
proof -
  assume eb: "0 < eb"
  define k where "k = bitlen m - (mb + 1)"
  have one: "1 \<le> (2 :: nat) ^ eb" by simp
  have top: "(2 ^ eb - 1) * 2 ^ mb < (2 :: nat) ^ (eb + mb)" by (simp add: power_add)
  have "bitlen m \<le> mb + 1 + k" by (simp add: k_def)
  then have "m < 2 ^ (mb + 1 + k)" by (simp only: bitlen_le_iff)
  then have "m div 2 ^ k < 2 ^ (mb + 1)" by (simp add: power_add less_mult_imp_div_less)
  then have sum: "k * 2 ^ mb + m div 2 ^ k < (k + 2) * 2 ^ mb" by simp
  consider "m < 2 ^ mb" | "\<not> m < 2 ^ mb" "2 ^ eb - 1 \<le> k + 1" | "\<not> m < 2 ^ mb" "\<not> 2 ^ eb - 1 \<le> k + 1" by blast
  then show ?thesis
  proof cases
    case 1
    also have "(2 :: nat) ^ mb \<le> 2 ^ (eb + mb)" by (intro power_increasing) simp_all
    finally show ?thesis using 1 by (simp add: pack_mag_def)
  next
    case 2
    then have "pack_mag eb mb m = (2 ^ eb - 1) * 2 ^ mb" unfolding pack_mag_def k_def [symmetric] Let_def by simp
    with top show ?thesis by simp
  next
    case 3
    then have "pack_mag eb mb m = k * 2 ^ mb + m div 2 ^ k" unfolding pack_mag_def k_def [symmetric] Let_def by simp
    moreover have "(k + 2) * 2 ^ mb \<le> (2 ^ eb - 1) * 2 ^ mb" using 3 by (intro mult_le_mono1) simp
    ultimately show ?thesis using sum top by linarith
  qed
qed

lemma bits_of_float_less: "0 < eb \<Longrightarrow> 0 < mb \<Longrightarrow> bits_of_float eb mb f < 2 ^ (eb + mb + 1)"
proof (cases f)
  case NaN
  assume "0 < eb" "0 < mb"
  then have "(2 :: nat) ^ (mb - 1) < 2 ^ mb" by simp
  moreover have "(2 ^ eb - 1) * 2 ^ mb + 2 ^ mb = (2 :: nat) ^ (eb + mb)" by (simp add: power_add algebra_simps)
  moreover have "bits_of_float eb mb f = (2 ^ eb - 1) * 2 ^ mb + 2 ^ (mb - 1)" by (simp add: NaN bits_of_float_def)
  ultimately have "bits_of_float eb mb f < 2 ^ (eb + mb)" by linarith
  then show ?thesis by simp
next
  case (Inf s)
  have "(2 ^ eb - 1) * 2 ^ mb < (2 :: nat) ^ (eb + mb)" by (simp add: power_add)
  then show ?thesis by (simp add: Inf bits_of_float_def)
next
  case (Fin s m)
  assume "0 < eb"
  from pack_mag_less [OF this, of mb "round_prec (mb + 1) m (fmt_unit eb mb)"]
  show ?thesis by (simp add: Fin bits_of_float_def)
qed

interpretation ieee: half_crate ieee_half
proof
  fix b :: nat assume b: "b < 2 ^ 16"
  show "in_format 8 23 (half_to_f64 ieee_half b)" using f16_in_f32 [OF b] by (simp add: ieee_half_def)
  assume "half_to_f64 ieee_half b \<noteq> NaN"
  then show "half_from_f32 ieee_half (bits_of_float 8 23 (half_to_f64 ieee_half b)) = b"
    using float_of_bits_of_float [OF f16_in_f32 [OF b]] bits_of_float_of_bits [of b 5 10] b by (simp add: ieee_half_def)
next
  fix x
  show "half_to_f64 ieee_half (half_from_f32 ieee_half x) = NaN" if "float_of_bits 8 23 x = NaN"
    using that float_of_bits_of_float [OF in_format_NaN [of 10 5]] by (simp add: ieee_half_def)
  show "half_from_f32 ieee_half x < 2 ^ 16"
    using bits_of_float_less [of 5 10 "float_of_bits 8 23 x"] by (simp add: ieee_half_def)
qed

section \<open>One element\<close>

text \<open>The scalars a dtype carries without change.\<close>

definition canonical :: "half \<Rightarrow> dtype \<Rightarrow> scalar \<Rightarrow> bool" where
  "canonical h dt s = (case s of
     SBool _ \<Rightarrow> dt = Bool
   | SInt v \<Rightarrow> dt = Uint64 \<or> is_integer dt \<and> is_ok (check_int_in_dtype_range (sint v) dt)
   | SFloat f \<Rightarrow> dt = Float16 \<and> (\<exists>b < 2 ^ 16. half_to_f64 h b = f)
        \<or> dt = Float32 \<and> in_format 8 23 f \<or> dt = Float64 \<and> in_format 11 52 f)"

lemma nat_le_bytes: "b < 256 ^ n \<Longrightarrow> nat (from_le_u (le_bytes n (int b))) = b"
proof -
  assume "b < 256 ^ n"
  then have "int b < 256 ^ n" by (metis of_nat_less_iff of_nat_numeral of_nat_power)
  then show ?thesis by (simp add: from_le_u_le_bytes)
qed

lemma codec_int:
  assumes "canonical h dt (SInt v)"
  shows "\<exists>b. encode_one h (SInt v) dt = Some b \<and> length b = dtype_size dt \<and> decode_scalar h b dt = Some (SInt v)"
proof -
  have v64: "- (2 ^ 63) \<le> sint v" "sint v < 2 ^ 63" using sint_ge [of v] sint_lt [of v] by simp_all
  have range: "dt \<noteq> Uint64 \<Longrightarrow> (\<exists>lo hi. signed_dtype_range dt = Some (lo, hi) \<and> lo \<le> sint v \<and> sint v \<le> hi) \<and> is_integer dt"
    using assms by (cases dt) (auto simp: canonical_def check_int_in_dtype_range_def is_integer_def split: if_splits)
  have s: "from_le_s (le_bytes n (wrap_s (8 * n) x)) = x"
    if "0 < n" "- (2 ^ (8 * n - 1)) \<le> x" "x < 2 ^ (8 * n - 1)" for n x
    using that wrap_s_id [of "8 * n" x] by (simp add: from_le_s_le_bytes)
  have u: "from_le_u (le_bytes n (wrap_u (8 * n) x)) = x" if "0 \<le> x" "x < 2 ^ (8 * n)" for n x
    using that by (simp add: from_le_u_le_bytes wrap_u_def power_256)
  show ?thesis
  proof (cases dt)
    case Uint8
    with range have "0 \<le> sint v" "sint v < 256" by auto
    then have "uint (word_of_int (wrap_u 8 (sint v)) :: u8) = sint v"
      by (subst uint_word_of_int) (simp add: wrap_u_def)
    then show ?thesis by (simp add: Uint8 encode_one_def decode_scalar_def)
  next
    case Uint16
    with range u [of "sint v" 2] show ?thesis by (auto simp: encode_one_def decode_scalar_def scalar_as_i64_def)
  next
    case Uint32
    with range u [of "sint v" 4] show ?thesis by (auto simp: encode_one_def decode_scalar_def scalar_as_i64_def)
  next
    case Uint64
    have "sint v mod 2 ^ 64 = uint v" using uint_sint [of v] by (simp add: take_bit_eq_mod)
    then have "from_le_u (le_bytes 8 (wrap_u 64 (sint v))) = uint v"
      using uint_lt2p [of v] by (simp add: from_le_u_le_bytes wrap_u_def)
    then show ?thesis by (simp add: Uint64 encode_one_def decode_scalar_def scalar_as_i64_def)
  next
    case Int8
    with range s [of 1 "sint v"] show ?thesis by (auto simp: encode_one_def decode_scalar_def scalar_as_i64_def)
  next
    case Int16
    with range s [of 2 "sint v"] show ?thesis by (auto simp: encode_one_def decode_scalar_def scalar_as_i64_def)
  next
    case Int32
    with range s [of 4 "sint v"] show ?thesis by (auto simp: encode_one_def decode_scalar_def scalar_as_i64_def)
  next
    case Int64
    have "from_le_s (le_bytes 8 (sint v)) = sint v"
      using v64 wrap_s_id [of 64 "sint v"] by (simp add: from_le_s_le_bytes)
    then show ?thesis by (simp add: Int64 encode_one_def decode_scalar_def scalar_as_i64_def)
  qed (use range assms in \<open>auto simp: is_integer_def canonical_def\<close>)
qed

lemma f64_eq_refl: "f64_eq f f \<longleftrightarrow> f \<noteq> NaN"
  by (cases f) auto

lemma nan_low_bit: "float_of_bits 8 23 (Suc (bits_of_float 8 23 NaN)) = NaN" "even (bits_of_float 8 23 NaN)"
  by (simp_all add: float_of_bits_def bits_of_float_def)

context half_crate
begin

lemma f16_round_trip:
  assumes "b < 2 ^ 16"
  shows "half_to_f64 h (f64_to_f16_bits h (half_to_f64 h b)) = half_to_f64 h b"
    and "half_to_f64 h b \<noteq> NaN \<Longrightarrow> f64_to_f16_bits h (half_to_f64 h b) = b"
proof -
  let ?f = "half_to_f64 h b"
  show exact: "f64_to_f16_bits h ?f = b" if "?f \<noteq> NaN"
    using that float_of_bits_of_float [OF half_in_f32 [OF assms]] half_exact [OF assms]
    by (simp add: f64_to_f16_bits_def f64_eq_refl)
  show "half_to_f64 h (f64_to_f16_bits h ?f) = ?f"
  proof (cases "?f = NaN")
    case True
    then show ?thesis
      using half_nan [OF nan_low_bit(1)] nan_low_bit(2) float_of_bits_of_float [OF in_format_NaN [of 23 8]]
      by (simp add: f64_to_f16_bits_def f64_eq_refl)
  next
    case False
    then show ?thesis by (simp add: exact)
  qed
qed

lemma f64_to_f16_bits_less: "f64_to_f16_bits h v < 2 ^ 16"
  unfolding f64_to_f16_bits_def Let_def by (rule half_16)

lemma codec_float:
  assumes "canonical h dt (SFloat f)"
  shows "\<exists>b. encode_one h (SFloat f) dt = Some b \<and> length b = dtype_size dt \<and> decode_scalar h b dt = Some (SFloat f)"
proof -
  consider b where "dt = Float16" "b < 2 ^ 16" "half_to_f64 h b = f"
    | "dt = Float32" "in_format 8 23 f" | "dt = Float64" "in_format 11 52 f"
    using assms by (auto simp: canonical_def)
  then show ?thesis
  proof cases
    case 1
    have "nat (from_le_u (le_bytes 2 (int (f64_to_f16_bits h f)))) = f64_to_f16_bits h f"
      using f64_to_f16_bits_less [of f] by (intro nat_le_bytes) simp
    with 1 f16_round_trip(1) [of b] show ?thesis
      by (simp add: encode_one_def decode_scalar_def scalar_float_value_def)
  next
    case 2
    have "nat (from_le_u (le_bytes 4 (int (bits_of_float 8 23 f)))) = bits_of_float 8 23 f"
      using bits_of_float_less [of 8 23 f] by (intro nat_le_bytes) simp
    with 2 float_of_bits_of_float [of 8 23 f] show ?thesis
      by (simp add: encode_one_def decode_scalar_def scalar_float_value_def)
  next
    case 3
    have "nat (from_le_u (le_bytes 8 (int (bits_of_float 11 52 f)))) = bits_of_float 11 52 f"
      using bits_of_float_less [of 11 52 f] by (intro nat_le_bytes) simp
    with 3 float_of_bits_of_float [of 11 52 f] show ?thesis
      by (simp add: encode_one_def decode_scalar_def scalar_float_value_def)
  qed
qed

lemma codec_one:
  assumes "canonical h dt v"
  shows "\<exists>b. encode_one h v dt = Some b \<and> length b = dtype_size dt \<and> decode_scalar h b dt = Some v"
proof (cases v)
  case (SBool b)
  with assms have "dt = Bool" by (simp add: canonical_def)
  with SBool show ?thesis by (cases b) (simp_all add: encode_one_def decode_scalar_def)
qed (use codec_int codec_float assms in blast)+

lemma decode_encode_one:
  assumes len: "length c = dtype_size dt" and dt: "dt \<noteq> Bool" and dec: "decode_scalar h c dt = Some v"
    and fin: "v \<noteq> SFloat NaN"
  shows "encode_one h v dt = Some c"
proof -
  have s: "sint (word_of_int (from_le_s c) :: i64) = from_le_s c" "wrap_s (8 * length c) (from_le_s c) = from_le_s c"
    if "c \<noteq> []" "length c \<le> 8"
  proof -
    have r: "- (2 ^ (8 * length c - 1)) \<le> from_le_s c" "from_le_s c < 2 ^ (8 * length c - 1)"
      using wrap_s_range [of "8 * length c" "from_le_u c"] that by (simp_all add: from_le_s_def)
    then show "wrap_s (8 * length c) (from_le_s c) = from_le_s c" using that by (intro wrap_s_id) simp_all
    have "(2 :: int) ^ (8 * length c - 1) \<le> 2 ^ 63" using that by (intro power_increasing) simp_all
    then show "sint (word_of_int (from_le_s c) :: i64) = from_le_s c" using r by (intro sint_word_of_int_64) simp_all
  qed
  have u: "sint (word_of_int (from_le_u c) :: i64) = from_le_u c" "wrap_u (8 * length c) (from_le_u c) = from_le_u c"
    if "length c \<le> 7"
  proof -
    have "(256 :: int) ^ length c \<le> 256 ^ 7" using that by (intro power_increasing) simp_all
    then show "sint (word_of_int (from_le_u c) :: i64) = from_le_u c"
      using from_le_u_bounds [of c] by (intro sint_word_of_int_64) simp_all
    show "wrap_u (8 * length c) (from_le_u c) = from_le_u c"
      using from_le_u_bounds [of c] by (simp add: wrap_u_def flip: power_256)
  qed
  have n: "le_bytes (length c) (int (nat (from_le_u c))) = c"
    using from_le_u_bounds(1) [of c] by (simp add: le_bytes_from_le_u)
  have b: "nat (from_le_u c) < 2 ^ (8 * length c)"
    using from_le_u_bounds [of c] by (simp add: nat_less_iff flip: power_256)
  note defs = encode_one_def decode_scalar_def scalar_as_i64_def scalar_float_value_def
  show ?thesis
  proof (cases dt)
    case Uint8
    with len obtain x where c: "c = [x]" by (auto simp: length_Suc_conv)
    have x: "0 \<le> uint x" "uint x < 256" using uint_lt2p [of x] by simp_all
    then have "i64_min \<le> uint x" "uint x \<le> i64_max" by linarith+
    then have "sint (word_of_int (uint x) :: i64) = uint x" by (rule sint_word_of_int_64)
    moreover have "(word_of_int (wrap_u 8 (uint x)) :: u8) = x" using uint_lt2p [of x] by (simp add: wrap_u_def)
    ultimately show ?thesis using dec by (auto simp: Uint8 c defs)
  next
    case Uint16
    with len dec u le_bytes_from_le_u [of c] show ?thesis by (auto simp: defs)
  next
    case Uint32
    with len dec u le_bytes_from_le_u [of c] show ?thesis by (auto simp: defs)
  next
    case Uint64
    have "wrap_u 64 (sint (word_of_int (from_le_u c) :: i64)) = uint (word_of_int (from_le_u c) :: i64)"
      by (subst uint_sint) (simp only: wrap_u_def take_bit_eq_mod, simp)
    also have "\<dots> = from_le_u c"
      using Uint64 len from_le_u_bounds [of c] by (subst uint_word_of_int) simp
    finally have "wrap_u 64 (sint (word_of_int (from_le_u c) :: i64)) = from_le_u c" .
    with Uint64 len dec le_bytes_from_le_u [of c] show ?thesis by (auto simp: defs)
  next
    case Int8
    with len have "c \<noteq> []" by auto
    with Int8 len dec s le_bytes_from_le_s [of c] show ?thesis by (auto simp: defs)
  next
    case Int16
    with len have "c \<noteq> []" by auto
    with Int16 len dec s le_bytes_from_le_s [of c] show ?thesis by (auto simp: defs)
  next
    case Int32
    with len have "c \<noteq> []" by auto
    with Int32 len dec s le_bytes_from_le_s [of c] show ?thesis by (auto simp: defs)
  next
    case Int64
    with len have "c \<noteq> []" by auto
    with Int64 len dec s le_bytes_from_le_s [of c] show ?thesis by (auto simp: defs)
  next
    case Float16
    then have v: "v = SFloat (half_to_f64 h (nat (from_le_u c)))" using dec len by (simp add: decode_scalar_def)
    with fin have "half_to_f64 h (nat (from_le_u c)) \<noteq> NaN" by simp
    from f16_round_trip(2) [OF _ this] Float16 len b n show ?thesis by (simp add: v defs)
  next
    case Float32
    then have v: "v = SFloat (float_of_bits 8 23 (nat (from_le_u c)))" using dec len by (simp add: decode_scalar_def)
    with fin have "float_of_bits 8 23 (nat (from_le_u c)) \<noteq> NaN" by simp
    from bits_of_float_of_bits [OF _ this] Float32 len b n show ?thesis by (simp add: v defs)
  next
    case Float64
    then have v: "v = SFloat (float_of_bits 11 52 (nat (from_le_u c)))" using dec len by (simp add: decode_scalar_def)
    with fin have "float_of_bits 11 52 (nat (from_le_u c)) \<noteq> NaN" by simp
    from bits_of_float_of_bits [OF _ this] Float64 len b n show ?thesis by (simp add: v defs)
  next
    case DUnspecified
    then show ?thesis using dec by (simp add: decode_scalar_def split: if_splits)
  next
    case Bool
    then show ?thesis using dt by simp
  qed
qed

end

section \<open>Sequences of elements\<close>

lemma encode_all_eq: "encode_all h vs dt out = map_option (\<lambda>bs. out @ concat bs) (those (map (\<lambda>v. encode_one h v dt) vs))"
  by (induction h vs dt out rule: encode_all.induct) (auto split: option.splits simp: option.map_comp comp_def)

lemma those_Some_iff: "those xs = Some ys \<longleftrightarrow> xs = map Some ys"
  by (induction xs arbitrary: ys) (auto split: option.splits)

lemma length_concat_uniform: "\<forall>b \<in> set bs. length b = n \<Longrightarrow> length (concat bs) = length bs * n"
  by (induction bs) simp_all

lemma chunks_exact_Nil [simp]: "chunks_exact n [] = []"
  by (cases n) (simp_all add: chunks_exact.simps [of _ "[]"])

lemma chunks_exact_concat:
  assumes "\<forall>b \<in> set bs. length b = n" "0 < n"
  shows "chunks_exact n (concat bs) = bs"
  using assms(1)
proof (induction bs)
  case Nil
  then show ?case by simp
next
  case (Cons b bs)
  then show ?case using assms(2) by (simp add: chunks_exact.simps [of n "b @ concat bs"])
qed

lemma chunks_exact_whole:
  assumes "length xs mod n = 0" "0 < n"
  shows "concat (chunks_exact n xs) = xs \<and> (\<forall>c \<in> set (chunks_exact n xs). length c = n) \<and>
    length (chunks_exact n xs) = length xs div n"
  using assms
proof (induction n xs rule: chunks_exact.induct)
  case (1 n xs)
  show ?case
  proof (cases "length xs < n")
    case True
    with 1 show ?thesis by (simp add: chunks_exact.simps [of n xs])
  next
    case False
    then have cond: "\<not> (n = 0 \<or> length xs < n)" using 1(3) by simp
    have "length (drop n xs) mod n = 0" using le_mod_geq [of n "length xs"] False 1(2) by simp
    note ih = 1(1) [OF cond this 1(3)]
    have step: "chunks_exact n xs = take n xs # chunks_exact n (drop n xs)"
      using cond by (subst chunks_exact.simps) simp
    have "length xs div n = Suc ((length xs - n) div n)" using False 1(3) by (simp add: le_div_geq)
    then have "length (chunks_exact n xs) = length xs div n" unfolding step using conjunct2 [OF conjunct2 [OF ih]]
      by (simp only: list.size length_drop)
    moreover have "concat (chunks_exact n xs) = xs" unfolding step using conjunct1 [OF ih] by simp
    moreover have "\<forall>c \<in> set (chunks_exact n xs). length c = n"
    proof
      fix c assume "c \<in> set (chunks_exact n xs)"
      then have "c = take n xs \<or> c \<in> set (chunks_exact n (drop n xs))" unfolding step by (simp only: list.set insert_iff)
      moreover have "length (take n xs) = n" using False by simp
      ultimately show "length c = n" using bspec [OF conjunct1 [OF conjunct2 [OF ih]], of c] by blast
    qed
    ultimately show ?thesis by blast
  qed
qed

lemma decode_scalar_total: "length c = dtype_size dt \<Longrightarrow> dt \<noteq> DUnspecified \<Longrightarrow> \<exists>v. decode_scalar h c dt = Some v"
  by (cases dt) (simp_all add: decode_scalar_def)

lemma those_total: "\<forall>x \<in> set xs. \<exists>y. f x = Some y \<Longrightarrow> \<exists>ys. those (map f xs) = Some ys \<and> length ys = length xs"
  by (induction xs) auto

lemma decode_whole:
  assumes "dt \<noteq> DUnspecified" "length bytes mod dtype_size dt = 0"
  shows "\<exists>vs. decode_scalars h bytes dt = Some (Inr vs) \<and> length vs = length bytes div dtype_size dt"
proof -
  have n: "0 < dtype_size dt" using assms(1) by (simp add: dtype_size_pos)
  note ch = chunks_exact_whole [OF assms(2) n]
  have "\<exists>vs. those (map (\<lambda>c. decode_scalar h c dt) (chunks_exact (dtype_size dt) bytes)) = Some vs \<and>
      length vs = length (chunks_exact (dtype_size dt) bytes)"
    using ch decode_scalar_total assms(1) by (intro those_total) blast
  then show ?thesis using assms ch by (auto simp: decode_scalars_def)
qed

section \<open>Properties\<close>

lemma cmp_typed_eq: "cmp_typed dt a b = f64_partial_cmp (exact dt a) (exact dt b)"
proof -
  have range: "case int_operand dt s of Signed v \<Rightarrow> - (2 ^ 63) \<le> v \<and> v < 2 ^ 63 | Unsigned v \<Rightarrow> 0 \<le> v \<and> v < 2 ^ 64"
    if "\<not> (\<exists>f. s = SFloat f)" for s
    using that sint_ge [of "scalar_as_i64 s"] sint_lt [of "scalar_as_i64 s"] uint_lt2p [of "case s of SInt v \<Rightarrow> v"]
    by (cases s) (auto simp: int_operand_def scalar_as_u64_def split: scalar.splits)
  have operand: "exact dt s = exact_int (case int_operand dt s of Signed v \<Rightarrow> v | Unsigned v \<Rightarrow> v)"
    if "\<not> (\<exists>f. s = SFloat f)" for s
    using that by (cases s) (auto simp: exact_def int_operand_def scalar_as_u64_def scalar_as_i64_def)
  have mixed: "cmp_float_int f (int_operand dt s) = f64_partial_cmp f (exact dt s)" if "\<not> (\<exists>f. s = SFloat f)" for f s
    using cmp_float_int_exact [OF range [OF that]] operand [OF that] by simp
  show ?thesis
    using mixed [of a] mixed [of b] f64_partial_cmp_swap [of "exact dt a" "exact dt b"]
    by (cases a; cases b) (auto simp: cmp_typed_def exact_def cmp_exact_int scalar_as_u64_def scalar_as_i64_def cmp_int_def)
qed

text \<open>
  C23. Comparing two scalars compares their true values: integers in the dtype's own domain, a float
  against an integer without rounding either; the result is absent exactly for a NaN operand.
\<close>

theorem cmp_typed_exact: "cmp_typed dt a b = f64_partial_cmp (exact dt a) (exact dt b)"
  by (rule cmp_typed_eq)

lemma encode_decode_list:
  assumes "\<forall>v \<in> set vs. \<exists>b. encode_one h v dt = Some b \<and> length b = dtype_size dt \<and> decode_scalar h b dt = Some v" "dt \<noteq> DUnspecified"
  shows "\<exists>bytes. encode_scalars h vs dt = Some (Inr bytes) \<and> length bytes = length vs * dtype_size dt \<and>
    decode_scalars h bytes dt = Some (Inr vs)"
proof -
  have "\<exists>bs. those (map (\<lambda>v. encode_one h v dt) vs) = Some bs \<and> (\<forall>b \<in> set bs. length b = dtype_size dt) \<and>
      length bs = length vs \<and> map (\<lambda>b. decode_scalar h b dt) bs = map Some vs"
    using assms(1)
  proof (induction vs)
    case (Cons v vs)
    then obtain b bs where "encode_one h v dt = Some b" "length b = dtype_size dt" "decode_scalar h b dt = Some v"
      "those (map (\<lambda>v. encode_one h v dt) vs) = Some bs" "\<forall>b \<in> set bs. length b = dtype_size dt"
      "length bs = length vs" "map (\<lambda>b. decode_scalar h b dt) bs = map Some vs"
      by auto
    then show ?case by (intro exI [of _ "b # bs"]) simp
  qed simp
  then obtain bs where bs: "those (map (\<lambda>v. encode_one h v dt) vs) = Some bs" "\<forall>b \<in> set bs. length b = dtype_size dt"
    "length bs = length vs" "map (\<lambda>b. decode_scalar h b dt) bs = map Some vs" by blast
  have n: "0 < dtype_size dt" using assms(2) by (simp add: dtype_size_pos)
  have len: "length (concat bs) = length vs * dtype_size dt"
    using length_concat_uniform [OF bs(2)] bs(3) by simp
  have "decode_scalars h (concat bs) dt = Some (Inr vs)"
    using assms(2) len chunks_exact_concat [OF bs(2) n] bs(4) by (simp add: decode_scalars_def those_Some_iff)
  then show ?thesis using assms(2) bs(1) len by (simp add: encode_scalars_def encode_all_eq)
qed

text \<open>
  C24. Encoding scalars a dtype carries and decoding the bytes gives the scalars back, for every dtype:
  in particular an integer that passed the range check never wraps.
\<close>

theorem scalars_round_trip:
  assumes "half_crate h" "dt \<noteq> DUnspecified" "\<forall>v \<in> set vs. canonical h dt v"
  shows "\<exists>bytes. encode_scalars h vs dt = Some (Inr bytes) \<and> length bytes = length vs * dtype_size dt \<and>
    decode_scalars h bytes dt = Some (Inr vs)"
  using assms half_crate.codec_one [OF assms(1), of dt] by (intro encode_decode_list) auto

theorem scalars_round_trip_witness:
  "\<exists>bytes. encode_scalars ieee_half [SInt 300, SInt (-2)] Int16 = Some (Inr bytes) \<and>
    decode_scalars ieee_half bytes Int16 = Some (Inr [SInt 300, SInt (-2)])"
proof -
  have "\<forall>v \<in> set [SInt 300, SInt (-2)]. canonical ieee_half Int16 v"
    by (simp add: canonical_def is_integer_def check_int_in_dtype_range_def)
  then show ?thesis
    using scalars_round_trip [OF ieee.half_crate_axioms, of Int16 "[SInt 300, SInt (-2)]"] by auto
qed



section \<open>Rounding to \<open>f16\<close>\<close>

lemma rne_scale: "0 < s \<Longrightarrow> rne (p * s) (q * s) = rne p q"
proof -
  assume s: "0 < s"
  have "2 * (p * s mod (q * s)) = 2 * (p mod q) * s" by (simp add: mult_mod_left)
  with s show ?thesis by (simp add: rne_def Let_def)
qed

lemma round_prec_scale: "0 < s \<Longrightarrow> round_prec prec (p * s) (q * s) = round_prec prec p q"
proof -
  assume s: "0 < s"
  have "rne (p * s) (q * s * 2 ^ k) = rne p (q * 2 ^ k)" for k
    using rne_scale [OF s, of p "q * 2 ^ k"] by (simp add: ac_simps)
  with s show ?thesis by (simp add: round_prec_def rne_scale [OF s] Let_def)
qed

lemma fmt_units: "fmt_unit 5 10 = 2 ^ 125 * fmt_unit 8 23" "f64_unit = 2 ^ 149 * fmt_unit 8 23" "2 ^ 1044 = 2 ^ 119 * fmt_unit 8 23"
  unfolding fmt_unit_def f64_unit_def by (simp_all flip: power_add)

lemma bits_f32: "bits_of_float 8 23 (Fin s (m * fmt_unit 8 23)) =
    (if s then 2 ^ 31 else 0) + pack_mag 8 23 (round_prec 24 m 1)"
  using round_prec_scale [OF fmt_unit_pos, of 24 m 8 23 1] by (simp add: bits_of_float_def)

lemma bits_f16: "bits_of_float 5 10 (Fin s (m * fmt_unit 8 23)) =
    (if s then 2 ^ 15 else 0) + pack_mag 5 10 (round_prec 11 m (2 ^ 125))"
  unfolding bits_of_float_def fmt_units(1) using round_prec_scale [OF fmt_unit_pos, of 11 m 8 23 "2 ^ 125"] by simp

text \<open>
  C26. \<open>f64_to_f16_bits\<close> is not correctly rounded, even over a correctly rounded \<open>f16::from_f32\<close>: at
  $1 + 2^{-11} - 2^{-30}$, just below the midpoint of two \<open>f16\<close> values, it rounds up; and at $2^{128}$,
  past the \<open>f32\<close> range, it returns a NaN where the nearest \<open>f16\<close> is infinity.
\<close>

theorem f16_not_correctly_rounded:
  "bits_of_float 5 10 (Fin False ((2 ^ 30 + 2 ^ 19 - 1) * 2 ^ 1044)) = 0x3C00 \<and>
   f64_to_f16_bits ieee_half (Fin False ((2 ^ 30 + 2 ^ 19 - 1) * 2 ^ 1044)) = 0x3C01 \<and>
   bits_of_float 5 10 (f64_pow2 128) = 0x7C00 \<and>
   half_to_f64 ieee_half (f64_to_f16_bits ieee_half (f64_pow2 128)) = NaN"
proof -
  have below: "Fin False ((2 ^ 30 + 2 ^ 19 - 1) * 2 ^ 1044) = Fin False ((2 ^ 30 + 2 ^ 19 - 1) * 2 ^ 119 * fmt_unit 8 23)"
    unfolding fmt_units(3) by (simp only: mult.assoc)
  have big: "f64_pow2 128 = Fin False (2 ^ 277 * fmt_unit 8 23)"
    unfolding f64_pow2_def fmt_units(2) by (simp only: mult.assoc [symmetric] power_add [symmetric]) simp
  note ev = pack_mag_def round_prec_def rne_def bitlen.simps Let_def
  have b1: "bits_of_float 5 10 (Fin False ((2 ^ 30 + 2 ^ 19 - 1) * 2 ^ 1044)) = 0x3C00"
    unfolding below bits_f16 by (simp add: ev)
  have b2: "bits_of_float 8 23 (Fin False ((2 ^ 30 + 2 ^ 19 - 1) * 2 ^ 1044)) = 0x3F801000"
    unfolding below bits_f32 by (simp add: ev)
  have v2: "float_of_bits 8 23 0x3F801000 = Fin False ((2 ^ 23 + 4096) * 2 ^ 126 * fmt_unit 8 23)"
    "float_of_bits 8 23 0x3F801001 = Fin False ((2 ^ 23 + 4097) * 2 ^ 126 * fmt_unit 8 23)"
    by (simp_all add: float_of_bits_def)
  have "\<not> f64_eq (float_of_bits 8 23 0x3F801000) (Fin False ((2 ^ 30 + 2 ^ 19 - 1) * 2 ^ 1044))"
    unfolding v2 below f64_eq.simps sval_def using fmt_unit_pos [of 8 23] by simp
  then have "f64_to_f16_bits ieee_half (Fin False ((2 ^ 30 + 2 ^ 19 - 1) * 2 ^ 1044)) =
      bits_of_float 5 10 (float_of_bits 8 23 0x3F801001)"
    unfolding f64_to_f16_bits_def b2 Let_def by (simp add: ieee_half_def)
  also have "\<dots> = 0x3C01" unfolding v2 bits_f16 by (simp add: ev)
  finally have b3: "f64_to_f16_bits ieee_half (Fin False ((2 ^ 30 + 2 ^ 19 - 1) * 2 ^ 1044)) = 0x3C01" .
  have b4: "bits_of_float 5 10 (f64_pow2 128) = 0x7C00" unfolding big bits_f16 by (simp add: ev)
  have b5: "bits_of_float 8 23 (f64_pow2 128) = 0x7F800000" unfolding big bits_f32 by (simp add: ev)
  have v5: "float_of_bits 8 23 0x7F800000 = Inf False" "float_of_bits 8 23 0x7F800001 = NaN"
    by (simp_all add: float_of_bits_def)
  have "f64_to_f16_bits ieee_half (f64_pow2 128) = half_from_f32 ieee_half 0x7F800001"
    unfolding f64_to_f16_bits_def b5 Let_def by (simp add: v5 big)
  then have "half_to_f64 ieee_half (f64_to_f16_bits ieee_half (f64_pow2 128)) = NaN"
    using ieee.half_nan [OF v5(2)] by simp
  with b1 b3 b4 show ?thesis by simp
qed

end
