(* ===== verification/BoxScan.thy ===== *)
theory BoxScan
  imports Scalars
begin

text \<open>
  The element scans of a Box value (\<^verbatim>\<open>crates/rlmesh-spaces/src/spaces/fundamental/box_space/value.rs\<close>): three
  loops over the raw little-endian bytes, in the dtype's native domain and (for a bound shared by
  every element) block by block, against the elements' comparison through \<open>Scalar::cmp_typed\<close>.

  A generic element type is its reading as an integer or a double; \<open>i128\<close> thresholds are integers saturated to
  that type. An index out of range panics: a scan that may panic returns \<open>None\<close> for it.
\<close>

section \<open>Findings\<close>

datatype side = Below | Above

datatype finding = FNan nat | FRange nat side

text \<open>What one element says, and the finding of a sequence of elements: the first NaN, or else the
  first element out of bounds.\<close>

datatype verdict = VOk | VNan | VSide side

fun first_range :: "nat \<Rightarrow> verdict list \<Rightarrow> finding option" where
  "first_range i [] = None"
| "first_range i (VSide s # vs) = Some (FRange i s)"
| "first_range i (v # vs) = first_range (Suc i) vs"

definition verdicts_finding :: "verdict list \<Rightarrow> finding option" where
  "verdicts_finding vs = (case position (\<lambda>v. v = VNan) vs of Some i \<Rightarrow> Some (FNan i) | None \<Rightarrow> first_range 0 vs)"

section \<open>Reading elements\<close>

definition read_f16 :: "half \<Rightarrow> bytes \<Rightarrow> f64" where
  "read_f16 h bs = half_to_f64 h (nat (from_le_u bs))"

definition read_f32 :: "bytes \<Rightarrow> f64" where
  "read_f32 bs = float_of_bits 8 23 (nat (from_le_u bs))"

definition read_f64 :: "bytes \<Rightarrow> f64" where
  "read_f64 bs = float_of_bits 11 52 (nat (from_le_u bs))"

definition read_float :: "half \<Rightarrow> dtype \<Rightarrow> bytes \<Rightarrow> f64" where
  "read_float h dt = (case dt of Float16 \<Rightarrow> read_f16 h | Float32 \<Rightarrow> read_f32 | _ \<Rightarrow> read_f64)"

text \<open>An integer element of the dtype: \<open>uN::from_le_bytes\<close>, \<open>iN::from_le_bytes\<close>, a non-zero byte for \<open>Bool\<close>.\<close>

definition read_int :: "dtype \<Rightarrow> bytes \<Rightarrow> int" where
  "read_int dt bs = (case dt of Bool \<Rightarrow> (if hd bs \<noteq> 0 then 1 else 0)
     | Int8 \<Rightarrow> from_le_s bs | Int16 \<Rightarrow> from_le_s bs | Int32 \<Rightarrow> from_le_s bs | Int64 \<Rightarrow> from_le_s bs
     | _ \<Rightarrow> from_le_u bs)"

text \<open>The range the scan of a dtype assumes, and the range of the Rust type it reads.\<close>

fun type_range :: "dtype \<Rightarrow> int \<times> int" where
  "type_range Bool = (0, 255)"
| "type_range Uint8 = (0, 255)"
| "type_range Uint16 = (0, 65535)"
| "type_range Uint32 = (0, 4294967295)"
| "type_range Uint64 = (0, 18446744073709551615)"
| "type_range Int8 = (-128, 127)"
| "type_range Int16 = (-32768, 32767)"
| "type_range Int32 = (-2147483648, 2147483647)"
| "type_range Int64 = (i64_min, i64_max)"
| "type_range _ = (0, 0)"

definition scan_range :: "dtype \<Rightarrow> int \<times> int" where
  "scan_range dt = (if dt = Bool then (0, 1) else type_range dt)"

section \<open>Bounds as thresholds\<close>

type_synonym bound = "scalar option \<times> scalar option"

definition i128_of_f64 :: "f64 \<Rightarrow> int" where
  "i128_of_f64 = f64_as_int (- (2 ^ 127)) (2 ^ 127 - 1)"

definition finite_float :: "f64 \<Rightarrow> scalar option" where
  "finite_float v = (if f64_is_finite v then Some (SFloat v) else None)"

definition float_low :: "scalar option \<Rightarrow> dtype \<Rightarrow> f64" where
  "float_low low dt = (case low of None \<Rightarrow> Inf True | Some s \<Rightarrow> scalar_to_f64 dt s)"

definition float_high :: "scalar option \<Rightarrow> dtype \<Rightarrow> f64" where
  "float_high high dt = (case high of None \<Rightarrow> Inf False | Some s \<Rightarrow> scalar_to_f64 dt s)"

definition int_scalar :: "scalar \<Rightarrow> dtype \<Rightarrow> int" where
  "int_scalar s dt = (if dt = Uint64 then scalar_as_u64 s else sint (scalar_as_i64 s))"

definition int_low :: "scalar option \<Rightarrow> dtype \<Rightarrow> int" where
  "int_low low dt = (case low of
     None \<Rightarrow> - (2 ^ 127)
   | Some (SFloat f) \<Rightarrow> if f64_is_nan f then - (2 ^ 127) else i128_of_f64 (f64_ceil f)
   | Some s \<Rightarrow> int_scalar s dt)"

definition int_high :: "scalar option \<Rightarrow> dtype \<Rightarrow> int" where
  "int_high high dt = (case high of
     None \<Rightarrow> 2 ^ 127 - 1
   | Some (SFloat f) \<Rightarrow> if f64_is_nan f then 2 ^ 127 - 1 else i128_of_f64 (f64_floor f)
   | Some s \<Rightarrow> int_scalar s dt)"

section \<open>The scans\<close>

text \<open>\<open>scan_at\<close>: per-element thresholds. \<open>gt\<close> is \<open>>\<close> and \<open>unordered\<close> is "not comparable with itself".\<close>

fun scan_at :: "('v \<Rightarrow> 'v \<Rightarrow> bool) \<Rightarrow> ('v \<Rightarrow> bool) \<Rightarrow> (bytes \<Rightarrow> 'v) \<Rightarrow> (nat \<Rightarrow> ('v \<times> 'v) option) \<Rightarrow>
    nat \<Rightarrow> finding option \<Rightarrow> bytes list \<Rightarrow> finding option option" where
  "scan_at gt unordered read bound_at index rng [] = Some rng"
| "scan_at gt unordered read bound_at index rng (b # bs) =
     (let v = read b in
      if unordered v then Some (Some (FNan index))
      else if rng = None then
        (case bound_at index of None \<Rightarrow> None
         | Some (low, high) \<Rightarrow> scan_at gt unordered read bound_at (Suc index)
             (if gt low v then Some (FRange index Below)
              else if gt v high then Some (FRange index Above) else None) bs)
      else scan_at gt unordered read bound_at (Suc index) rng bs)"

definition f64_gt :: "f64 \<Rightarrow> f64 \<Rightarrow> bool" where
  "f64_gt a b = f64_lt b a"

definition int_gt :: "int \<Rightarrow> int \<Rightarrow> bool" where
  "int_gt a b = (b < a)"

definition BLOCK :: nat where
  "BLOCK = 4096"

text \<open>The \<open>find_map\<close> that locates the first deviation of a block.\<close>

fun locate :: "('v \<Rightarrow> bool) \<Rightarrow> ('v \<Rightarrow> bool) \<Rightarrow> (bytes \<Rightarrow> 'v) \<Rightarrow> nat \<Rightarrow> bytes list \<Rightarrow> finding option" where
  "locate is_below is_above read at [] = None"
| "locate is_below is_above read at (b # bs) =
     (let v = read b in
      if is_below v then Some (FRange at Below)
      else if is_above v then Some (FRange at Above)
      else locate is_below is_above read (Suc at) bs)"

function float_blocks :: "(bytes \<Rightarrow> f64) \<Rightarrow> f64 \<Rightarrow> f64 \<Rightarrow> nat \<Rightarrow> finding option \<Rightarrow> bytes list \<Rightarrow> finding option" where
  "float_blocks read low high base rng elements =
     (if elements = [] then rng
      else let block = take BLOCK elements;
        (nan, out) = foldl (\<lambda>(nan, out) b. let v = read b in
          (nan \<or> f64_is_nan v, out \<or> f64_gt low v \<or> f64_gt v high)) (False, False) block in
        if nan then Some (FNan (base + (case position (\<lambda>b. f64_is_nan (read b)) block of Some k \<Rightarrow> k | None \<Rightarrow> 0)))
        else float_blocks read low high (base + BLOCK)
          (if out \<and> rng = None then locate (\<lambda>v. f64_gt low v) (\<lambda>v. f64_gt v high) read base block else rng)
          (drop BLOCK elements))"
  by pat_completeness auto
termination by (relation "measure (\<lambda>(r, l, h, b, g, es). length es)") (auto simp: BLOCK_def)

declare float_blocks.simps [simp del]

definition scan_float :: "nat \<Rightarrow> bytes \<Rightarrow> (bytes \<Rightarrow> f64) \<Rightarrow> f64 \<Rightarrow> f64 \<Rightarrow> finding option" where
  "scan_float n data read low high = float_blocks read low high 0 None (chunks_exact n data)"

function int_blocks :: "(bytes \<Rightarrow> int) \<Rightarrow> int \<Rightarrow> int \<Rightarrow> nat \<Rightarrow> bytes list \<Rightarrow> finding option" where
  "int_blocks read low high base elements =
     (if elements = [] then None
      else let block = take BLOCK elements;
        out = foldl (\<lambda>out b. let v = read b in out \<or> v < low \<or> high < v) False block in
        if out then locate (\<lambda>v. v < low) (\<lambda>v. high < v) read base block
        else int_blocks read low high (base + BLOCK) (drop BLOCK elements))"
  by pat_completeness auto
termination by (relation "measure (\<lambda>(r, l, h, b, es). length es)") (auto simp: BLOCK_def)

declare int_blocks.simps [simp del]

definition scan_int ::
    "nat \<Rightarrow> bytes \<Rightarrow> (bytes \<Rightarrow> int) \<Rightarrow> int \<times> int \<Rightarrow> int \<times> int \<Rightarrow> int \<times> int \<Rightarrow> finding option option" where
  "scan_int n data read bounds scan_rng type_rng =
     (case bounds of (low, high) \<Rightarrow> case scan_rng of (mn, mx) \<Rightarrow> case type_rng of (tmin, tmax) \<Rightarrow>
      (let elements = chunks_exact n data in
       case elements of [] \<Rightarrow> Some None
       | first # _ \<Rightarrow>
         if low \<le> mn \<and> mx \<le> high then Some None
         else if mx < low \<or> high < mn then
           Some (Some (FRange 0 (if read first < low then Below else Above)))
         else let lo = max low mn; hi = min high mx in
           if tmin \<le> lo \<and> lo \<le> tmax \<and> tmin \<le> hi \<and> hi \<le> tmax
           then Some (int_blocks read lo hi 0 elements) else None))"

definition scan_uniform :: "half \<Rightarrow> bytes \<Rightarrow> dtype \<Rightarrow> bound \<Rightarrow> finding option option" where
  "scan_uniform h data dt b =
     (case b of (low, high) \<Rightarrow>
      if is_float dt then
        Some (case dt of Float16 \<Rightarrow> scan_float 2 data (read_f16 h) (float_low low dt) (float_high high dt)
              | Float32 \<Rightarrow> scan_float 4 data read_f32 (float_low low dt) (float_high high dt)
              | _ \<Rightarrow> scan_float 8 data read_f64 (float_low low dt) (float_high high dt))
      else if dt = DUnspecified then None
      else scan_int (dtype_size dt) data (read_int dt) (int_low low dt, int_high high dt) (scan_range dt) (type_range dt))"

definition scan_elementwise :: "half \<Rightarrow> bytes \<Rightarrow> dtype \<Rightarrow> f64 list \<Rightarrow> f64 list \<Rightarrow> finding option option" where
  "scan_elementwise h data dt low high =
     (let float = (\<lambda>index. case (nth_opt low index, nth_opt high index) of
            (Some l, Some u) \<Rightarrow> Some (if f64_is_finite l then l else Inf True, if f64_is_finite u then u else Inf False)
          | _ \<Rightarrow> None);
          int = (\<lambda>index. case (nth_opt low index, nth_opt high index) of
            (Some l, Some u) \<Rightarrow> Some (if f64_is_finite l then i128_of_f64 (f64_ceil l) else - (2 ^ 127),
                                     if f64_is_finite u then i128_of_f64 (f64_floor u) else 2 ^ 127 - 1)
          | _ \<Rightarrow> None) in
      if dt = DUnspecified then None
      else if is_float dt
      then scan_at f64_gt f64_is_nan (read_float h dt) float 0 None (chunks_exact (dtype_size dt) data)
      else scan_at int_gt (\<lambda>_. False) (read_int dt) int 0 None (chunks_exact (dtype_size dt) data))"

definition scan_typed_elementwise :: "half \<Rightarrow> bytes \<Rightarrow> dtype \<Rightarrow> bytes \<Rightarrow> bytes \<Rightarrow> finding option option" where
  "scan_typed_elementwise h data dt low high =
     (let lows = chunks_exact (dtype_size dt) low; highs = chunks_exact (dtype_size dt) high in
      if dt = DUnspecified then None
      else if is_float dt
      then scan_at f64_gt f64_is_nan (read_float h dt) (\<lambda>index. case (nth_opt lows index, nth_opt highs index) of
            (Some l, Some u) \<Rightarrow> Some (read_float h dt l, read_float h dt u) | _ \<Rightarrow> None)
          0 None (chunks_exact (dtype_size dt) data)
      else scan_at int_gt (\<lambda>_. False) (read_int dt) (\<lambda>index. case (nth_opt lows index, nth_opt highs index) of
            (Some l, Some u) \<Rightarrow> Some (read_int dt l, read_int dt u) | _ \<Rightarrow> None)
          0 None (chunks_exact (dtype_size dt) data))"

section \<open>Every scan computes the finding of its verdicts\<close>

definition finding_from :: "nat \<Rightarrow> finding option \<Rightarrow> verdict list \<Rightarrow> finding option" where
  "finding_from i rng vs = (case position (\<lambda>v. v = VNan) vs of Some k \<Rightarrow> Some (FNan (i + k))
     | None \<Rightarrow> if rng = None then first_range i vs else rng)"

lemma verdicts_finding_from: "verdicts_finding vs = finding_from 0 None vs"
  by (simp add: verdicts_finding_def finding_from_def split: option.split)

lemma finding_from_simps:
  "finding_from i rng [] = rng"
  "finding_from i rng (VNan # vs) = Some (FNan i)"
  "v \<noteq> VNan \<Longrightarrow> finding_from i rng (v # vs) =
     finding_from (Suc i) (if rng = None then (case v of VSide s \<Rightarrow> Some (FRange i s) | _ \<Rightarrow> None) else rng) vs"
  by (auto simp: finding_from_def split: option.splits verdict.splits)

lemma finding_from_append:
  "VNan \<notin> set xs \<Longrightarrow> finding_from i rng (xs @ ys) =
     finding_from (i + length xs) (if rng = None then first_range i xs else rng) ys"
proof (induction xs arbitrary: i rng)
  case Nil
  then show ?case by (cases rng) simp_all
next
  case (Cons v xs)
  then show ?case by (cases v) (simp_all add: finding_from_simps)
qed

lemma finding_from_nan:
  "position (\<lambda>v. v = VNan) xs = Some k \<Longrightarrow> finding_from i rng (xs @ ys) = Some (FNan (i + k))"
proof (induction xs arbitrary: i rng k)
  case (Cons v xs)
  then show ?case by (cases "v = VNan") (auto simp: finding_from_simps)
qed simp

definition verdict_of :: "('v \<Rightarrow> bool) \<Rightarrow> ('v \<Rightarrow> bool) \<Rightarrow> ('v \<Rightarrow> bool) \<Rightarrow> 'v \<Rightarrow> verdict" where
  "verdict_of unordered is_below is_above v =
     (if unordered v then VNan else if is_below v then VSide Below else if is_above v then VSide Above else VOk)"

lemma scan_at_run:
  assumes "\<And>k. k < length bs \<Longrightarrow> bound_at (i + k) = Some (lo (i + k), hi (i + k))"
  shows "scan_at gt unordered read bound_at i rng bs =
    Some (finding_from i rng (map (\<lambda>k. verdict_of unordered (\<lambda>v. gt (lo (i + k)) v) (\<lambda>v. gt v (hi (i + k))) (read (bs ! k))) [0..<length bs]))"
  using assms
proof (induction bs arbitrary: i rng)
  case (Cons b bs)
  have b0: "bound_at i = Some (lo i, hi i)" using Cons.prems [of 0] by simp
  have ih: "scan_at gt unordered read bound_at (Suc i) r bs =
    Some (finding_from (Suc i) r (map (\<lambda>k. verdict_of unordered (\<lambda>v. gt (lo (Suc i + k)) v) (\<lambda>v. gt v (hi (Suc i + k))) (read (bs ! k))) [0..<length bs]))" for r
    using Cons.prems [of "Suc _"] by (intro Cons.IH) simp
  have split: "map (\<lambda>k. verdict_of unordered (\<lambda>v. gt (lo (i + k)) v) (\<lambda>v. gt v (hi (i + k))) (read ((b # bs) ! k))) [0..<length (b # bs)] =
    verdict_of unordered (\<lambda>v. gt (lo i) v) (\<lambda>v. gt v (hi i)) (read b) #
    map (\<lambda>k. verdict_of unordered (\<lambda>v. gt (lo (Suc i + k)) v) (\<lambda>v. gt v (hi (Suc i + k))) (read (bs ! k))) [0..<length bs]"
    by (simp add: upt_conv_Cons map_Suc_upt [symmetric] del: upt_Suc)
  show ?case unfolding split
    by (simp add: Let_def b0 ih verdict_of_def finding_from_simps)
qed (simp add: finding_from_simps)

lemma locate_first_range:
  "\<forall>b \<in> set bs. \<not> unordered (read b) \<Longrightarrow>
   locate is_below is_above read i bs = first_range i (map (\<lambda>b. verdict_of unordered is_below is_above (read b)) bs)"
  by (induction bs arbitrary: i) (simp_all add: verdict_of_def Let_def)

lemma first_range_None_iff: "first_range i vs = None \<longleftrightarrow> (\<forall>s. VSide s \<notin> set vs)"
  by (induction i vs rule: first_range.induct) auto

lemma float_fold:
  "foldl (\<lambda>(nan, out) b. let v = read b in (nan \<or> f64_is_nan v, out \<or> f64_gt low v \<or> f64_gt v high)) (n, d) bs =
     (n \<or> (\<exists>b \<in> set bs. f64_is_nan (read b)), d \<or> (\<exists>b \<in> set bs. f64_gt low (read b) \<or> f64_gt (read b) high))"
  by (induction bs arbitrary: n d) (auto simp: Let_def)

lemma position_map: "position p (map f xs) = position (\<lambda>x. p (f x)) xs"
  by (induction xs) auto

lemma float_blocks_run:
  "float_blocks read low high base rng es =
     finding_from base rng (map (\<lambda>b. verdict_of f64_is_nan (\<lambda>v. f64_gt low v) (\<lambda>v. f64_gt v high) (read b)) es)"
proof (induction es arbitrary: base rng rule: length_induct)
  case (1 es)
  let ?ver = "\<lambda>b. verdict_of f64_is_nan (\<lambda>v. f64_gt low v) (\<lambda>v. f64_gt v high) (read b)"
  let ?block = "take BLOCK es" and ?rest = "drop BLOCK es"
  let ?nan = "\<exists>b \<in> set ?block. f64_is_nan (read b)"
  let ?out = "\<exists>b \<in> set ?block. f64_gt low (read b) \<or> f64_gt (read b) high"
  have nan_ver: "?ver b = VNan \<longleftrightarrow> f64_is_nan (read b)" for b by (simp add: verdict_of_def)
  have es: "map ?ver es = map ?ver ?block @ map ?ver ?rest" by (simp flip: map_append)
  show ?case
  proof (cases "es = []")
    case True
    then show ?thesis by (simp add: float_blocks.simps [of _ _ _ _ _ "[]"] finding_from_simps)
  next
    case False
    show ?thesis
    proof (cases ?nan)
      case True
      then obtain k where k: "position (\<lambda>b. f64_is_nan (read b)) ?block = Some k"
        by (metis not_None_eq position_None_iff)
      then have "position (\<lambda>v. v = VNan) (map ?ver ?block) = Some k" by (simp add: position_map nan_ver)
      from finding_from_nan [OF this] show ?thesis
        unfolding es using False True k by (subst float_blocks.simps) (simp add: float_fold)
    next
      case no_nan: False
      then have no: "VNan \<notin> set (map ?ver ?block)" by (auto simp: verdict_of_def)
      have loc: "locate (\<lambda>v. f64_gt low v) (\<lambda>v. f64_gt v high) read base ?block = first_range base (map ?ver ?block)"
        using no_nan by (intro locate_first_range) blast
      have "\<not> ?out \<Longrightarrow> first_range base (map ?ver ?block) = None"
        by (auto simp: first_range_None_iff verdict_of_def split: if_splits)
      then have rng: "(if ?out \<and> rng = None then locate (\<lambda>v. f64_gt low v) (\<lambda>v. f64_gt v high) read base ?block else rng) =
          (if rng = None then first_range base (map ?ver ?block) else rng)"
        using loc by auto
      have step: "float_blocks read low high base rng es =
          float_blocks read low high (base + BLOCK) (if rng = None then first_range base (map ?ver ?block) else rng) ?rest"
        using False no_nan by (subst float_blocks.simps) (simp add: float_fold rng del: if_split)
      let ?r = "if rng = None then first_range base (map ?ver ?block) else rng"
      have rest: "float_blocks read low high (base + BLOCK) ?r ?rest = finding_from (base + length ?block) ?r (map ?ver ?rest)"
      proof (cases "?rest = []")
        case True
        then show ?thesis by (simp add: float_blocks.simps [of _ _ _ _ _ "[]"] finding_from_simps)
      next
        case rest_ne: False
        then have "length ?block = BLOCK" "length ?rest < length es" using False by (simp_all add: BLOCK_def)
        then show ?thesis using 1 by simp
      qed
      show ?thesis
        unfolding step es rest using finding_from_append [OF no, of base rng "map ?ver ?rest"] by simp
    qed
  qed
qed

lemma first_range_append:
  "first_range i (xs @ ys) = (case first_range i xs of None \<Rightarrow> first_range (i + length xs) ys | Some f \<Rightarrow> Some f)"
  by (induction i xs rule: first_range.induct) (simp_all split: option.split)

lemma first_range_map_None: "first_range i (map f bs) = None \<longleftrightarrow> (\<forall>b \<in> set bs. \<forall>s. f b \<noteq> VSide s)"
  unfolding first_range_None_iff by (metis (no_types, lifting) image_iff list.set_map)

lemma int_fold:
  "foldl (\<lambda>out b. let v = read b in out \<or> v < low \<or> high < v) d bs \<longleftrightarrow> d \<or> (\<exists>b \<in> set bs. read b < low \<or> high < read b)"
  by (induction bs arbitrary: d) (auto simp: Let_def)

abbreviation int_verdict :: "int \<Rightarrow> int \<Rightarrow> int \<Rightarrow> verdict" where
  "int_verdict low high \<equiv> verdict_of (\<lambda>_. False) (\<lambda>v. v < low) (\<lambda>v. high < v)"

lemma int_blocks_run:
  "int_blocks read low high base es = first_range base (map (\<lambda>b. int_verdict low high (read b)) es)"
proof (induction es arbitrary: base rule: length_induct)
  case (1 es)
  let ?ver = "\<lambda>b. int_verdict low high (read b)"
  let ?block = "take BLOCK es" and ?rest = "drop BLOCK es"
  let ?out = "\<exists>b \<in> set ?block. read b < low \<or> high < read b"
  have es: "map ?ver es = map ?ver ?block @ map ?ver ?rest" by (simp flip: map_append)
  have loc: "locate (\<lambda>v. v < low) (\<lambda>v. high < v) read base ?block = first_range base (map ?ver ?block)"
    by (rule locate_first_range) simp
  have out: "first_range base (map ?ver ?block) = None \<longleftrightarrow> \<not> ?out"
  proof -
    have "(\<forall>s. ?ver b \<noteq> VSide s) \<longleftrightarrow> \<not> (read b < low \<or> high < read b)" for b by (auto simp: verdict_of_def)
    then show ?thesis unfolding first_range_map_None by blast
  qed
  show ?case
  proof (cases "es = [] \<or> ?out")
    case True
    then show ?thesis
    proof
      assume "es = []"
      then show ?thesis by (simp add: int_blocks.simps [of _ _ _ _ "[]"])
    next
      assume o: ?out
      then have "es \<noteq> []" by auto
      with o have "int_blocks read low high base es = first_range base (map ?ver ?block)"
        by (subst int_blocks.simps) (simp add: int_fold loc)
      with o out show ?thesis unfolding es first_range_append by (auto split: option.split)
    qed
  next
    case False
    then have step: "int_blocks read low high base es = int_blocks read low high (base + BLOCK) ?rest"
      by (subst int_blocks.simps) (simp add: int_fold)
    have "int_blocks read low high (base + BLOCK) ?rest = first_range (base + length ?block) (map ?ver ?rest)"
    proof (cases "?rest = []")
      case True
      then show ?thesis by (simp add: int_blocks.simps [of _ _ _ _ "[]"])
    next
      case rest: False
      then have "length ?block = BLOCK" "length ?rest < length es" using False by (simp_all add: BLOCK_def)
      then show ?thesis using 1 by simp
    qed
    with False out show ?thesis unfolding step es first_range_append by simp
  qed
qed

lemma map_verdict_cong: "(\<And>b. b \<in> set bs \<Longrightarrow> f b = g b) \<Longrightarrow> first_range i (map f bs) = first_range i (map g bs)"
  by (metis map_cong)

lemma scan_int_run:
  assumes "\<And>b. b \<in> set (chunks_exact n data) \<Longrightarrow> mn \<le> read b \<and> read b \<le> mx" "tmin \<le> mn" "mx \<le> tmax"
  shows "scan_int n data read (low, high) (mn, mx) (tmin, tmax) =
    Some (first_range 0 (map (\<lambda>b. int_verdict low high (read b)) (chunks_exact n data)))"
proof (cases "chunks_exact n data")
  case Nil
  then show ?thesis by (simp add: scan_int_def)
next
  case (Cons b bs)
  have b: "mn \<le> read b" "read b \<le> mx" using assms(1) [of b] Cons by simp_all
  have def: "scan_int n data read (low, high) (mn, mx) (tmin, tmax) =
    (if low \<le> mn \<and> mx \<le> high then Some None
     else if mx < low \<or> high < mn then Some (Some (FRange 0 (if read b < low then Below else Above)))
     else if tmin \<le> max low mn \<and> max low mn \<le> tmax \<and> tmin \<le> min high mx \<and> min high mx \<le> tmax
     then Some (int_blocks read (max low mn) (min high mx) 0 (chunks_exact n data)) else None)"
    by (simp add: scan_int_def Cons Let_def)
  consider "low \<le> mn \<and> mx \<le> high" | "\<not> (low \<le> mn \<and> mx \<le> high)" "mx < low \<or> high < mn"
    | "\<not> (low \<le> mn \<and> mx \<le> high)" "\<not> (mx < low \<or> high < mn)" by blast
  then show ?thesis
  proof cases
    case 1
    have "first_range 0 (map (\<lambda>b. int_verdict low high (read b)) (chunks_exact n data)) = None"
      using 1 assms(1) unfolding first_range_map_None by (force simp: verdict_of_def)
    with 1 def show ?thesis by simp
  next
    case 2
    then show ?thesis unfolding def unfolding Cons using b by (auto simp: verdict_of_def)
  next
    case 3
    have eq: "int_blocks read (max low mn) (min high mx) 0 (chunks_exact n data) =
        first_range 0 (map (\<lambda>b. int_verdict low high (read b)) (chunks_exact n data))"
      unfolding int_blocks_run by (rule map_verdict_cong) (use assms(1) in \<open>fastforce simp: verdict_of_def\<close>)
    have c: "tmin \<le> max low mn \<and> max low mn \<le> tmax \<and> tmin \<le> min high mx \<and> min high mx \<le> tmax"
      using 3 b assms(2,3) by auto
    show ?thesis unfolding def if_not_P [OF 3(1)] if_not_P [OF 3(2)] if_P [OF c] eq ..
  qed
qed

section \<open>The reference: comparison through \<open>Scalar::cmp_typed\<close>\<close>

definition scalar_gt :: "dtype \<Rightarrow> scalar \<Rightarrow> scalar \<Rightarrow> bool" where
  "scalar_gt dt low high \<longleftrightarrow> cmp_typed dt low high = Some Greater"

definition ref_verdict :: "dtype \<Rightarrow> bound \<Rightarrow> scalar \<Rightarrow> verdict" where
  "ref_verdict dt b s = (case b of (lo, hi) \<Rightarrow>
     if s = SFloat NaN then VNan
     else if (case lo of Some l \<Rightarrow> scalar_gt dt l s | None \<Rightarrow> False) then VSide Below
     else if (case hi of Some u \<Rightarrow> scalar_gt dt s u | None \<Rightarrow> False) then VSide Above
     else VOk)"

lemma partial_cmp_Greater: "f64_partial_cmp a b = Some Greater \<longleftrightarrow> f64_lt b a"
  by (cases a; cases b) (auto simp: f64_partial_cmp_def)

lemma scalar_gt_exact: "scalar_gt dt a b \<longleftrightarrow> f64_lt (exact dt b) (exact dt a)"
  by (simp add: scalar_gt_def cmp_typed_eq partial_cmp_Greater)

subsection \<open>Floats\<close>

definition float_bound :: "scalar option \<Rightarrow> bool" where
  "float_bound b = (case b of Some (SFloat _) \<Rightarrow> True | None \<Rightarrow> True | _ \<Rightarrow> False)"

lemma float_verdict:
  assumes "float_bound lo" "float_bound hi"
  shows "verdict_of f64_is_nan (\<lambda>v. f64_gt (float_low lo dt) v) (\<lambda>v. f64_gt v (float_high hi dt)) f =
    ref_verdict dt (lo, hi) (SFloat f)"
proof -
  have low: "f64_gt (float_low lo dt) f \<longleftrightarrow> (case lo of Some l \<Rightarrow> scalar_gt dt l (SFloat f) | None \<Rightarrow> False)"
    using assms(1) by (cases f) (auto simp: float_bound_def f64_gt_def float_low_def scalar_gt_exact exact_def
        scalar_to_f64_def split: option.splits scalar.splits)
  have high: "f64_gt f (float_high hi dt) \<longleftrightarrow> (case hi of Some u \<Rightarrow> scalar_gt dt (SFloat f) u | None \<Rightarrow> False)"
    using assms(2) by (cases f) (auto simp: float_bound_def f64_gt_def float_high_def scalar_gt_exact exact_def
        scalar_to_f64_def split: option.splits scalar.splits)
  show ?thesis by (simp only: verdict_of_def ref_verdict_def prod.case low high f64_is_nan_def scalar.inject)
qed

lemma decode_float:
  "is_float dt \<Longrightarrow> length c = dtype_size dt \<Longrightarrow> decode_scalar h c dt = Some (SFloat (read_float h dt c))"
  by (cases dt) (simp_all add: is_float_def decode_scalar_def read_float_def read_f16_def read_f32_def read_f64_def)

subsection \<open>Integers\<close>

lemma exact_int_less [simp]: "f64_lt (exact_int a) (exact_int b) \<longleftrightarrow> a < b"
  using f64_unit_pos by (simp add: exact_int_def sval_exact_int)

lemma exact_int_scalar: "\<not> (\<exists>f. s = SFloat f) \<Longrightarrow> exact dt s = exact_int (int_scalar s dt)"
  by (cases s) (auto simp: exact_def int_scalar_def scalar_as_u64_def scalar_as_i64_def)

lemma from_le_s_range: "bs \<noteq> [] \<Longrightarrow> - (2 ^ (8 * length bs - 1)) \<le> from_le_s bs \<and> from_le_s bs < 2 ^ (8 * length bs - 1)"
  using wrap_s_range [of "8 * length bs" "from_le_u bs"] by (simp add: from_le_s_def)

lemma read_int_range:
  assumes "\<not> is_float dt" "dt \<noteq> DUnspecified" "length c = dtype_size dt"
  shows "fst (scan_range dt) \<le> read_int dt c \<and> read_int dt c \<le> snd (scan_range dt)"
proof -
  have "c \<noteq> []" using assms(2,3) dtype_size_pos [of dt] by auto
  from from_le_s_range [OF this] from_le_u_bounds [of c] assms show ?thesis
    by (cases dt) (auto simp: is_float_def read_int_def scan_range_def)
qed

lemma from_le_u_one: "length c = Suc 0 \<Longrightarrow> uint (hd c) = from_le_u c"
  by (auto simp: length_Suc_conv)

lemma uint_word_of_int_64: "0 \<le> x \<Longrightarrow> x < 2 ^ 64 \<Longrightarrow> uint (word_of_int x :: i64) = x"
  by (simp add: uint_word_of_int)

lemma decode_int:
  assumes "\<not> is_float dt" "dt \<noteq> DUnspecified" "length c = dtype_size dt"
  obtains s where "decode_scalar h c dt = Some s" "\<not> (\<exists>f. s = SFloat f)" "int_scalar s dt = read_int dt c"
  using assms(1,2,3) read_int_range [OF assms] that
  by (cases dt) (auto simp: decode_scalar_def is_float_def read_int_def scan_range_def int_scalar_def scalar_as_u64_def
      scalar_as_i64_def sint_word_of_int_64 from_le_u_one uint_word_of_int_64)

lemma div_less_iff: "0 < u \<Longrightarrow> a div u < b \<longleftrightarrow> a < b * (u :: int)"
proof -
  assume u: "0 < u"
  have a: "a = a div u * u + a mod u" "0 \<le> a mod u" "a mod u < u" using u by simp_all
  show ?thesis
  proof
    assume "a div u < b"
    then have "(a div u + 1) * u \<le> b * u" using u by (intro mult_right_mono) simp_all
    then have "a div u * u + u \<le> b * u" by (simp add: distrib_right)
    with a show "a < b * u" by linarith
  next
    assume "a < b * u"
    with a have "a div u * u < b * u" by linarith
    then show "a div u < b" using u by simp
  qed
qed

lemma i128_of_whole:
  assumes "sval s q = k * int f64_unit"
  shows "i128_of_f64 (Fin s q) = max (- (2 ^ 127)) (min (2 ^ 127 - 1) k)"
  using trunc_whole [OF assms] by (simp add: i128_of_f64_def f64_as_int_def)

lemma ceil_neg_floor: "f64_ceil f = f64_neg (f64_floor (f64_neg f))"
  by (cases f) (simp_all add: f64_ceil_def f64_floor_def f64_neg_def)

lemma sval_neg: "sval (\<not> s) m = - sval s m"
  by (simp add: sval_def)

lemma int_low_spec:
  assumes "- (2 ^ 127) \<le> v" "v < 2 ^ 127 - 1"
  shows "v < int_low lo dt \<longleftrightarrow> (case lo of Some l \<Rightarrow> f64_lt (exact_int v) (exact dt l) | None \<Rightarrow> False)"
proof (cases lo)
  case None
  then show ?thesis using assms by (simp add: int_low_def)
next
  case (Some l)
  show ?thesis
  proof (cases l)
    case (SFloat f)
    show ?thesis
    proof (cases f)
      case NaN
      then show ?thesis using assms by (simp add: Some SFloat int_low_def f64_is_nan_def exact_def exact_int_def)
    next
      case (Inf s)
      then show ?thesis using assms by (simp add: Some SFloat int_low_def f64_is_nan_def exact_def exact_int_def
            f64_ceil_def i128_of_f64_def f64_as_int_def)
    next
      case (Fin s m)
      let ?k = "- (- sval s m div int f64_unit)"
      obtain q where q: "f64_floor (Fin (\<not> s) m) = Fin (\<not> s) q" by (simp add: f64_floor_def)
      have ceil: "f64_ceil (Fin s m) = Fin s q" unfolding ceil_neg_floor by (simp add: f64_neg_def q)
      have "sval s q = ?k * int f64_unit" using sval_floor [OF q] by (simp add: sval_neg)
      then have "int_low lo dt = max (- (2 ^ 127)) (min (2 ^ 127 - 1) ?k)"
        unfolding int_low_def Some SFloat Fin by (simp only: i128_of_whole f64_is_nan_def ceil scalar.case option.case f64.distinct if_False)
      then have "v < int_low lo dt \<longleftrightarrow> v < ?k" using assms by (auto simp: less_max_iff_disj)
      also have "\<dots> \<longleftrightarrow> - sval s m div int f64_unit < - v" by linarith
      also have "\<dots> \<longleftrightarrow> v * int f64_unit < sval s m" using f64_unit_pos by (subst div_less_iff) auto
      finally show ?thesis by (simp add: Some SFloat Fin exact_def exact_int_def sval_exact_int)
    qed
  qed (simp_all add: Some int_low_def exact_int_scalar)
qed

lemma int_high_spec:
  assumes "- (2 ^ 127) < v" "v \<le> 2 ^ 127 - 1"
  shows "int_high hi dt < v \<longleftrightarrow> (case hi of Some u \<Rightarrow> f64_lt (exact dt u) (exact_int v) | None \<Rightarrow> False)"
proof (cases hi)
  case None
  then show ?thesis using assms by (simp add: int_high_def)
next
  case (Some l)
  show ?thesis
  proof (cases l)
    case (SFloat f)
    show ?thesis
    proof (cases f)
      case NaN
      then show ?thesis using assms by (simp add: Some SFloat int_high_def f64_is_nan_def exact_def exact_int_def)
    next
      case (Inf s)
      then show ?thesis using assms by (simp add: Some SFloat int_high_def f64_is_nan_def exact_def exact_int_def
            f64_floor_def i128_of_f64_def f64_as_int_def)
    next
      case (Fin s m)
      let ?k = "sval s m div int f64_unit"
      obtain q where q: "f64_floor (Fin s m) = Fin s q" by (simp add: f64_floor_def)
      have "int_high hi dt = max (- (2 ^ 127)) (min (2 ^ 127 - 1) ?k)"
        unfolding int_high_def Some SFloat Fin
        by (simp only: i128_of_whole [OF sval_floor [OF q]] f64_is_nan_def q scalar.case option.case f64.distinct if_False)
      then have "int_high hi dt < v \<longleftrightarrow> ?k < v" using assms by (auto simp: min_less_iff_disj)
      also have "\<dots> \<longleftrightarrow> sval s m < v * int f64_unit" using f64_unit_pos by (subst div_less_iff) auto
      finally show ?thesis by (simp add: Some SFloat Fin exact_def exact_int_def sval_exact_int)
    qed
  qed (simp_all add: Some int_high_def exact_int_scalar)
qed

lemma read_int_i128:
  assumes "\<not> is_float dt" "dt \<noteq> DUnspecified" "length c = dtype_size dt"
  shows "- (2 ^ 127) < read_int dt c \<and> read_int dt c < 2 ^ 127 - 1"
  using read_int_range [OF assms] assms(1,2) by (cases dt) (auto simp: scan_range_def is_float_def)

lemma int_verdict_ref:
  assumes "\<not> is_float dt" "dt \<noteq> DUnspecified" "length c = dtype_size dt" "decode_scalar h c dt = Some s"
  shows "int_verdict (int_low lo dt) (int_high hi dt) (read_int dt c) = ref_verdict dt (lo, hi) s"
proof -
  obtain s' where "decode_scalar h c dt = Some s'" "\<not> (\<exists>f. s' = SFloat f)" "int_scalar s' dt = read_int dt c"
    using decode_int [OF assms(1-3)] by metis
  with assms(4) have s: "s \<noteq> SFloat NaN" "exact dt s = exact_int (read_int dt c)"
    using exact_int_scalar [of s dt] by auto
  from read_int_i128 [OF assms(1-3)] have v: "- (2 ^ 127) \<le> read_int dt c" "read_int dt c < 2 ^ 127 - 1"
    "- (2 ^ 127) < read_int dt c" "read_int dt c \<le> 2 ^ 127 - 1" by auto
  show ?thesis
    unfolding verdict_of_def ref_verdict_def prod.case if_False int_low_spec [OF v(1,2)] int_high_spec [OF v(3,4)]
      scalar_gt_exact s(2)
    using s(1) by simp
qed

section \<open>The scans agree with the reference\<close>

text \<open>The bounds a space resolves to, and the scan each of them selects.\<close>

datatype bounds = Uniform bound | Elementwise "f64 list" "f64 list" | TypedElementwise bytes bytes

definition scan :: "half \<Rightarrow> bytes \<Rightarrow> dtype \<Rightarrow> bounds \<Rightarrow> finding option option" where
  "scan h data dt bs = (case bs of
     Uniform b \<Rightarrow> scan_uniform h data dt b
   | Elementwise low high \<Rightarrow> scan_elementwise h data dt low high
   | TypedElementwise low high \<Rightarrow> scan_typed_elementwise h data dt low high)"

text \<open>What \<open>box_bounds\<close> has checked of them for \<open>n\<close> elements; and the bound of every element, as scalars.\<close>

definition bounds_for :: "dtype \<Rightarrow> nat \<Rightarrow> bounds \<Rightarrow> bool" where
  "bounds_for dt n bs = (case bs of
     Uniform (lo, hi) \<Rightarrow> is_float dt \<longrightarrow> float_bound lo \<and> float_bound hi
   | Elementwise low high \<Rightarrow> length low = n \<and> length high = n
   | TypedElementwise low high \<Rightarrow> length low = n * dtype_size dt \<and> length high = n * dtype_size dt)"

definition scalar_bounds :: "half \<Rightarrow> dtype \<Rightarrow> nat \<Rightarrow> bounds \<Rightarrow> bound list" where
  "scalar_bounds h dt n bs = (case bs of
     Uniform b \<Rightarrow> replicate n b
   | Elementwise low high \<Rightarrow> zip (map finite_float low) (map finite_float high)
   | TypedElementwise low high \<Rightarrow>
       zip (map (\<lambda>c. decode_scalar h c dt) (chunks_exact (dtype_size dt) low))
           (map (\<lambda>c. decode_scalar h c dt) (chunks_exact (dtype_size dt) high)))"

text \<open>An element against the thresholds of its bound.\<close>

definition threshold_verdict :: "half \<Rightarrow> dtype \<Rightarrow> bound \<Rightarrow> bytes \<Rightarrow> verdict" where
  "threshold_verdict h dt b c = (case b of (lo, hi) \<Rightarrow>
     if is_float dt
     then verdict_of f64_is_nan (\<lambda>v. f64_gt (float_low lo dt) v) (\<lambda>v. f64_gt v (float_high hi dt)) (read_float h dt c)
     else int_verdict (int_low lo dt) (int_high hi dt) (read_int dt c))"

lemma chunks_exact_length: "c \<in> set (chunks_exact n xs) \<Longrightarrow> length c = n"
proof (induction n xs rule: chunks_exact.induct)
  case (1 n xs)
  show ?case
  proof (cases "n = 0 \<or> length xs < n")
    case True
    with 1(2) show ?thesis by (simp add: chunks_exact.simps [of n xs])
  next
    case False
    then have "c = take n xs \<or> c \<in> set (chunks_exact n (drop n xs))" using 1(2) by (subst (asm) chunks_exact.simps) simp
    then show ?thesis using 1(1) False by auto
  qed
qed

lemma count_chunks: "0 < n \<Longrightarrow> length xs mod n = 0 \<Longrightarrow> length (chunks_exact n xs) = length xs div n"
  by (rule conjunct2 [OF conjunct2 [OF chunks_exact_whole]])

lemma threshold_verdict_ref:
  assumes "dt \<noteq> DUnspecified" "length c = dtype_size dt" "decode_scalar h c dt = Some s"
    "is_float dt \<Longrightarrow> float_bound lo \<and> float_bound hi"
  shows "threshold_verdict h dt (lo, hi) c = ref_verdict dt (lo, hi) s"
proof (cases "is_float dt")
  case True
  then have "s = SFloat (read_float h dt c)" using decode_float [OF True assms(2), of h] assms(3) by simp
  with True assms(4) show ?thesis by (simp add: threshold_verdict_def float_verdict)
next
  case False
  with assms show ?thesis by (simp add: threshold_verdict_def int_verdict_ref)
qed

lemma scan_uniform_run:
  assumes "dt \<noteq> DUnspecified"
  shows "scan_uniform h data dt b = Some (verdicts_finding (map (threshold_verdict h dt b) (chunks_exact (dtype_size dt) data)))"
proof (cases "is_float dt")
  case True
  have "scan_uniform h data dt b = Some (scan_float (dtype_size dt) data (read_float h dt) (float_low (fst b) dt) (float_high (snd b) dt))"
    using True by (cases dt; cases b) (simp_all add: is_float_def scan_uniform_def read_float_def)
  also have "\<dots> = Some (verdicts_finding (map (threshold_verdict h dt b) (chunks_exact (dtype_size dt) data)))"
    using True by (cases b) (simp add: scan_float_def float_blocks_run verdicts_finding_from threshold_verdict_def [abs_def])
  finally show ?thesis .
next
  case False
  have chunk: "length c = dtype_size dt" if "c \<in> set (chunks_exact (dtype_size dt) data)" for c
    using that by (rule chunks_exact_length)
  obtain mn mx tmin tmax where r: "scan_range dt = (mn, mx)" "type_range dt = (tmin, tmax)" by (cases "scan_range dt"; cases "type_range dt")
  have t: "tmin \<le> mn" "mx \<le> tmax" using r by (cases dt; simp add: scan_range_def)+
  have no: "position (\<lambda>v. v = VNan) (map (threshold_verdict h dt b) cs) = None" for cs
    using False by (auto simp: position_None_iff threshold_verdict_def verdict_of_def split: prod.splits)
  have "scan_uniform h data dt b = scan_int (dtype_size dt) data (read_int dt) (int_low (fst b) dt, int_high (snd b) dt) (mn, mx) (tmin, tmax)"
    using False assms by (cases b) (simp add: scan_uniform_def r)
  also have "\<dots> = Some (first_range 0 (map (\<lambda>c. int_verdict (int_low (fst b) dt) (int_high (snd b) dt) (read_int dt c)) (chunks_exact (dtype_size dt) data)))"
    using read_int_range [OF False assms chunk] by (intro scan_int_run t) (simp add: r)
  also have "\<dots> = Some (verdicts_finding (map (threshold_verdict h dt b) (chunks_exact (dtype_size dt) data)))"
    using False no by (cases b) (simp add: verdicts_finding_def threshold_verdict_def [abs_def])
  finally show ?thesis .
qed

lemma scan_at_bounds:
  assumes "dt \<noteq> DUnspecified" "length bs = length cs"
    "is_float dt \<Longrightarrow> \<forall>k < length cs. float_at k = Some (float_low (fst (bs ! k)) dt, float_high (snd (bs ! k)) dt)"
    "\<not> is_float dt \<Longrightarrow> \<forall>k < length cs. int_at k = Some (int_low (fst (bs ! k)) dt, int_high (snd (bs ! k)) dt)"
  shows "(if is_float dt then scan_at f64_gt f64_is_nan (read_float h dt) float_at 0 None cs
      else scan_at int_gt (\<lambda>_. False) (read_int dt) int_at 0 None cs) =
    Some (verdicts_finding (map2 (threshold_verdict h dt) bs cs))"
proof -
  have zip: "map (\<lambda>k. threshold_verdict h dt (bs ! k) (cs ! k)) [0..<length cs] = map2 (threshold_verdict h dt) bs cs"
    using assms(2) by (intro nth_equalityI) simp_all
  show ?thesis
  proof (cases "is_float dt")
    case True
    with assms(3) show ?thesis unfolding zip [symmetric] verdicts_finding_from
      by (subst scan_at_run [where lo = "\<lambda>k. float_low (fst (bs ! k)) dt" and hi = "\<lambda>k. float_high (snd (bs ! k)) dt"])
        (simp_all add: threshold_verdict_def case_prod_beta)
  next
    case False
    with assms(4) show ?thesis unfolding zip [symmetric] verdicts_finding_from
      by (subst scan_at_run [where lo = "\<lambda>k. int_low (fst (bs ! k)) dt" and hi = "\<lambda>k. int_high (snd (bs ! k)) dt"])
        (simp_all add: threshold_verdict_def case_prod_beta int_gt_def [abs_def])
  qed
qed

lemma scan_elementwise_run:
  assumes "dt \<noteq> DUnspecified" "bounds_for dt (length (chunks_exact (dtype_size dt) data)) (Elementwise low high)"
  shows "scan_elementwise h data dt low high = Some (verdicts_finding (map2 (threshold_verdict h dt)
    (scalar_bounds h dt (length (chunks_exact (dtype_size dt) data)) (Elementwise low high)) (chunks_exact (dtype_size dt) data)))"
proof -
  have len: "length low = length (chunks_exact (dtype_size dt) data)" "length high = length (chunks_exact (dtype_size dt) data)"
    using assms(2) by (simp_all add: bounds_for_def)
  show ?thesis
    unfolding scan_elementwise_def Let_def if_not_P [OF assms(1)]
    by (rule scan_at_bounds)
      (use assms(1) len in \<open>auto simp: scalar_bounds_def nth_opt_eq finite_float_def float_low_def float_high_def
          int_low_def int_high_def scalar_to_f64_def f64_is_nan_def f64_is_finite_def split: f64.splits\<close>)
qed

lemma scan_typed_elementwise_run:
  assumes "dt \<noteq> DUnspecified" "bounds_for dt (length (chunks_exact (dtype_size dt) data)) (TypedElementwise low high)"
  shows "scan_typed_elementwise h data dt low high = Some (verdicts_finding (map2 (threshold_verdict h dt)
    (scalar_bounds h dt (length (chunks_exact (dtype_size dt) data)) (TypedElementwise low high)) (chunks_exact (dtype_size dt) data)))"
proof -
  let ?n = "length (chunks_exact (dtype_size dt) data)"
  have n: "0 < dtype_size dt" using assms(1) by (simp add: dtype_size_pos)
  have len: "length (chunks_exact (dtype_size dt) low) = ?n" "length (chunks_exact (dtype_size dt) high) = ?n"
    using assms(2) n count_chunks [OF n, of low] count_chunks [OF n, of high] by (simp_all add: bounds_for_def)
  have float: "float_low (decode_scalar h c dt) dt = read_float h dt c \<and> float_high (decode_scalar h c dt) dt = read_float h dt c"
    if "is_float dt" "length c = dtype_size dt" for c
    using decode_float [OF that, of h] by (simp add: float_low_def float_high_def scalar_to_f64_def)
  have int: "int_low (decode_scalar h c dt) dt = read_int dt c \<and> int_high (decode_scalar h c dt) dt = read_int dt c"
    if "\<not> is_float dt" "length c = dtype_size dt" for c
    by (rule decode_int [OF that(1) assms(1) that(2), of h])
      (auto simp: int_low_def int_high_def split: scalar.split)
  have chunk: "length (chunks_exact (dtype_size dt) xs ! k) = dtype_size dt" if "k < length (chunks_exact (dtype_size dt) xs)" for k and xs :: bytes
    by (rule chunks_exact_length [OF nth_mem [OF that]])
  let ?b = "scalar_bounds h dt ?n (TypedElementwise low high)"
  have b: "length ?b = ?n" "\<And>k. k < ?n \<Longrightarrow> ?b ! k =
      (decode_scalar h (chunks_exact (dtype_size dt) low ! k) dt, decode_scalar h (chunks_exact (dtype_size dt) high ! k) dt)"
    using len by (simp_all add: scalar_bounds_def)
  show ?thesis
    unfolding scan_typed_elementwise_def Let_def if_not_P [OF assms(1)]
  proof (rule scan_at_bounds [OF assms(1) b(1)]; intro allI impI)
    fix k assume "is_float dt" and k: "k < ?n"
    then show "(case (nth_opt (chunks_exact (dtype_size dt) low) k, nth_opt (chunks_exact (dtype_size dt) high) k) of
        (Some l, Some u) \<Rightarrow> Some (read_float h dt l, read_float h dt u) | _ \<Rightarrow> None) =
      Some (float_low (fst (?b ! k)) dt, float_high (snd (?b ! k)) dt)"
      unfolding b(2) [OF k] using float chunk len by (simp add: nth_opt_eq)
  next
    fix k assume "\<not> is_float dt" and k: "k < ?n"
    then show "(case (nth_opt (chunks_exact (dtype_size dt) low) k, nth_opt (chunks_exact (dtype_size dt) high) k) of
        (Some l, Some u) \<Rightarrow> Some (read_int dt l, read_int dt u) | _ \<Rightarrow> None) =
      Some (int_low (fst (?b ! k)) dt, int_high (snd (?b ! k)) dt)"
      unfolding b(2) [OF k] using int chunk len by (simp add: nth_opt_eq)
  qed
qed

lemma scan_run:
  assumes "dt \<noteq> DUnspecified" "bounds_for dt (length (chunks_exact (dtype_size dt) data)) bs"
  shows "scan h data dt bs = Some (verdicts_finding (map2 (threshold_verdict h dt)
    (scalar_bounds h dt (length (chunks_exact (dtype_size dt) data)) bs) (chunks_exact (dtype_size dt) data)))"
proof (cases bs)
  case (Uniform b)
  have "map (threshold_verdict h dt b) cs = map2 (threshold_verdict h dt) (replicate (length cs) b) cs" for cs
    by (induction cs) simp_all
  with Uniform show ?thesis by (simp add: scan_def scan_uniform_run [OF assms(1)] scalar_bounds_def)
next
  case (Elementwise low high)
  with scan_elementwise_run [OF assms(1), of data low high h] assms(2) show ?thesis by (simp add: scan_def)
next
  case (TypedElementwise low high)
  with scan_typed_elementwise_run [OF assms(1), of data low high h] assms(2) show ?thesis by (simp add: scan_def)
qed

lemma scalar_bounds_float:
  assumes "dt \<noteq> DUnspecified" "bounds_for dt n bs" "is_float dt" "(lo, hi) \<in> set (scalar_bounds h dt n bs)"
  shows "float_bound lo \<and> float_bound hi"
proof (cases bs)
  case (Uniform b)
  with assms show ?thesis by (auto simp: bounds_for_def scalar_bounds_def)
next
  case (Elementwise low high)
  have "float_bound (finite_float v)" for v by (simp add: float_bound_def finite_float_def)
  moreover have "lo \<in> finite_float ` set low" "hi \<in> finite_float ` set high"
    using Elementwise assms(4) set_zip_leftD set_zip_rightD by (fastforce simp: scalar_bounds_def)+
  ultimately show ?thesis by blast
next
  case (TypedElementwise low high)
  have "float_bound (decode_scalar h c dt)" if "c \<in> set (chunks_exact (dtype_size dt) xs)" for c xs
    using decode_float [OF assms(3) chunks_exact_length [OF that], of h] by (simp add: float_bound_def)
  moreover have "lo \<in> (\<lambda>c. decode_scalar h c dt) ` set (chunks_exact (dtype_size dt) low)"
    "hi \<in> (\<lambda>c. decode_scalar h c dt) ` set (chunks_exact (dtype_size dt) high)"
    using TypedElementwise assms(4) set_zip_leftD set_zip_rightD by (fastforce simp: scalar_bounds_def)+
  ultimately show ?thesis by blast
qed

lemma length_scalar_bounds:
  assumes "dt \<noteq> DUnspecified" "bounds_for dt n bs" shows "length (scalar_bounds h dt n bs) = n"
proof -
  have "0 < dtype_size dt" using assms(1) by (simp add: dtype_size_pos)
  then show ?thesis using assms(2)
    by (cases bs) (simp_all add: bounds_for_def scalar_bounds_def count_chunks)
qed

lemma scan_reference:
  assumes "dt \<noteq> DUnspecified" "decode_scalars h data dt = Some (Inr vs)" "bounds_for dt (length vs) bs"
  shows "scan h data dt bs = Some (verdicts_finding (map2 (ref_verdict dt) (scalar_bounds h dt (length vs) bs) vs))"
proof -
  let ?cs = "chunks_exact (dtype_size dt) data" and ?bs = "scalar_bounds h dt (length vs) bs"
  have dec: "map (\<lambda>c. decode_scalar h c dt) ?cs = map Some vs"
    using assms(1,2) by (auto simp: decode_scalars_def those_Some_iff split: if_splits)
  then have len: "length ?cs = length vs" using map_eq_imp_length_eq by blast
  have bs: "length ?bs = length vs" by (rule length_scalar_bounds [OF assms(1,3)])
  have "map2 (threshold_verdict h dt) ?bs ?cs = map2 (ref_verdict dt) ?bs vs"
  proof (rule nth_equalityI)
    fix k assume "k < length (map2 (threshold_verdict h dt) ?bs ?cs)"
    then have k: "k < length ?cs" "k < length vs" "k < length ?bs" by (simp_all add: bs len)
    obtain lo hi where b: "?bs ! k = (lo, hi)" by (cases "?bs ! k")
    have "threshold_verdict h dt (lo, hi) (?cs ! k) = ref_verdict dt (lo, hi) (vs ! k)"
    proof (rule threshold_verdict_ref [OF assms(1)])
      show "length (?cs ! k) = dtype_size dt" using nth_mem [OF k(1)] by (rule chunks_exact_length)
      show "decode_scalar h (?cs ! k) dt = Some (vs ! k)" using arg_cong [OF dec, of "\<lambda>xs. xs ! k"] k by simp
      show "float_bound lo \<and> float_bound hi" if "is_float dt"
        using nth_mem [OF k(3)] b by (intro scalar_bounds_float [OF assms(1,3) that, where h = h]) simp
    qed
    with k b show "map2 (threshold_verdict h dt) ?bs ?cs ! k = map2 (ref_verdict dt) ?bs vs ! k" by simp
  qed (simp add: bs len)
  with scan_run [OF assms(1), of data bs h] assms(3) len show ?thesis by simp
qed

text \<open>
  C22. The block-wise and the per-element scans never panic and find exactly what comparing the decoded
  elements one by one does: the first NaN if there is one, else the first element that
  \<open>Scalar::cmp_typed\<close> puts outside its bound, with its side.
\<close>

theorem scans_match_reference:
  assumes "dt \<noteq> DUnspecified" "length data mod dtype_size dt = 0"
    "bounds_for dt (length data div dtype_size dt) bs"
  shows "\<exists>vs. decode_scalars h data dt = Some (Inr vs) \<and> length vs = length data div dtype_size dt \<and>
    scan h data dt bs = Some (verdicts_finding (map2 (ref_verdict dt) (scalar_bounds h dt (length vs) bs) vs))"
proof -
  obtain vs where "decode_scalars h data dt = Some (Inr vs)" "length vs = length data div dtype_size dt"
    using decode_whole [OF assms(1,2), of h] by auto
  with scan_reference [OF assms(1), of h data vs bs] assms(3) show ?thesis by auto
qed

theorem scans_match_reference_witness:
  "\<exists>vs. decode_scalars ieee_half [250, 6, 1] Int8 = Some (Inr vs) \<and> length vs = 3 \<and>
    scan ieee_half [250, 6, 1] Int8 (Uniform (Some (SInt 0), Some (SInt 5))) =
      Some (verdicts_finding (map2 (ref_verdict Int8)
        (scalar_bounds ieee_half Int8 (length vs) (Uniform (Some (SInt 0), Some (SInt 5)))) vs))"
  using scans_match_reference [of Int8 "[250, 6, 1]" "Uniform (Some (SInt 0), Some (SInt 5))" ieee_half]
  by (simp add: bounds_for_def is_float_def numeral_3_eq_3)

end
