(* ===== verification/SpaceSpecs.thy ===== *)
theory SpaceSpecs
  imports BoxScan Tensors OrdMap "HOL-Library.List_Lexorder" "HOL-Library.Char_ord"
begin

text \<open>
  Space specs (\<^verbatim>\<open>crates/rlmesh-spaces/src/types.rs\<close> and \<open>spaces/\<close>): the tree of Box, Discrete,
  MultiBinary, MultiDiscrete, Text, Dict and Tuple spaces, its validation and its builders.

  A \<open>Result\<close> is a sum; a function that may panic returns it in an \<open>option\<close>, whose \<open>None\<close> is the panic.
  A space error carries its path, built as the source builds it, and its message as the format string
  with the values it shows. A loop over the children of a composite space takes the checks of
  the children as a list, so that an index past their end is a panic, as in the source.
\<close>

section \<open>Errors\<close>

datatype msg_arg =
    AS string | AN nat | AI int | AW i64 | AF f64 | AD dtype | AL "int list" | AE scalar_error | AO side

datatype space_msg = Msg string "msg_arg list"

datatype space_error = Invalid (err_path: string) (err_msg: space_msg)

type_synonym 'a checked = "(space_error + 'a) option"

definition fail_at :: "string \<Rightarrow> space_msg \<Rightarrow> 'a checked" where
  "fail_at path msg = Some (Inl (Invalid path msg))"

text \<open>\<open>?\<close> on a call that may panic.\<close>

definition bind_ck :: "'a checked \<Rightarrow> ('a \<Rightarrow> 'b checked) \<Rightarrow> 'b checked" where
  "bind_ck r f = (case r of None \<Rightarrow> None | Some (Inl e) \<Rightarrow> Some (Inl e) | Some (Inr a) \<Rightarrow> f a)"

lemma bind_ck_simps [simp, res_simps]:
  "bind_ck None f = None"
  "bind_ck (Some (Inl e)) f = Some (Inl e)"
  "bind_ck (Some (Inr a)) f = f a"
  by (simp_all add: bind_ck_def)

lemma bind_ck_ok_iff [res_simps]:
  "bind_ck r f = Some (Inr b) \<longleftrightarrow> (\<exists>a. r = Some (Inr a) \<and> f a = Some (Inr b))"
  by (cases r; cases "the r") auto

lemma fail_at_ok [simp, res_simps]: "fail_at p m \<noteq> Some (Inr a)" "fail_at p m \<noteq> None"
  by (simp_all add: fail_at_def)

section \<open>Specs\<close>

datatype box_bounds =
    BUnbounded bool
  | BUniform f64 f64
  | BElementwise "f64 list" "f64 list"
  | BTypedUniform bytes bytes
  | BTypedElementwise bytes bytes

datatype 's space_kind =
    KBox "box_bounds option"
  | KDiscrete i64 i64
  | KMultiBinary
  | KMultiDiscrete "i64 list"
  | KText i64 i64 string
  | KDict "string list" "'s list"
  | KTuple "'s list"

datatype space_spec = SpaceSpec (ss_shape: "int list") (ss_dtype: dtype) (ss_spec: "space_spec space_kind option")

datatype space_type = TUnspecified | TBox | TDiscrete | TMultiBinary | TMultiDiscrete | TText | TDict | TTuple

definition space_type_of :: "space_spec \<Rightarrow> space_type" where
  "space_type_of s = (case ss_spec s of
     Some (KBox _) \<Rightarrow> TBox | Some (KDiscrete _ _) \<Rightarrow> TDiscrete | Some KMultiBinary \<Rightarrow> TMultiBinary
   | Some (KMultiDiscrete _) \<Rightarrow> TMultiDiscrete | Some (KText _ _ _) \<Rightarrow> TText
   | Some (KDict _ _) \<Rightarrow> TDict | Some (KTuple _) \<Rightarrow> TTuple | None \<Rightarrow> TUnspecified)"

fun space_type_to_i32 :: "space_type \<Rightarrow> int" where
  "space_type_to_i32 TUnspecified = 0"
| "space_type_to_i32 TBox = 1"
| "space_type_to_i32 TDiscrete = 2"
| "space_type_to_i32 TMultiBinary = 3"
| "space_type_to_i32 TMultiDiscrete = 4"
| "space_type_to_i32 TText = 5"
| "space_type_to_i32 TDict = 10"
| "space_type_to_i32 TTuple = 11"

definition space_type_try_from :: "int \<Rightarrow> space_type option" where
  "space_type_try_from v =
     (if v = 0 then Some TUnspecified else if v = 1 then Some TBox else if v = 2 then Some TDiscrete
      else if v = 3 then Some TMultiBinary else if v = 4 then Some TMultiDiscrete else if v = 5 then Some TText
      else if v = 10 then Some TDict else if v = 11 then Some TTuple else None)"

section \<open>Validation of the fundamental spaces\<close>

datatype bound_side = Low | High

definition side_label :: "bound_side \<Rightarrow> string" where
  "side_label s = (case s of Low \<Rightarrow> ''low'' | High \<Rightarrow> ''high'')"

text \<open>\<open>f64::fract\<close>, exact.\<close>

definition f64_fract :: "f64 \<Rightarrow> f64" where
  "f64_fract f = (case f of Fin s m \<Rightarrow> Fin s (m mod f64_unit) | _ \<Rightarrow> NaN)"

definition int_dtype_f64_bounds :: "dtype \<Rightarrow> f64 \<times> f64" where
  "int_dtype_f64_bounds dt = (case dt of
     Uint8 \<Rightarrow> (f64_zero, f64_pow2 8) | Uint16 \<Rightarrow> (f64_zero, f64_pow2 16)
   | Uint32 \<Rightarrow> (f64_zero, f64_pow2 32) | Uint64 \<Rightarrow> (f64_zero, f64_pow2 64)
   | Int8 \<Rightarrow> (f64_neg (f64_pow2 7), f64_pow2 7) | Int16 \<Rightarrow> (f64_neg (f64_pow2 15), f64_pow2 15)
   | Int32 \<Rightarrow> (f64_neg (f64_pow2 31), f64_pow2 31) | Int64 \<Rightarrow> (f64_neg (f64_pow2 63), f64_pow2 63)
   | _ \<Rightarrow> (Inf True, Inf False))"

definition reject_non_integral_int_bound :: "dtype \<Rightarrow> f64 \<Rightarrow> bound_side \<Rightarrow> string \<Rightarrow> space_error + unit" where
  "reject_non_integral_int_bound dt v side path =
     (if \<not> is_integer dt then Inr ()
      else if \<not> f64_is_finite v \<or> \<not> f64_eq (f64_fract v) f64_zero
        then Inl (Invalid path (Msg ''[Box] integer-dtype bound {}={} must be a finite whole number'' [AS (side_label side), AF v]))
      else let (mn, max_exclusive) = int_dtype_f64_bounds dt in
        if (case side of Low \<Rightarrow> f64_le max_exclusive v | High \<Rightarrow> f64_lt v mn)
        then Inl (Invalid path (Msg ''[Box] integer-dtype bound {}={} is not representable in {} and would saturate to a different admitted set'' [AS (side_label side), AF v, AD dt])) else Inr ())"

definition decode_typed :: "half \<Rightarrow> bytes \<Rightarrow> dtype \<Rightarrow> string \<Rightarrow> scalar list checked" where
  "decode_typed h bs dt path = (case decode_scalars h bs dt of
     None \<Rightarrow> None | Some (Inl e) \<Rightarrow> fail_at path (Msg ''cannot decode typed Box bounds: {}'' [AE e]) | Some (Inr vs) \<Rightarrow> Some (Inr vs))"

fun typed_pairs :: "dtype \<Rightarrow> string \<Rightarrow> nat \<Rightarrow> (scalar \<times> scalar) list \<Rightarrow> space_error + unit" where
  "typed_pairs dt path i [] = Inr ()"
| "typed_pairs dt path i ((lo, hi) # ps) =
     (if lo = SFloat NaN \<or> hi = SFloat NaN then Inl (Invalid path (Msg ''[Box] typed bounds invalid: NaN bound at element {}'' [AN i]))
      else if scalar_gt dt lo hi then Inl (Invalid path (Msg ''[Box] typed bounds invalid: low>high at element {}'' [AN i]))
      else typed_pairs dt path (Suc i) ps)"

definition validate_typed_bounds :: "half \<Rightarrow> bytes \<Rightarrow> bytes \<Rightarrow> nat \<Rightarrow> dtype \<Rightarrow> string \<Rightarrow> unit checked" where
  "validate_typed_bounds h low high count dt path =
     (if dt = DUnspecified then fail_at path (Msg ''[Box] typed bounds require a concrete dtype'' [])
      else case checked_mul count (dtype_size dt) of
        None \<Rightarrow> fail_at path (Msg ''Box typed bounds length overflowed'' [])
      | Some expected \<Rightarrow>
          if length low \<noteq> expected \<or> length high \<noteq> expected
          then fail_at path (Msg ''[Box] typed bounds invalid: expected {} bytes each ({}-byte elements), got low={}, high={}'' [AN expected, AN (dtype_size dt), AN (length low), AN (length high)])
          else bind_ck (decode_typed h low dt path) (\<lambda>lows. bind_ck (decode_typed h high dt path) (\<lambda>highs.
            Some (typed_pairs dt path 0 (zip lows highs)))))"

text \<open>The first dimension that is not positive, with its index; and the checked product \<open>usize\<close>.\<close>

definition bad_dim :: "int list \<Rightarrow> nat option" where
  "bad_dim shape = position (\<lambda>d. d \<le> 0) shape"

fun checked_product :: "nat \<Rightarrow> int list \<Rightarrow> nat option" where
  "checked_product acc [] = Some acc"
| "checked_product acc (d # ds) = (case checked_mul (nat (wrap_u 64 d)) acc of None \<Rightarrow> None | Some a \<Rightarrow> checked_product a ds)"

fun tensor_pairs :: "dtype \<Rightarrow> string \<Rightarrow> nat \<Rightarrow> (f64 \<times> f64) list \<Rightarrow> space_error + unit" where
  "tensor_pairs dt path i [] = Inr ()"
| "tensor_pairs dt path i ((lo, hi) # ps) =
     (if f64_is_nan lo \<or> f64_is_nan hi then Inl (Invalid path (Msg ''[Box] tensor bounds invalid: NaN bound at element {}'' [AN i]))
      else if f64_lt hi lo then Inl (Invalid path (Msg ''[Box] tensor bounds invalid: low>high at element {}'' [AN i]))
      else bind_res (reject_non_integral_int_bound dt lo Low path) (\<lambda>_.
        bind_res (reject_non_integral_int_bound dt hi High path) (\<lambda>_. tensor_pairs dt path (Suc i) ps)))"

definition validate_box_at :: "half \<Rightarrow> space_spec \<Rightarrow> string \<Rightarrow> unit checked" where
  "validate_box_at h space path =
     (if ss_shape space = [] then fail_at path (Msg ''[{}] shape must be set (rank >= 1)'' [AS ''Box''])
      else if ss_dtype space = DUnspecified then fail_at path (Msg ''[{}] dtype must be set'' [AS ''Box''])
      else case bad_dim (ss_shape space) of Some i \<Rightarrow> fail_at path (Msg ''[{}] shape[{}] must be > 0'' [AS ''Box'', AN i])
      | None \<Rightarrow> case ss_spec space of
        Some (KBox b) \<Rightarrow>
          (case checked_product 1 (ss_shape space) of
             None \<Rightarrow> fail_at path (Msg ''{}.shape product overflowed'' [AS ''Box''])
           | Some numel \<Rightarrow> case b of
               Some (BUnbounded _) \<Rightarrow> Some (Inr ())
             | Some (BUniform low high) \<Rightarrow>
                 if f64_is_nan low \<or> f64_is_nan high then fail_at path (Msg ''[Box] scalar bounds invalid: NaN bound'' [])
                 else if f64_lt high low then fail_at path (Msg ''[Box] scalar bounds invalid: low > high'' [])
                 else Some (bind_res (reject_non_integral_int_bound (ss_dtype space) low Low path) (\<lambda>_.
                   reject_non_integral_int_bound (ss_dtype space) high High path))
             | Some (BElementwise low high) \<Rightarrow>
                 if length low \<noteq> length high then fail_at path (Msg ''[Box] tensor bounds invalid: low/high length mismatch'' [])
                 else if length low \<noteq> numel then fail_at path (Msg ''[Box] tensor bounds invalid: expected length {}'' [AN numel])
                 else Some (tensor_pairs (ss_dtype space) path 0 (zip low high))
             | Some (BTypedUniform low high) \<Rightarrow> validate_typed_bounds h low high 1 (ss_dtype space) path
             | Some (BTypedElementwise low high) \<Rightarrow> validate_typed_bounds h low high numel (ss_dtype space) path
             | None \<Rightarrow> fail_at path (Msg ''[Box] bounds must be set'' []))
      | _ \<Rightarrow> fail_at path (Msg ''[{}] spec must be set'' [AS ''Box'']))"

text \<open>\<open>i64::checked_add\<close>.\<close>

definition i64_checked_add :: "int \<Rightarrow> int \<Rightarrow> int option" where
  "i64_checked_add a b = (if i64_min \<le> a + b \<and> a + b \<le> i64_max then Some (a + b) else None)"

definition validate_discrete_at :: "space_spec \<Rightarrow> string \<Rightarrow> unit checked" where
  "validate_discrete_at space path =
     (if ss_shape space \<noteq> [] then fail_at path (Msg ''[{}] shape must be empty'' [AS ''Discrete''])
      else if ss_dtype space = DUnspecified then fail_at path (Msg ''[{}] dtype must be set'' [AS ''Discrete''])
      else if ss_dtype space \<notin> {Int64, Int32, Uint8} then fail_at path (Msg ''[Discrete] Discrete.dtype must be an integer type; got {}'' [AD (ss_dtype space)])
      else case ss_spec space of
        Some (KDiscrete n start) \<Rightarrow>
          if sint n \<le> 0 then fail_at path (Msg ''[Discrete] n must be > 0'' [])
          else (case i64_checked_add (sint start) (sint n - 1) of
              None \<Rightarrow> fail_at path (Msg ''[Discrete] start + (n-1) overflowed i64'' [])
            | Some mx \<Rightarrow> (case find (\<lambda>b. \<not> is_ok (check_int_in_dtype_range b (ss_dtype space))) [sint start, mx] of
                Some b \<Rightarrow> fail_at path (Msg ''[Discrete] value {} does not fit dtype {}'' [AI b, AD (ss_dtype space)]) | None \<Rightarrow> Some (Inr ())))
      | _ \<Rightarrow> fail_at path (Msg ''[{}] spec must be set'' [AS ''Discrete'']))"

fun md_numel :: "string \<Rightarrow> nat \<Rightarrow> int \<Rightarrow> int list \<Rightarrow> space_error + int" where
  "md_numel path i numel [] = Inr numel"
| "md_numel path i numel (d # ds) =
     (if d \<le> 0 then Inl (Invalid path (Msg ''[{}] shape[{}] must be > 0'' [AS ''MultiDiscrete'', AN i]))
      else case i64_mul numel d of None \<Rightarrow> Inl (Invalid path (Msg ''{}.shape product overflowed'' [AS ''MultiDiscrete'']))
        | Some n \<Rightarrow> md_numel path (Suc i) n ds)"

fun md_nvec :: "dtype \<Rightarrow> string \<Rightarrow> nat \<Rightarrow> i64 list \<Rightarrow> space_error + unit" where
  "md_nvec dt path i [] = Inr ()"
| "md_nvec dt path i (n # ns) =
     (if sint n \<le> 0 then Inl (Invalid path (Msg ''[MultiDiscrete] nvec[{}] must be > 0'' [AN i]))
      else if \<not> is_ok (check_int_in_dtype_range (sint n - 1) dt) then Inl (Invalid path (Msg ''[MultiDiscrete] nvec[{}] - 1 = {} does not fit dtype {}'' [AN i, AI (sint n - 1), AD dt]))
      else md_nvec dt path (Suc i) ns)"

definition validate_multidiscrete_at :: "space_spec \<Rightarrow> string \<Rightarrow> unit checked" where
  "validate_multidiscrete_at space path =
     (if ss_shape space = [] then fail_at path (Msg ''[{}] shape must be set (rank >= 1)'' [AS ''MultiDiscrete''])
      else if ss_dtype space = DUnspecified then fail_at path (Msg ''[{}] dtype must be set'' [AS ''MultiDiscrete''])
      else if \<not> is_integer (ss_dtype space) then fail_at path (Msg ''[MultiDiscrete] dtype must be an integer type, got {}'' [AD (ss_dtype space)])
      else Some (bind_res (md_numel path 0 1 (ss_shape space)) (\<lambda>numel.
        case ss_spec space of
          Some (KMultiDiscrete nvec) \<Rightarrow>
            if nvec = [] then Inl (Invalid path (Msg ''[MultiDiscrete] nvec must be non-empty'' []))
            else bind_res (md_nvec (ss_dtype space) path 0 nvec) (\<lambda>_.
              if as_i64 (length nvec) \<noteq> numel then Inl (Invalid path (Msg ''[MultiDiscrete] shape mismatch: expected len(nvec) == numel(shape)'' [])) else Inr ())
        | _ \<Rightarrow> Inl (Invalid path (Msg ''[{}] spec must be set'' [AS ''MultiDiscrete''])))))"

definition validate_multibinary_at :: "space_spec \<Rightarrow> string \<Rightarrow> unit checked" where
  "validate_multibinary_at space path =
     (if ss_shape space = [] then fail_at path (Msg ''[{}] shape must be set (rank >= 1)'' [AS ''MultiBinary''])
      else if ss_dtype space = DUnspecified then fail_at path (Msg ''[{}] dtype must be set'' [AS ''MultiBinary''])
      else if dtype_size (ss_dtype space) \<noteq> 1 then fail_at path (Msg ''[MultiBinary] dtype must be a single-byte type (bool/uint8/int8), got {}'' [AD (ss_dtype space)])
      else case bad_dim (ss_shape space) of Some i \<Rightarrow> fail_at path (Msg ''[{}] shape[{}] must be > 0'' [AS ''MultiBinary'', AN i])
      | None \<Rightarrow> if ss_spec space \<noteq> Some KMultiBinary then fail_at path (Msg ''[{}] spec must be set'' [AS ''MultiBinary'']) else Some (Inr ()))"

definition validate_text_at :: "space_spec \<Rightarrow> string \<Rightarrow> unit checked" where
  "validate_text_at space path =
     (if ss_shape space \<noteq> [] then fail_at path (Msg ''[{}] shape must be empty'' [AS ''Text''])
      else if ss_dtype space \<noteq> Uint8 then fail_at path (Msg ''[Text] dtype must be uint8'' [])
      else case ss_spec space of
        Some (KText mn mx _) \<Rightarrow>
          if sint mn < 0 then fail_at path (Msg ''[Text] min_length must be >= 0'' [])
          else if sint mx < 0 then fail_at path (Msg ''[Text] max_length must be >= 0'' [])
          else if sint mx < sint mn then fail_at path (Msg ''[Text] min_length must be <= max_length'' [])
          else Some (Inr ())
      | _ \<Rightarrow> fail_at path (Msg ''[{}] spec must be set'' [AS ''Text'']))"

section \<open>Validation of the composite spaces\<close>

definition children :: "space_spec \<Rightarrow> space_spec list" where
  "children s = (case ss_spec s of Some (KDict _ spaces) \<Rightarrow> spaces | Some (KTuple spaces) \<Rightarrow> spaces | _ \<Rightarrow> [])"

definition dict_keys :: "space_spec \<Rightarrow> string list" where
  "dict_keys s = (case ss_spec s of Some (KDict keys _) \<Rightarrow> keys | _ \<Rightarrow> [])"

lemma size_child: "c \<in> set (children s) \<Longrightarrow> size c < size s"
proof -
  assume c: "c \<in> set (children s)"
  obtain sh dt k where s: "s = SpaceSpec sh dt k" by (cases s)
  have "size c \<le> size_list size (children s)" by (rule size_list_estimation' [OF c order_refl])
  with c show ?thesis
    by (auto simp: s children_def split: option.splits space_kind.splits)
qed

lemma space_induct [case_names space]:
  assumes "\<And>s. (\<And>c. c \<in> set (children s) \<Longrightarrow> P c) \<Longrightarrow> P s"
  shows "P s"
proof (induction s rule: measure_induct_rule [where f = size])
  case (less s)
  then show ?case using assms size_child by blast
qed

definition key_path :: "string \<Rightarrow> string \<Rightarrow> string" where
  "key_path path key = path @ ''.'' @ key"

definition index_path :: "string \<Rightarrow> nat \<Rightarrow> string" where
  "index_path path i = path @ ''['' @ dec i @ '']''"

fun dict_entries :: "string \<Rightarrow> string set \<Rightarrow> (string \<times> (string \<Rightarrow> unit checked)) list \<Rightarrow> unit checked" where
  "dict_entries path seen [] = Some (Inr ())"
| "dict_entries path seen ((key, check) # es) =
     (if key = [] then fail_at path (Msg ''[Dict] keys must be non-empty'' [])
      else if key \<in> seen then fail_at path (Msg ''[Dict] keys must be unique; duplicate: {}'' [AS key])
      else bind_ck (check (key_path path key)) (\<lambda>_. dict_entries path (insert key seen) es))"

definition validate_dict_at :: "space_spec \<Rightarrow> (string \<Rightarrow> unit checked) list \<Rightarrow> string \<Rightarrow> unit checked" where
  "validate_dict_at space checks path =
     (if ss_shape space \<noteq> [] then fail_at path (Msg ''[{}] shape must be empty'' [AS ''Dict''])
      else if ss_dtype space \<noteq> DUnspecified then fail_at path (Msg ''[{}] dtype must be UNSPECIFIED'' [AS ''Dict''])
      else case ss_spec space of
        Some (KDict keys _) \<Rightarrow>
          if length keys \<noteq> length checks then fail_at path (Msg ''[Dict] keys/spaces length mismatch'' [])
          else dict_entries path {} (zip keys checks)
      | _ \<Rightarrow> fail_at path (Msg ''[{}] spec must be set'' [AS ''Dict'']))"

fun tuple_entries :: "string \<Rightarrow> nat \<Rightarrow> (string \<Rightarrow> unit checked) list \<Rightarrow> unit checked" where
  "tuple_entries path i [] = Some (Inr ())"
| "tuple_entries path i (check # cs) =
     bind_ck (check (index_path path i)) (\<lambda>_. tuple_entries path (Suc i) cs)"

definition validate_tuple_at :: "space_spec \<Rightarrow> (string \<Rightarrow> unit checked) list \<Rightarrow> string \<Rightarrow> unit checked" where
  "validate_tuple_at space checks path =
     (if ss_shape space \<noteq> [] then fail_at path (Msg ''[{}] shape must be empty'' [AS ''Tuple''])
      else if ss_dtype space \<noteq> DUnspecified then fail_at path (Msg ''[{}] dtype must be UNSPECIFIED'' [AS ''Tuple''])
      else case ss_spec space of
        Some (KTuple _) \<Rightarrow> tuple_entries path 0 checks
      | _ \<Rightarrow> fail_at path (Msg ''[{}] spec must be set'' [AS ''Tuple'']))"

function validate_space_at :: "half \<Rightarrow> space_spec \<Rightarrow> string \<Rightarrow> unit checked" where
  "validate_space_at h space path = (case space_type_of space of
     TBox \<Rightarrow> validate_box_at h space path
   | TDiscrete \<Rightarrow> validate_discrete_at space path
   | TMultiBinary \<Rightarrow> validate_multibinary_at space path
   | TMultiDiscrete \<Rightarrow> validate_multidiscrete_at space path
   | TText \<Rightarrow> validate_text_at space path
   | TDict \<Rightarrow> validate_dict_at space (map (\<lambda>c p. validate_space_at h c p) (children space)) path
   | TTuple \<Rightarrow> validate_tuple_at space (map (\<lambda>c p. validate_space_at h c p) (children space)) path
   | TUnspecified \<Rightarrow> fail_at path (Msg ''spec must be set'' []))"
  by pat_completeness auto
termination by (relation "measure (\<lambda>(h, s, p). size s)") (auto dest: size_child)

declare validate_space_at.simps [simp del]

definition validate_space :: "half \<Rightarrow> space_spec \<Rightarrow> unit checked" where
  "validate_space h spec = validate_space_at h spec ''$''"

section \<open>Builders\<close>

definition build_spec :: "half \<Rightarrow> space_spec \<Rightarrow> space_spec checked" where
  "build_spec h spec = bind_ck (validate_space h spec) (\<lambda>_. Some (Inr spec))"

datatype pending_bounds =
    PReady box_bounds
  | IntUniform i64 i64
  | IntTensor "i64 list" "i64 list"
  | UintUniform i64 i64
  | UintTensor "i64 list" "i64 list"

record box_builder =
  bb_shape :: "int list"
  bb_dtype :: dtype
  bb_bounds :: pending_bounds

definition box_unbounded :: "int list \<Rightarrow> box_builder" where
  "box_unbounded shape = \<lparr>bb_shape = shape, bb_dtype = Float32, bb_bounds = PReady (BUnbounded True)\<rparr>"

definition box_scalar :: "f64 \<Rightarrow> f64 \<Rightarrow> int list \<Rightarrow> box_builder" where
  "box_scalar low high shape = \<lparr>bb_shape = shape, bb_dtype = Float32, bb_bounds = PReady (BUniform low high)\<rparr>"

definition box_tensor :: "f64 list \<Rightarrow> f64 list \<Rightarrow> int list \<Rightarrow> box_builder" where
  "box_tensor low high shape = \<lparr>bb_shape = shape, bb_dtype = Float32, bb_bounds = PReady (BElementwise low high)\<rparr>"

definition box_int_scalar :: "i64 \<Rightarrow> i64 \<Rightarrow> int list \<Rightarrow> box_builder" where
  "box_int_scalar low high shape = \<lparr>bb_shape = shape, bb_dtype = Int64, bb_bounds = IntUniform low high\<rparr>"

definition box_int_tensor :: "i64 list \<Rightarrow> i64 list \<Rightarrow> int list \<Rightarrow> box_builder" where
  "box_int_tensor low high shape = \<lparr>bb_shape = shape, bb_dtype = Int64, bb_bounds = IntTensor low high\<rparr>"

text \<open>A \<open>u64\<close> is a \<open>64 word\<close> read by \<open>uint\<close>, so that \<open>as i64\<close> keeps the word.\<close>

definition box_uint_scalar :: "i64 \<Rightarrow> i64 \<Rightarrow> int list \<Rightarrow> box_builder" where
  "box_uint_scalar low high shape = \<lparr>bb_shape = shape, bb_dtype = Uint64, bb_bounds = UintUniform low high\<rparr>"

definition box_uint_tensor :: "i64 list \<Rightarrow> i64 list \<Rightarrow> int list \<Rightarrow> box_builder" where
  "box_uint_tensor low high shape = \<lparr>bb_shape = shape, bb_dtype = Uint64, bb_bounds = UintTensor low high\<rparr>"

definition bound_encode_error :: "(scalar_error + 'a) option \<Rightarrow> 'a checked" where
  "bound_encode_error r = (case r of None \<Rightarrow> None
     | Some (Inl e) \<Rightarrow> fail_at ''Box'' (Msg ''cannot encode integer Box bounds: {}'' [AE e]) | Some (Inr a) \<Rightarrow> Some (Inr a))"

text \<open>The first value a check refuses, in order.\<close>

fun first_error :: "('a \<Rightarrow> 'e + unit) \<Rightarrow> 'a list \<Rightarrow> 'e + unit" where
  "first_error f [] = Inr ()"
| "first_error f (x # xs) = bind_res (f x) (\<lambda>_. first_error f xs)"

definition encode_int_bound :: "half \<Rightarrow> i64 list \<Rightarrow> dtype \<Rightarrow> bytes checked" where
  "encode_int_bound h vs dt =
     bind_ck (bound_encode_error (Some (first_error (\<lambda>v. check_int_in_dtype_range (sint v) dt) vs))) (\<lambda>_.
       bound_encode_error (encode_i64_scalars h vs dt))"

definition encode_uint_bound :: "half \<Rightarrow> i64 list \<Rightarrow> dtype \<Rightarrow> bytes checked" where
  "encode_uint_bound h vs dt =
     bind_ck (bound_encode_error (Some (first_error (\<lambda>v. check_uint_in_dtype_range (uint v) dt) vs))) (\<lambda>_.
       bound_encode_error (if dt \<in> {Float16, Float32, Float64}
         then encode_scalars h (map (\<lambda>v. SFloat (f64_of_nat (unat v))) vs) dt
         else encode_i64_scalars h vs dt))"

definition box_build :: "half \<Rightarrow> box_builder \<Rightarrow> space_spec checked" where
  "box_build h b = bind_ck
     (case bb_bounds b of
        PReady bs \<Rightarrow> Some (Inr bs)
      | IntUniform low high \<Rightarrow> bind_ck (encode_int_bound h [low] (bb_dtype b)) (\<lambda>l.
          bind_ck (encode_int_bound h [high] (bb_dtype b)) (\<lambda>u. Some (Inr (BTypedUniform l u))))
      | IntTensor low high \<Rightarrow> bind_ck (encode_int_bound h low (bb_dtype b)) (\<lambda>l.
          bind_ck (encode_int_bound h high (bb_dtype b)) (\<lambda>u. Some (Inr (BTypedElementwise l u))))
      | UintUniform low high \<Rightarrow> bind_ck (encode_uint_bound h [low] (bb_dtype b)) (\<lambda>l.
          bind_ck (encode_uint_bound h [high] (bb_dtype b)) (\<lambda>u. Some (Inr (BTypedUniform l u))))
      | UintTensor low high \<Rightarrow> bind_ck (encode_uint_bound h low (bb_dtype b)) (\<lambda>l.
          bind_ck (encode_uint_bound h high (bb_dtype b)) (\<lambda>u. Some (Inr (BTypedElementwise l u)))))
     (\<lambda>bs. build_spec h (SpaceSpec (bb_shape b) (bb_dtype b) (Some (KBox (Some bs)))))"

definition discrete_build :: "half \<Rightarrow> i64 \<Rightarrow> i64 \<Rightarrow> dtype \<Rightarrow> space_spec checked" where
  "discrete_build h n start dt = build_spec h (SpaceSpec [] dt (Some (KDiscrete n start)))"

record md_builder =
  mb_dtype :: dtype
  mb_shape :: "int list"
  mb_nvec :: "i64 list"
  mb_error :: "space_error option"

definition md_vector :: "i64 list \<Rightarrow> md_builder" where
  "md_vector nvec = \<lparr>mb_dtype = Int64, mb_shape = [as_i64 (length nvec)], mb_nvec = nvec, mb_error = None\<rparr>"

definition md_matrix :: "i64 list list \<Rightarrow> md_builder" where
  "md_matrix rows =
     (let c = (case first_opt rows of Some r \<Rightarrow> length r | None \<Rightarrow> 0) in
      \<lparr>mb_dtype = Int64, mb_shape = [as_i64 (length rows), as_i64 c], mb_nvec = concat rows,
       mb_error = map_option (\<lambda>i. Invalid ''MultiDiscrete'' (Msg ''matrix rows must be rectangular: row {} has {} columns, expected {}'' [AN i, AN (length (rows ! i)), AN c]))
         (position (\<lambda>r. length r \<noteq> c) rows)\<rparr>)"

definition md_build :: "half \<Rightarrow> md_builder \<Rightarrow> space_spec checked" where
  "md_build h b = (case mb_error b of Some e \<Rightarrow> Some (Inl e)
     | None \<Rightarrow> build_spec h (SpaceSpec (mb_shape b) (mb_dtype b) (Some (KMultiDiscrete (mb_nvec b)))))"

definition multibinary_build :: "half \<Rightarrow> int list \<Rightarrow> dtype \<Rightarrow> space_spec checked" where
  "multibinary_build h shape dt = build_spec h (SpaceSpec shape dt (Some KMultiBinary))"

definition text_build :: "half \<Rightarrow> i64 \<Rightarrow> i64 \<Rightarrow> string \<Rightarrow> space_spec checked" where
  "text_build h mn mx charset = build_spec h (SpaceSpec [] Uint8 (Some (KText mn mx charset)))"

definition dict_extend :: "(string \<times> space_spec) list \<Rightarrow> (string \<times> space_spec) list \<Rightarrow> (string \<times> space_spec) list" where
  "dict_extend entries new = foldl (\<lambda>m (k, v). bt_insert k v m) entries new"

definition dict_build :: "half \<Rightarrow> (string \<times> space_spec) list \<Rightarrow> space_spec checked" where
  "dict_build h entries = build_spec h (SpaceSpec [] DUnspecified (Some (KDict (map fst entries) (map snd entries))))"

definition tuple_build :: "half \<Rightarrow> space_spec list \<Rightarrow> space_spec checked" where
  "tuple_build h spaces = build_spec h (SpaceSpec [] DUnspecified (Some (KTuple spaces)))"

end
