(* ===== verification/SpaceValues.thy ===== *)
theory SpaceValues
  imports SpaceSpecs
begin

text \<open>
  Space values (\<^verbatim>\<open>crates/rlmesh-spaces/src/spaces/value.rs\<close>, the \<open>conform\<close> and \<open>contains\<close>
  functions of \<open>fundamental/\<close> and \<open>composite/\<close>, and \<open>walk.rs\<close>): how a value conforms to its space, what the
  serving policy makes of it, and the flattening of a value into its leaves.

  A Dict value is a \<open>BTreeMap\<close>, a sorted association list. Outer \<open>None\<close> is a panic.
\<close>

section \<open>Values\<close>

datatype space_value =
    VBox tensor
  | VDiscrete i64
  | VMultiBinary "bool list"
  | VMultiDiscrete "i64 list"
  | VText string
  | VDict "(string \<times> space_value) list"
  | VTuple "space_value list"

datatype conformance = COk | CStructural space_error | CRange space_error

definition conformance_is_ok :: "conformance \<Rightarrow> bool" where
  "conformance_is_ok c = (case c of COk \<Rightarrow> True | _ \<Rightarrow> False)"

definition into_result :: "conformance \<Rightarrow> space_error + unit" where
  "into_result c = (case c of COk \<Rightarrow> Inr () | CStructural e \<Rightarrow> Inl e | CRange e \<Rightarrow> Inl e)"

definition structural :: "space_error + unit \<Rightarrow> conformance" where
  "structural r = (case r of Inr _ \<Rightarrow> COk | Inl e \<Rightarrow> CStructural e)"

section \<open>Fundamental spaces\<close>

text \<open>Typed bounds hold exactly \<open>count\<close> whole elements.\<close>

definition check_typed_bounds :: "bytes \<Rightarrow> nat \<Rightarrow> dtype \<Rightarrow> string \<Rightarrow> space_error + unit" where
  "check_typed_bounds bs count dt path =
     (let elem = dtype_size dt in
      if length bs mod elem \<noteq> 0 then Inl (Invalid path (Msg ''cannot decode typed Box bounds: {}'' [AE (SByteLengthMismatch (length bs) elem dt)]))
      else if length bs div elem \<noteq> count then Inl (Invalid path (Msg ''Box typed bounds length mismatch: expected {} elements, got {}'' [AN count, AN (length bs div elem)]))
      else Inr ())"

definition box_bounds_of :: "half \<Rightarrow> space_spec \<Rightarrow> nat \<Rightarrow> dtype \<Rightarrow> string \<Rightarrow> bounds checked" where
  "box_bounds_of h space numel dt path = (case ss_spec space of
     Some (KBox spec) \<Rightarrow> (case spec of
         Some (BUniform low high) \<Rightarrow> Some (Inr (Uniform (finite_float low, finite_float high)))
       | Some (BElementwise low high) \<Rightarrow>
           if length low \<noteq> numel \<or> length high \<noteq> numel
           then fail_at path (Msg ''Box elementwise bounds length mismatch: expected {} elements, got low={}, high={}'' [AN numel, AN (length low), AN (length high)])
           else Some (Inr (Elementwise low high))
       | Some (BTypedUniform low high) \<Rightarrow>
           bind_ck (Some (check_typed_bounds low 1 dt path)) (\<lambda>_.
           bind_ck (Some (check_typed_bounds high 1 dt path)) (\<lambda>_.
             case (decode_scalar h low dt, decode_scalar h high dt) of
               (Some l, Some u) \<Rightarrow> Some (Inr (Uniform (Some l, Some u))) | _ \<Rightarrow> None))
       | Some (BTypedElementwise low high) \<Rightarrow>
           bind_ck (Some (check_typed_bounds low numel dt path)) (\<lambda>_.
           bind_ck (Some (check_typed_bounds high numel dt path)) (\<lambda>_.
             Some (Inr (TypedElementwise low high))))
       | Some (BUnbounded _) \<Rightarrow> Some (Inr (Uniform (None, None)))
       | None \<Rightarrow> Some (Inr (Uniform (None, None))))
   | _ \<Rightarrow> fail_at path (Msg ''space is not {}'' [AS ''Box'']))"

definition finding_conformance :: "string \<Rightarrow> finding option \<Rightarrow> conformance" where
  "finding_conformance path f = (case f of
     None \<Rightarrow> COk
   | Some (FNan i) \<Rightarrow> CStructural (Invalid path (Msg ''Box value at element {} is NaN'' [AN i]))
   | Some (FRange i s) \<Rightarrow> CRange (Invalid path (Msg ''Box value at element {} out of bounds: {}'' [AN i, AO s])))"

definition conform_box :: "half \<Rightarrow> space_spec \<Rightarrow> space_value \<Rightarrow> string \<Rightarrow> conformance option" where
  "conform_box h space v path = (case v of
     VBox t \<Rightarrow>
       if t_shape t \<noteq> ss_shape space then Some (CStructural (Invalid path (Msg ''shape mismatch: expected {}, got {}'' [AL (ss_shape space), AL (t_shape t)])))
       else if t_dtype t \<noteq> ss_dtype space then Some (CStructural (Invalid path (Msg ''dtype mismatch: expected {}, got {}'' [AD (ss_dtype space), AD (t_dtype t)])))
       else if t_dtype t = DUnspecified then Some (CStructural (Invalid path (Msg ''Box value dtype is unspecified'' [])))
       else (case tensor_numel t of None \<Rightarrow> None
         | Some numel \<Rightarrow> (case box_bounds_of h space numel (t_dtype t) path of
             None \<Rightarrow> None
           | Some (Inl e) \<Rightarrow> Some (CStructural e)
           | Some (Inr bs) \<Rightarrow> (case to_contiguous_bytes t of None \<Rightarrow> None
               | Some data \<Rightarrow>
                   if length data mod dtype_size (t_dtype t) \<noteq> 0
                   then Some (CStructural (Invalid path (Msg ''cannot decode Box value: {}'' [AE (SByteLengthMismatch (length data) (dtype_size (t_dtype t)) (t_dtype t))])))
                   else map_option (finding_conformance path) (scan h data (t_dtype t) bs))))
   | _ \<Rightarrow> Some (CStructural (Invalid path (Msg ''expected {} value'' [AS ''Box'']))))"

definition contains_discrete :: "space_spec \<Rightarrow> space_value \<Rightarrow> string \<Rightarrow> space_error + unit" where
  "contains_discrete space v path = (case v of
     VDiscrete i \<Rightarrow> (case ss_spec space of
         Some (KDiscrete n start) \<Rightarrow>
           if sint start \<le> sint i \<and> uint (i - start) < uint n then Inr ()
           else Inl (Invalid path (Msg ''value {} not in range [{}, {})'' [AW i, AW start,
             case i64_checked_add (sint start) (sint n) of Some e \<Rightarrow> AI e | None \<Rightarrow> AS ''i64::MAX+1'']))
       | _ \<Rightarrow> Inl (Invalid path (Msg ''space is not {}'' [AS ''Discrete''])))
   | _ \<Rightarrow> Inl (Invalid path (Msg ''expected {} value'' [AS ''Discrete''])))"

text \<open>\<open>usize::try_from(d).ok().and_then(|d| acc.checked_mul(d))\<close>, folded over the shape.\<close>

fun mb_size :: "nat \<Rightarrow> int list \<Rightarrow> nat option" where
  "mb_size acc [] = Some acc"
| "mb_size acc (d # ds) =
     (if d < 0 then None else case checked_mul acc (nat d) of None \<Rightarrow> None | Some a \<Rightarrow> mb_size a ds)"

definition contains_multibinary :: "space_spec \<Rightarrow> space_value \<Rightarrow> string \<Rightarrow> space_error + unit" where
  "contains_multibinary space v path = (case v of
     VMultiBinary bs \<Rightarrow>
       if ss_spec space \<noteq> Some KMultiBinary then Inl (Invalid path (Msg ''space is not {}'' [AS ''MultiBinary'']))
       else (case mb_size 1 (ss_shape space) of
           None \<Rightarrow> Inl (Invalid path (Msg ''MultiBinary shape has an invalid or too-large dimension'' []))
         | Some expected \<Rightarrow> if length bs \<noteq> expected then Inl (Invalid path (Msg ''{} size mismatch: expected {}, got {}'' [AS ''MultiBinary'', AN expected, AN (length bs)]))
             else Inr ())
   | _ \<Rightarrow> Inl (Invalid path (Msg ''expected {} value'' [AS ''MultiBinary''])))"

fun md_values :: "string \<Rightarrow> nat \<Rightarrow> (i64 \<times> i64) list \<Rightarrow> space_error + unit" where
  "md_values path i [] = Inr ()"
| "md_values path i ((v, n) # ps) =
     (if sint v < 0 \<or> sint n \<le> sint v then Inl (Invalid path (Msg ''value[{}] = {} not in range [0, {})'' [AN i, AW v, AW n])) else md_values path (Suc i) ps)"

definition contains_multidiscrete :: "space_spec \<Rightarrow> space_value \<Rightarrow> string \<Rightarrow> space_error + unit" where
  "contains_multidiscrete space v path = (case v of
     VMultiDiscrete vals \<Rightarrow> (case ss_spec space of
         Some (KMultiDiscrete nvec) \<Rightarrow>
           if length vals \<noteq> length nvec then Inl (Invalid path (Msg ''{} size mismatch: expected {}, got {}'' [AS ''MultiDiscrete'', AN (length nvec), AN (length vals)]))
           else md_values path 0 (zip vals nvec)
       | _ \<Rightarrow> Inl (Invalid path (Msg ''space is not {}'' [AS ''MultiDiscrete''])))
   | _ \<Rightarrow> Inl (Invalid path (Msg ''expected {} value'' [AS ''MultiDiscrete''])))"

text \<open>The characters of a string, each as its UTF-8 bytes: a lead byte and its continuation bytes.\<close>

definition is_continuation :: "char \<Rightarrow> bool" where
  "is_continuation c = (128 \<le> (of_char c :: nat) \<and> (of_char c :: nat) < 192)"

function utf8_chars :: "string \<Rightarrow> string list" where
  "utf8_chars [] = []"
| "utf8_chars (c # s) = (c # takeWhile is_continuation s) # utf8_chars (dropWhile is_continuation s)"
  by pat_completeness auto
termination by (relation "measure length") (auto simp: length_dropWhile_le le_imp_less_Suc)

definition conform_text :: "space_spec \<Rightarrow> space_value \<Rightarrow> string \<Rightarrow> conformance" where
  "conform_text space v path = (case v of
     VText text \<Rightarrow> (case ss_spec space of
         Some (KText mn mx charset) \<Rightarrow>
           (let len = as_i64 (length (utf8_chars text)) in
            if len < sint mn then CRange (Invalid path (Msg ''text length {} below minimum {}'' [AI len, AW mn]))
            else if sint mx < len then CRange (Invalid path (Msg ''text length {} exceeds maximum {}'' [AI len, AW mx]))
            else if charset \<noteq> [] then
              (case find (\<lambda>c. c \<notin> set (utf8_chars charset)) (utf8_chars text) of
                 Some c \<Rightarrow> CRange (Invalid path (Msg ''character {} not in charset'' [AS c])) | None \<Rightarrow> COk)
            else COk)
       | _ \<Rightarrow> CStructural (Invalid path (Msg ''space is not {}'' [AS ''Text''])))
   | _ \<Rightarrow> CStructural (Invalid path (Msg ''expected {} value'' [AS ''Text''])))"

section \<open>Composite spaces\<close>

type_synonym check = "space_value \<Rightarrow> string \<Rightarrow> conformance option"

fun dict_loop :: "string \<Rightarrow> (string \<times> space_value) list \<Rightarrow> check list \<Rightarrow> nat \<Rightarrow> space_error option \<Rightarrow> string list \<Rightarrow>
    (space_error + space_error option) option" where
  "dict_loop path m checks i rng [] = Some (Inr rng)"
| "dict_loop path m checks i rng (key # keys) = (case map_of m key of
     Some v \<Rightarrow> (case nth_opt checks i of None \<Rightarrow> None
       | Some check \<Rightarrow> (case check v (key_path path key) of
           None \<Rightarrow> None
         | Some (CStructural e) \<Rightarrow> Some (Inl e)
         | Some (CRange e) \<Rightarrow> dict_loop path m checks (Suc i) (if rng = None then Some e else rng) keys
         | Some COk \<Rightarrow> dict_loop path m checks (Suc i) rng keys))
   | None \<Rightarrow> Some (Inl (Invalid path (Msg ''missing key {}'' [AS key]))))"

definition range_conformance :: "space_error option \<Rightarrow> conformance" where
  "range_conformance rng = (case rng of Some e \<Rightarrow> CRange e | None \<Rightarrow> COk)"

definition conform_dict :: "space_spec \<Rightarrow> check list \<Rightarrow> space_value \<Rightarrow> string \<Rightarrow> conformance option" where
  "conform_dict space checks v path = (case v of
     VDict m \<Rightarrow> (case ss_spec space of
         Some (KDict keys _) \<Rightarrow> (case dict_loop path m checks 0 None keys of
             None \<Rightarrow> None
           | Some (Inl e) \<Rightarrow> Some (CStructural e)
           | Some (Inr rng) \<Rightarrow> (case find (\<lambda>k. k \<notin> set keys) (map fst m) of
               Some k \<Rightarrow> Some (CStructural (Invalid path (Msg ''unexpected key {}'' [AS k])))
             | None \<Rightarrow> Some (range_conformance rng)))
       | _ \<Rightarrow> Some (CStructural (Invalid path (Msg ''space is not {}'' [AS ''Dict'']))))
   | _ \<Rightarrow> Some (CStructural (Invalid path (Msg ''expected {} value'' [AS ''Dict'']))))"

fun tuple_loop :: "string \<Rightarrow> nat \<Rightarrow> space_error option \<Rightarrow> (check \<times> space_value) list \<Rightarrow> conformance option" where
  "tuple_loop path i rng [] = Some (range_conformance rng)"
| "tuple_loop path i rng ((check, v) # cs) = (case check v (index_path path i) of
     None \<Rightarrow> None
   | Some (CStructural e) \<Rightarrow> Some (CStructural e)
   | Some (CRange e) \<Rightarrow> tuple_loop path (Suc i) (if rng = None then Some e else rng) cs
   | Some COk \<Rightarrow> tuple_loop path (Suc i) rng cs)"

definition conform_tuple :: "space_spec \<Rightarrow> check list \<Rightarrow> space_value \<Rightarrow> string \<Rightarrow> conformance option" where
  "conform_tuple space checks v path = (case v of
     VTuple vs \<Rightarrow> (case ss_spec space of
         Some (KTuple _) \<Rightarrow>
           if length vs \<noteq> length checks then Some (CStructural (Invalid path (Msg ''tuple length mismatch: expected {}, got {}'' [AN (length checks), AN (length vs)])))
           else tuple_loop path 0 None (zip checks vs)
       | _ \<Rightarrow> Some (CStructural (Invalid path (Msg ''space is not {}'' [AS ''Tuple'']))))
   | _ \<Rightarrow> Some (CStructural (Invalid path (Msg ''expected {} value'' [AS ''Tuple'']))))"

function conform_at :: "half \<Rightarrow> space_spec \<Rightarrow> check" where
  "conform_at h space v path = (case space_type_of space of
     TBox \<Rightarrow> conform_box h space v path
   | TDiscrete \<Rightarrow> Some (structural (contains_discrete space v path))
   | TMultiBinary \<Rightarrow> Some (structural (contains_multibinary space v path))
   | TMultiDiscrete \<Rightarrow> Some (structural (contains_multidiscrete space v path))
   | TText \<Rightarrow> Some (conform_text space v path)
   | TDict \<Rightarrow> conform_dict space (map (\<lambda>c v p. conform_at h c v p) (children space)) v path
   | TTuple \<Rightarrow> conform_tuple space (map (\<lambda>c v p. conform_at h c v p) (children space)) v path
   | TUnspecified \<Rightarrow> Some (CStructural (Invalid path (Msg ''space type not specified'' []))))"
  by pat_completeness auto
termination by (relation "measure (\<lambda>(h, s, v, p). size s)") (auto dest: size_child)

declare conform_at.simps [simp del]

definition conform :: "half \<Rightarrow> space_spec \<Rightarrow> space_value \<Rightarrow> conformance option" where
  "conform h space v = conform_at h space v ''$''"

definition space_contains :: "half \<Rightarrow> space_spec \<Rightarrow> space_value \<Rightarrow> unit checked" where
  "space_contains h space v = map_option into_result (conform h space v)"

section \<open>The serving policy\<close>

datatype validation_policy = PolicyWarn | PolicyStrict | PolicyOff

datatype policy_outcome = Accept | OutcomeWarn space_error | Reject space_error

definition evaluate :: "validation_policy \<Rightarrow> conformance \<Rightarrow> policy_outcome" where
  "evaluate policy c = (case c of
     COk \<Rightarrow> Accept
   | CStructural e \<Rightarrow> Reject e
   | CRange e \<Rightarrow> (case policy of PolicyWarn \<Rightarrow> OutcomeWarn e | PolicyStrict \<Rightarrow> Reject e | PolicyOff \<Rightarrow> Accept))"

definition policy_check :: "half \<Rightarrow> validation_policy \<Rightarrow> space_spec \<Rightarrow> space_value \<Rightarrow> policy_outcome option" where
  "policy_check h policy space v = map_option (evaluate policy) (conform h space v)"

section \<open>Leaves\<close>

definition is_composite :: "space_spec \<Rightarrow> bool" where
  "is_composite s = (case ss_spec s of Some (KDict _ _) \<Rightarrow> True | Some (KTuple _) \<Rightarrow> True | _ \<Rightarrow> False)"

function collect_specs :: "space_spec \<Rightarrow> space_spec list \<Rightarrow> space_spec list" where
  "collect_specs spec out =
     (if is_composite spec then foldl (\<lambda>o' f. f o') out (map (\<lambda>c o'. collect_specs c o') (children spec))
      else out @ [spec])"
  by pat_completeness auto
termination by (relation "measure (\<lambda>(s, out). size s)") (auto dest: size_child)

declare collect_specs.simps [simp del]

definition leaf_specs :: "space_spec \<Rightarrow> space_spec list" where
  "leaf_specs spec = collect_specs spec []"

type_synonym flattener = "space_value \<Rightarrow> space_value list \<Rightarrow> space_error + space_value list"

fun flatten_dict :: "(string \<times> space_value) list \<Rightarrow> (string \<times> flattener) list \<Rightarrow> space_value list \<Rightarrow>
    space_error + space_value list" where
  "flatten_dict m [] out = Inr out"
| "flatten_dict m ((key, f) # fs) out = (case map_of m key of
     None \<Rightarrow> Inl (Invalid ''$'' (Msg ''dict missing key {}'' [AS key]))
   | Some v \<Rightarrow> bind_res (f v out) (\<lambda>out'. flatten_dict m fs out'))"

fun flatten_tuple :: "(flattener \<times> space_value) list \<Rightarrow> space_value list \<Rightarrow> space_error + space_value list" where
  "flatten_tuple [] out = Inr out"
| "flatten_tuple ((f, v) # fs) out = bind_res (f v out) (\<lambda>out'. flatten_tuple fs out')"

function flatten_into :: "space_spec \<Rightarrow> flattener" where
  "flatten_into spec v out = (case ss_spec spec of
     Some (KDict keys _) \<Rightarrow> (case v of
         VDict m \<Rightarrow> flatten_dict m (zip keys (map (\<lambda>c v o'. flatten_into c v o') (children spec))) out
       | _ \<Rightarrow> Inl (Invalid ''$'' (Msg ''composite spec but value is not the matching composite'' [])))
   | Some (KTuple _) \<Rightarrow> (case v of
         VTuple vs \<Rightarrow>
           if length vs \<noteq> length (children spec) then Inl (Invalid ''$'' (Msg ''tuple arity {} != spec {}'' [AN (length vs), AN (length (children spec))]))
           else flatten_tuple (zip (map (\<lambda>c v o'. flatten_into c v o') (children spec)) vs) out
       | _ \<Rightarrow> Inl (Invalid ''$'' (Msg ''composite spec but value is not the matching composite'' [])))
   | _ \<Rightarrow> Inr (out @ [v]))"
  by pat_completeness auto
termination by (relation "measure (\<lambda>(s, v, out). size s)") (auto dest: size_child)

declare flatten_into.simps [simp del]

definition flatten_leaves :: "space_spec \<Rightarrow> space_value \<Rightarrow> space_error + space_value list" where
  "flatten_leaves spec v = flatten_into spec v []"

type_synonym assembler = "space_value list \<Rightarrow> space_error + (space_value \<times> space_value list)"

fun assemble_dict :: "(string \<times> assembler) list \<Rightarrow> (string \<times> space_value) list \<Rightarrow> assembler" where
  "assemble_dict [] m leaves = Inr (VDict m, leaves)"
| "assemble_dict ((key, f) # fs) m leaves =
     bind_res (f leaves) (\<lambda>(v, rest). assemble_dict fs (bt_insert key v m) rest)"

fun assemble_tuple :: "assembler list \<Rightarrow> space_value list \<Rightarrow> assembler" where
  "assemble_tuple [] vs leaves = Inr (VTuple vs, leaves)"
| "assemble_tuple (f # fs) vs leaves =
     bind_res (f leaves) (\<lambda>(v, rest). assemble_tuple fs (vs @ [v]) rest)"

function assemble_from :: "space_spec \<Rightarrow> assembler" where
  "assemble_from spec leaves = (case ss_spec spec of
     Some (KDict keys _) \<Rightarrow> assemble_dict (zip keys (map (\<lambda>c l. assemble_from c l) (children spec))) [] leaves
   | Some (KTuple _) \<Rightarrow> assemble_tuple (map (\<lambda>c l. assemble_from c l) (children spec)) [] leaves
   | _ \<Rightarrow> (case leaves of [] \<Rightarrow> Inl (Invalid ''$'' (Msg ''fewer leaves than spec expects'' [])) | v # rest \<Rightarrow> Inr (v, rest)))"
  by pat_completeness auto
termination by (relation "measure (\<lambda>(s, l). size s)") (auto dest: size_child)

declare assemble_from.simps [simp del]

definition assemble_value :: "space_spec \<Rightarrow> space_value list \<Rightarrow> space_error + space_value" where
  "assemble_value spec leaves = bind_res (assemble_from spec leaves) (\<lambda>(v, rest).
     if rest \<noteq> [] then Inl (Invalid ''$'' (Msg ''more leaves than spec expects'' [])) else Inr v)"

end
