(* ===== verification/SpaceConform.thy ===== *)
theory SpaceConform
  imports SpaceValues
begin

text \<open>
  What conformance means: a declarative reading of a spec (\<open>fits\<close>: the structure every policy insists on;
  \<open>in_range\<close>: the bounds, length and charset a policy may tolerate), and the proof that the single traversal
  of \<open>conform\<close> classifies every value exactly by it, without panicking, for every validated spec.
\<close>

section \<open>The declarative reading\<close>

definition box_scalars :: "half \<Rightarrow> tensor \<Rightarrow> scalar list" where
  "box_scalars h t = (case decode_scalars h (tensor_elems t) (t_dtype t) of Some (Inr vs) \<Rightarrow> vs | _ \<Rightarrow> [])"

text \<open>The bound of every element; an absent or infinite one is no bound.\<close>

definition element_bounds :: "half \<Rightarrow> dtype \<Rightarrow> nat \<Rightarrow> box_bounds option \<Rightarrow> bound list" where
  "element_bounds h dt n b = (case b of
     Some (BUniform low high) \<Rightarrow> replicate n (finite_float low, finite_float high)
   | Some (BElementwise low high) \<Rightarrow> zip (map finite_float low) (map finite_float high)
   | Some (BTypedUniform low high) \<Rightarrow> replicate n (decode_scalar h low dt, decode_scalar h high dt)
   | Some (BTypedElementwise low high) \<Rightarrow>
       zip (map (\<lambda>c. decode_scalar h c dt) (chunks_exact (dtype_size dt) low))
           (map (\<lambda>c. decode_scalar h c dt) (chunks_exact (dtype_size dt) high))
   | _ \<Rightarrow> replicate n (None, None))"

definition within :: "dtype \<Rightarrow> bound \<Rightarrow> scalar \<Rightarrow> bool" where
  "within dt b s = ((case fst b of Some l \<Rightarrow> \<not> scalar_gt dt l s | None \<Rightarrow> True) \<and>
     (case snd b of Some u \<Rightarrow> \<not> scalar_gt dt s u | None \<Rightarrow> True))"

function fits :: "half \<Rightarrow> space_spec \<Rightarrow> space_value \<Rightarrow> bool" where
  "fits h s v = (case ss_spec s of
     None \<Rightarrow> False
   | Some (KBox b) \<Rightarrow> (case v of VBox t \<Rightarrow>
       t_shape t = ss_shape s \<and> t_dtype t = ss_dtype s \<and> SFloat NaN \<notin> set (box_scalars h t) | _ \<Rightarrow> False)
   | Some (KDiscrete n start) \<Rightarrow> (case v of VDiscrete i \<Rightarrow>
       sint start \<le> sint i \<and> sint i < sint start + sint n | _ \<Rightarrow> False)
   | Some KMultiBinary \<Rightarrow> (case v of VMultiBinary bs \<Rightarrow> length bs = prod_list (map nat (ss_shape s)) | _ \<Rightarrow> False)
   | Some (KMultiDiscrete nvec) \<Rightarrow> (case v of VMultiDiscrete vs \<Rightarrow>
       list_all2 (\<lambda>v n. 0 \<le> sint v \<and> sint v < sint n) vs nvec | _ \<Rightarrow> False)
   | Some (KText _ _ _) \<Rightarrow> (case v of VText _ \<Rightarrow> True | _ \<Rightarrow> False)
   | Some (KDict keys _) \<Rightarrow> (case v of VDict m \<Rightarrow>
       set (map fst m) = set keys \<and>
       list_all2 (\<lambda>k f. case map_of m k of Some c \<Rightarrow> f c | None \<Rightarrow> False) keys (map (\<lambda>c v. fits h c v) (children s)) | _ \<Rightarrow> False)
   | Some (KTuple _) \<Rightarrow> (case v of VTuple vs \<Rightarrow>
       list_all2 (\<lambda>f c. f c) (map (\<lambda>c v. fits h c v) (children s)) vs | _ \<Rightarrow> False))"
  by pat_completeness auto
termination by (relation "measure (\<lambda>(h, s, v). size s)") (auto dest: size_child)

declare fits.simps [simp del]

function in_range :: "half \<Rightarrow> space_spec \<Rightarrow> space_value \<Rightarrow> bool" where
  "in_range h s v = (case ss_spec s of
     Some (KBox b) \<Rightarrow> (case v of VBox t \<Rightarrow>
       list_all2 (within (ss_dtype s)) (element_bounds h (ss_dtype s) (length (box_scalars h t)) b) (box_scalars h t) | _ \<Rightarrow> True)
   | Some (KText mn mx charset) \<Rightarrow> (case v of VText text \<Rightarrow>
       sint mn \<le> int (length (utf8_chars text)) \<and> int (length (utf8_chars text)) \<le> sint mx \<and>
       (charset \<noteq> [] \<longrightarrow> set (utf8_chars text) \<subseteq> set (utf8_chars charset)) | _ \<Rightarrow> True)
   | Some (KDict keys _) \<Rightarrow> (case v of VDict m \<Rightarrow>
       list_all2 (\<lambda>k f. case map_of m k of Some c \<Rightarrow> f c | None \<Rightarrow> True) keys (map (\<lambda>c v. in_range h c v) (children s)) | _ \<Rightarrow> True)
   | Some (KTuple _) \<Rightarrow> (case v of VTuple vs \<Rightarrow>
       list_all2 (\<lambda>f c. f c) (map (\<lambda>c v. in_range h c v) (children s)) vs | _ \<Rightarrow> True)
   | _ \<Rightarrow> True)"
  by pat_completeness auto
termination by (relation "measure (\<lambda>(h, s, v). size s)") (auto dest: size_child)

declare in_range.simps [simp del]

text \<open>Values a program can hold: materialized tensors, vectors and strings shorter than \<open>isize::MAX\<close>, sorted maps.\<close>

fun value_ok :: "space_value \<Rightarrow> bool" where
  "value_ok (VBox t) = materializes t"
| "value_ok (VMultiBinary bs) = (length bs < 2 ^ 63)"
| "value_ok (VText s) = (length s < 2 ^ 63)"
| "value_ok (VDict m) = (bt_inv m \<and> (\<forall>x \<in> set m. value_ok (snd x)))"
| "value_ok (VTuple vs) = (\<forall>x \<in> set vs. value_ok x)"
| "value_ok _ = True"

section \<open>Leaves of the traversal\<close>

text \<open>The conformance of a value that does or does not fit, in or out of range.\<close>

definition classified :: "conformance \<Rightarrow> bool \<Rightarrow> bool \<Rightarrow> bool" where
  "classified c F R = (case c of COk \<Rightarrow> F \<and> R | CRange _ \<Rightarrow> F \<and> \<not> R | CStructural _ \<Rightarrow> \<not> F)"

lemma classified_simps [simp]:
  "classified COk F R \<longleftrightarrow> F \<and> R" "classified (CRange e) F R \<longleftrightarrow> F \<and> \<not> R" "classified (CStructural e) F R \<longleftrightarrow> \<not> F"
  by (simp_all add: classified_def)

lemma classified_structural: "(\<exists>u. r = Inr u) = F \<Longrightarrow> R \<Longrightarrow> classified (structural r) F R"
  by (cases r) (auto simp: structural_def)

lemma uint_signed_diff: "sint (a :: i64) \<le> sint b \<Longrightarrow> uint (b - a) = sint b - sint a"
proof -
  assume le: "sint a \<le> sint b"
  have "b - a = word_of_int (sint b - sint a)" by simp
  then have "uint (b - a) = (sint b - sint a) mod 2 ^ 64" by (simp add: uint_word_of_int del: of_int_diff of_int_sint)
  also have "\<dots> = sint b - sint a"
    using le sint_lt [of b] sint_ge [of a] by (intro mod_pos_pos_trivial) simp_all
  finally show ?thesis .
qed

lemma uint_pos: "0 < sint (a :: i64) \<Longrightarrow> uint a = sint a"
  using uint_signed_diff [of 0 a] by simp

lemma discrete_range:
  fixes start i n :: i64
  shows "0 < sint n \<Longrightarrow> (sint start \<le> sint i \<and> uint (i - start) < uint n) \<longleftrightarrow> (sint start \<le> sint i \<and> sint i < sint start + sint n)"
  by (auto simp: uint_signed_diff uint_pos)

lemma md_values_ok: "(\<exists>u. md_values path i ps = Inr u) \<longleftrightarrow> (\<forall>(v, n) \<in> set ps. 0 \<le> sint v \<and> sint v < sint n)"
  by (induction path i ps rule: md_values.induct) (auto simp: not_le not_less)

lemma prod_ge: "\<forall>d \<in> set ds. 0 < d \<Longrightarrow> a \<le> a * prod_list (map nat ds)"
  using prod_list_pos [OF nat_pos_set, of ds] by (cases "prod_list (map nat ds)") auto

lemma mb_size_eq:
  assumes "\<forall>d \<in> set ds. 0 < d" "a \<le> u64_max"
  shows "mb_size a ds = (if a * prod_list (map nat ds) \<le> u64_max then Some (a * prod_list (map nat ds)) else None)"
  using assms
proof (induction ds arbitrary: a)
  case (Cons d ds)
  then have "a * nat d \<le> a * nat d * prod_list (map nat ds)" by (intro prod_ge) simp
  then have le: "a * (nat d * prod_list (map nat ds)) \<le> u64_max \<Longrightarrow> a * nat d \<le> u64_max"
    unfolding mult.assoc by linarith
  show ?case using Cons.prems Cons.IH [of "a * nat d"] le by (auto simp: checked_mul_def mult.assoc)
qed simp

lemma checked_product_eq:
  assumes "\<forall>d \<in> set ds. 0 < d \<and> d \<le> i64_max" "a \<le> u64_max"
  shows "checked_product a ds = (if a * prod_list (map nat ds) \<le> u64_max then Some (a * prod_list (map nat ds)) else None)"
  using assms
proof (induction ds arbitrary: a)
  case (Cons d ds)
  then have "a * nat d \<le> a * nat d * prod_list (map nat ds)" by (intro prod_ge) simp
  then have le: "a * (nat d * prod_list (map nat ds)) \<le> u64_max \<Longrightarrow> a * nat d \<le> u64_max"
    unfolding mult.assoc by linarith
  have "wrap_u 64 d = d" using Cons.prems(1) by (simp add: wrap_u_def)
  then show ?case using Cons.prems Cons.IH [of "a * nat d"] le
    by (auto simp: checked_mul_def mult.assoc mult.commute [of "nat d" a])
qed simp

lemma first_range_not_nan: "first_range i vs \<noteq> Some (FNan k)"
  by (induction i vs rule: first_range.induct) auto

lemma verdicts_finding_nan: "VNan \<in> set vs \<Longrightarrow> \<exists>i. verdicts_finding vs = Some (FNan i)"
  by (cases "position (\<lambda>v. v = VNan) vs") (auto simp: verdicts_finding_def position_None_iff)

lemma verdicts_finding_rng: "VNan \<notin> set vs \<Longrightarrow> verdicts_finding vs = first_range 0 vs"
proof -
  assume "VNan \<notin> set vs"
  then have "position (\<lambda>v. v = VNan) vs = None" by (auto simp: position_None_iff)
  then show ?thesis by (simp add: verdicts_finding_def)
qed

lemma ref_verdict_Ok: "ref_verdict dt b s = VOk \<longleftrightarrow> s \<noteq> SFloat NaN \<and> within dt b s"
  by (auto simp: ref_verdict_def within_def split: prod.splits option.splits)

lemma ref_verdict_Nan: "ref_verdict dt b s = VNan \<longleftrightarrow> s = SFloat NaN"
  by (auto simp: ref_verdict_def split: prod.splits)

lemma finding_classified:
  assumes "length bs = length vs"
  shows "classified (finding_conformance path (verdicts_finding (map2 (ref_verdict dt) bs vs)))
    (SFloat NaN \<notin> set vs) (list_all2 (within dt) bs vs)"
proof -
  let ?ver = "map2 (ref_verdict dt) bs vs"
  have len: "length ?ver = length vs" using assms by simp
  have nth: "?ver ! k = ref_verdict dt (bs ! k) (vs ! k)" if "k < length vs" for k using that assms by simp
  show ?thesis
  proof (cases "SFloat NaN \<in> set vs")
    case True
    then obtain k where k: "k < length vs" "vs ! k = SFloat NaN" by (auto simp: in_set_conv_nth)
    then have "?ver ! k = VNan" using nth [of k] by (simp add: ref_verdict_Nan)
    then have "VNan \<in> set ?ver" using k(1) nth_mem [of k ?ver] unfolding len by simp
    from verdicts_finding_nan [OF this] True show ?thesis by (auto simp: finding_conformance_def)
  next
    case False
    have vs: "vs ! k \<noteq> SFloat NaN" if "k < length vs" for k using False that nth_mem by metis
    have "?ver ! k \<noteq> VNan" if "k < length vs" for k using nth [OF that] vs [OF that] by (simp add: ref_verdict_Nan)
    then have "VNan \<notin> set ?ver" unfolding in_set_conv_nth len by blast
    then have fr: "verdicts_finding ?ver = first_range 0 ?ver" by (rule verdicts_finding_rng)
    have "first_range 0 ?ver = None \<longleftrightarrow> (\<forall>k < length vs. ?ver ! k = VOk)"
    proof -
      have "first_range 0 ?ver = None \<longleftrightarrow> (\<forall>v \<in> set ?ver. v = VOk)"
        unfolding first_range_None_iff using \<open>VNan \<notin> set ?ver\<close> by (metis verdict.exhaust verdict.distinct(3))
      also have "\<dots> \<longleftrightarrow> (\<forall>k < length vs. ?ver ! k = VOk)" unfolding all_set_conv_all_nth len ..
      finally show ?thesis .
    qed
    also have "\<dots> \<longleftrightarrow> list_all2 (within dt) bs vs"
      using assms vs nth by (simp add: list_all2_conv_all_nth ref_verdict_Ok)
    finally have "first_range 0 ?ver = None \<longleftrightarrow> list_all2 (within dt) bs vs" .
    with False fr first_range_not_nan [of 0 ?ver] show ?thesis
      by (cases "first_range 0 ?ver") (auto simp: finding_conformance_def split: finding.splits)
  qed
qed

lemma validate_typed_ok:
  assumes "validate_typed_bounds h low high n dt path = Some (Inr ())"
  shows "dt \<noteq> DUnspecified \<and> length low = n * dtype_size dt \<and> length high = n * dtype_size dt"
  using assms by (auto simp: validate_typed_bounds_def split: if_splits option.splits)

text \<open>What validation leaves of a Box spec: a positive shape, a dtype, and bounds of the right length.\<close>

lemma validate_box_ok:
  assumes "validate_box_at h s path = Some (Inr ())" "ss_spec s = Some (KBox b)" "\<forall>d \<in> set (ss_shape s). d \<le> i64_max"
  shows "\<forall>d \<in> set (ss_shape s). 0 < d" "ss_dtype s \<noteq> DUnspecified"
    "case b of Some (BElementwise low high) \<Rightarrow> length low = prod_list (map nat (ss_shape s)) \<and> length high = length low
       | Some (BTypedUniform low high) \<Rightarrow> length low = dtype_size (ss_dtype s) \<and> length high = dtype_size (ss_dtype s)
       | Some (BTypedElementwise low high) \<Rightarrow> length low = prod_list (map nat (ss_shape s)) * dtype_size (ss_dtype s) \<and>
           length high = prod_list (map nat (ss_shape s)) * dtype_size (ss_dtype s)
       | _ \<Rightarrow> True"
proof -
  have "bad_dim (ss_shape s) = None" using assms(1) by (auto simp: validate_box_at_def split: if_splits option.splits)
  then show pos: "\<forall>d \<in> set (ss_shape s). 0 < d" by (auto simp: bad_dim_def position_None_iff)
  show "ss_dtype s \<noteq> DUnspecified" using assms(1) by (auto simp: validate_box_at_def split: if_splits)
  have "checked_product 1 (ss_shape s) = (if prod_list (map nat (ss_shape s)) \<le> u64_max then Some (prod_list (map nat (ss_shape s))) else None)"
    using checked_product_eq [of "ss_shape s" 1] pos assms(3) by auto
  with assms(1,2) \<open>bad_dim (ss_shape s) = None\<close>
  show "case b of Some (BElementwise low high) \<Rightarrow> length low = prod_list (map nat (ss_shape s)) \<and> length high = length low
       | Some (BTypedUniform low high) \<Rightarrow> length low = dtype_size (ss_dtype s) \<and> length high = dtype_size (ss_dtype s)
       | Some (BTypedElementwise low high) \<Rightarrow> length low = prod_list (map nat (ss_shape s)) * dtype_size (ss_dtype s) \<and>
           length high = prod_list (map nat (ss_shape s)) * dtype_size (ss_dtype s)
       | _ \<Rightarrow> True"
    by (auto simp: validate_box_at_def split: if_splits option.splits box_bounds.splits dest!: validate_typed_ok)
qed

lemma box_bounds_resolved:
  assumes "ss_spec s = Some (KBox b)" "dt \<noteq> DUnspecified"
    "case b of Some (BElementwise low high) \<Rightarrow> length low = n \<and> length high = length low
       | Some (BTypedUniform low high) \<Rightarrow> length low = dtype_size dt \<and> length high = dtype_size dt
       | Some (BTypedElementwise low high) \<Rightarrow> length low = n * dtype_size dt \<and> length high = n * dtype_size dt
       | _ \<Rightarrow> True"
  obtains bs where "box_bounds_of h s n dt path = Some (Inr bs)" "bounds_for dt n bs"
    "scalar_bounds h dt n bs = element_bounds h dt n b"
proof -
  have n: "0 < dtype_size dt" using assms(2) by (simp add: dtype_size_pos)
  have fin: "float_bound (finite_float v)" for v by (simp add: float_bound_def finite_float_def)
  have typed: "float_bound (decode_scalar h c dt)" if "length c = dtype_size dt" "is_float dt" for c
    using decode_float [OF that(2,1), of h] by (simp add: float_bound_def)
  show thesis
  proof (cases b)
    case None
    then show thesis using that [of "Uniform (None, None)"] assms(1)
      by (simp add: box_bounds_of_def bounds_for_def scalar_bounds_def element_bounds_def float_bound_def)
  next
    case (Some b')
    show thesis
    proof (cases b')
      case (BTypedUniform low high)
      obtain l u where "decode_scalar h low dt = Some l" "decode_scalar h high dt = Some u"
        using decode_scalar_total [of low dt h] decode_scalar_total [of high dt h] assms(2,3) Some BTypedUniform by auto
      then show thesis using that [of "Uniform (Some l, Some u)"] assms n typed [of low] typed [of high] Some BTypedUniform
        by (simp add: box_bounds_of_def bounds_for_def scalar_bounds_def element_bounds_def check_typed_bounds_def)
    next
      case (BTypedElementwise low high)
      then show thesis using that [of "TypedElementwise low high"] assms n Some
        by (simp add: box_bounds_of_def bounds_for_def scalar_bounds_def element_bounds_def check_typed_bounds_def)
    next
      case (BElementwise low high)
      then show thesis using that [of "Elementwise low high"] assms Some
        by (simp add: box_bounds_of_def bounds_for_def scalar_bounds_def element_bounds_def)
    next
      case (BUniform low high)
      then show thesis using that [of "Uniform (finite_float low, finite_float high)"] assms Some fin
        by (simp add: box_bounds_of_def bounds_for_def scalar_bounds_def element_bounds_def)
    next
      case (BUnbounded u)
      then show thesis using that [of "Uniform (None, None)"] assms(1) Some
        by (simp add: box_bounds_of_def bounds_for_def scalar_bounds_def element_bounds_def float_bound_def)
    qed
  qed
qed

lemma factor_le_prod: "d \<in> set ds \<Longrightarrow> \<forall>x \<in> set ds. 0 < x \<Longrightarrow> nat d \<le> prod_list (map nat ds)"
proof (induction ds)
  case (Cons x ds)
  have pos: "1 \<le> prod_list (map nat ds)" "1 \<le> nat x" using Cons.prems prod_list_pos [OF nat_pos_set, of ds] by auto
  show ?case
  proof (cases "d = x")
    case True
    then show ?thesis using mult_le_mono2 [OF pos(1), of "nat x"] by simp
  next
    case False
    then have "nat d \<le> prod_list (map nat ds)" using Cons by simp
    also have "\<dots> \<le> nat x * prod_list (map nat ds)" using mult_le_mono1 [OF pos(2), of "prod_list (map nat ds)"] by simp
    finally show ?thesis by simp
  qed
qed simp

lemma materializes_dims:
  assumes "materializes t" "\<forall>x \<in> set (t_shape t). 0 < x" "d \<in> set (t_shape t)"
  shows "d \<le> i64_max"
proof -
  have "nat d < 2 ^ 63" using factor_le_prod [OF assms(3,2)] materializes_numel [OF assms(1)] by (simp add: view_shape_def)
  then show ?thesis by simp
qed

lemma conform_box_classified:
  assumes val: "validate_box_at h s p0 = Some (Inr ())" and b: "ss_spec s = Some (KBox b)" and v: "value_ok v"
  shows "\<exists>c. conform_box h s v path = Some c \<and> classified c (fits h s v) (in_range h s v)"
proof (cases "\<exists>t. v = VBox t \<and> t_shape t = ss_shape s \<and> t_dtype t = ss_dtype s")
  case False
  then have "\<not> fits h s v" by (auto simp: fits.simps [of h s v] b split: space_value.splits)
  moreover have "\<exists>e. conform_box h s v path = Some (CStructural e)"
    using False by (cases v) (auto simp: conform_box_def)
  ultimately show ?thesis by auto
next
  case True
  then obtain t where t: "v = VBox t" "t_shape t = ss_shape s" "t_dtype t = ss_dtype s" by blast
  let ?dt = "ss_dtype s" and ?n = "prod_list (view_shape t)"
  have m: "materializes t" and ok: "tensor_ok t" using v t(1) by (simp_all add: materializes_def)
  have pos: "\<forall>d \<in> set (ss_shape s). 0 < d"
  proof -
    have "bad_dim (ss_shape s) = None" using val by (auto simp: validate_box_at_def split: if_splits option.splits)
    then show ?thesis by (auto simp: bad_dim_def position_None_iff)
  qed
  then have dims: "\<forall>d \<in> set (ss_shape s). d \<le> i64_max" using materializes_dims [OF m] t(2) by simp
  note vb = validate_box_ok [OF val b dims]
  have n: "?n = prod_list (map nat (ss_shape s))" by (simp add: view_shape_def t(2))
  obtain bs where bs: "box_bounds_of h s ?n ?dt path = Some (Inr bs)" "bounds_for ?dt ?n bs"
    "scalar_bounds h ?dt ?n bs = element_bounds h ?dt ?n b"
    using box_bounds_resolved [OF b vb(2), of ?n h path] vb(3) unfolding n by blast
  have len: "length (tensor_elems t) = ?n * dtype_size ?dt" using length_tensor_elems [OF m] by (simp add: t(3))
  have size: "0 < dtype_size ?dt" using vb(2) by (simp add: dtype_size_pos)
  obtain vs where vs: "decode_scalars h (tensor_elems t) ?dt = Some (Inr vs)" "length vs = ?n"
    using decode_whole [OF vb(2), of "tensor_elems t" h] len size by auto
  have "scan h (tensor_elems t) ?dt bs = Some (verdicts_finding (map2 (ref_verdict ?dt) (element_bounds h ?dt ?n b) vs))"
    using scan_reference [OF vb(2) vs(1)] bs vs(2) by simp
  then have "conform_box h s v path = Some (finding_conformance path
      (verdicts_finding (map2 (ref_verdict ?dt) (element_bounds h ?dt ?n b) vs)))"
    using tensor_okD(3) [OF ok] bs(1) to_contiguous_elems [OF m] len vb(2)
    by (simp add: conform_box_def t)
  moreover have "length (element_bounds h ?dt ?n b) = length vs"
    using length_scalar_bounds [OF vb(2) bs(2), of h] bs(3) vs(2) by simp
  moreover have "fits h s v \<longleftrightarrow> SFloat NaN \<notin> set vs" "in_range h s v \<longleftrightarrow> list_all2 (within ?dt) (element_bounds h ?dt ?n b) vs"
    using vs by (simp_all add: fits.simps [of h s "VBox t"] in_range.simps [of h s "VBox t"] b t box_scalars_def)
  ultimately show ?thesis using finding_classified [of "element_bounds h ?dt ?n b" vs path ?dt] by simp
qed

lemma conform_discrete_classified:
  assumes "validate_discrete_at s p0 = Some (Inr ())" "ss_spec s = Some (KDiscrete n start)"
  shows "classified (structural (contains_discrete s v path)) (fits h s v) (in_range h s v)"
proof (rule classified_structural)
  have "0 < sint n" using assms by (auto simp: validate_discrete_at_def split: if_splits)
  note r = discrete_range [OF this, of start]
  show "(\<exists>u. contains_discrete s v path = Inr u) = fits h s v"
    unfolding fits.simps [of h s v] by (cases v) (simp_all add: contains_discrete_def assms(2) r)
qed (simp add: in_range.simps [of h s v] assms(2))

lemma conform_multibinary_classified:
  assumes "validate_multibinary_at s p0 = Some (Inr ())" "value_ok v"
  shows "classified (structural (contains_multibinary s v path)) (fits h s v) (in_range h s v)"
proof (rule classified_structural)
  have k: "ss_spec s = Some KMultiBinary" and "bad_dim (ss_shape s) = None"
    using assms by (auto simp: validate_multibinary_at_def split: if_splits option.splits)
  then have pos: "\<forall>d \<in> set (ss_shape s). 0 < d" by (auto simp: bad_dim_def position_None_iff)
  show "(\<exists>u. contains_multibinary s v path = Inr u) = fits h s v"
    unfolding fits.simps [of h s v] using assms(2) mb_size_eq [OF pos, of 1]
    by (cases v) (auto simp: contains_multibinary_def k)
  show "in_range h s v" by (simp add: in_range.simps [of h s v] k)
qed

lemma conform_multidiscrete_classified:
  assumes "ss_spec s = Some (KMultiDiscrete nvec)"
  shows "classified (structural (contains_multidiscrete s v path)) (fits h s v) (in_range h s v)"
proof (rule classified_structural)
  have "(length vs = length nvec \<and> (\<forall>(v, n) \<in> set (zip vs nvec). 0 \<le> sint v \<and> sint v < sint n)) \<longleftrightarrow>
      list_all2 (\<lambda>v n. 0 \<le> sint v \<and> sint v < sint n) vs nvec" for vs
    by (simp add: list_all2_iff)
  then show "(\<exists>u. contains_multidiscrete s v path = Inr u) = fits h s v"
    unfolding fits.simps [of h s v] using md_values_ok [of path 0]
    by (cases v) (auto simp: contains_multidiscrete_def assms)
qed (simp add: in_range.simps [of h s v] assms)

lemma length_utf8_chars: "length (utf8_chars s) \<le> length s"
proof (induction s rule: utf8_chars.induct)
  case (2 c s)
  then show ?case using length_dropWhile_le [of is_continuation s] by simp
qed simp

lemma conform_text_classified:
  assumes "ss_spec s = Some (KText mn mx charset)" "value_ok v"
  shows "classified (conform_text s v path) (fits h s v) (in_range h s v)"
proof (cases v)
  case (VText str)
  have len: "as_i64 (length (utf8_chars str)) = int (length (utf8_chars str))"
    using assms(2) VText length_utf8_chars [of str] by simp
  have "find (\<lambda>c. c \<notin> set (utf8_chars charset)) (utf8_chars str) = None \<longleftrightarrow> set (utf8_chars str) \<subseteq> set (utf8_chars charset)"
    by (auto simp: find_None_iff)
  then show ?thesis
    unfolding fits.simps [of h s v] in_range.simps [of h s v]
    by (auto simp: conform_text_def VText assms(1) len Let_def not_less split: option.split)
qed (simp_all add: conform_text_def fits.simps [of h s] assms(1))

section \<open>The traversal\<close>

text \<open>A check that classifies every value of a set by a pair of predicates.\<close>

definition classifies :: "space_value set \<Rightarrow> check \<Rightarrow> (space_value \<Rightarrow> bool) \<times> (space_value \<Rightarrow> bool) \<Rightarrow> bool" where
  "classifies V ck f \<longleftrightarrow> (\<forall>v \<in> V. \<forall>p. \<exists>c. ck v p = Some c \<and> classified c (fst f v) (snd f v))"

lemma classifiesE:
  assumes "classifies V ck f" "v \<in> V"
  obtains "ck v p = Some COk" "fst f v" "snd f v"
    | e where "ck v p = Some (CRange e)" "fst f v" "\<not> snd f v"
    | e where "ck v p = Some (CStructural e)" "\<not> fst f v"
proof -
  from assms obtain c where "ck v p = Some c" "classified c (fst f v) (snd f v)" by (auto simp: classifies_def)
  then show thesis using that by (cases c) auto
qed

lemma drop_ConsD: "drop i xs = y # ys \<Longrightarrow> nth_opt xs i = Some y \<and> drop (Suc i) xs = ys"
  by (induction xs i rule: nth_opt.induct) simp_all

lemma dict_loop_classified:
  assumes "list_all2 (classifies (snd ` set m)) (drop i checks) fs" "length keys = length fs"
  shows "\<exists>r. dict_loop path m checks i rng keys = Some r \<and> (case r of
     Inl _ \<Rightarrow> \<not> list_all2 (\<lambda>k f. case map_of m k of Some c \<Rightarrow> fst f c | None \<Rightarrow> False) keys fs
   | Inr r' \<Rightarrow> list_all2 (\<lambda>k f. case map_of m k of Some c \<Rightarrow> fst f c | None \<Rightarrow> False) keys fs \<and>
       (r' = None \<longleftrightarrow> rng = None \<and> list_all2 (\<lambda>k f. case map_of m k of Some c \<Rightarrow> snd f c | None \<Rightarrow> True) keys fs))"
  using assms
proof (induction keys arbitrary: i rng fs)
  case (Cons key keys)
  then obtain f fs' where fs: "fs = f # fs'" by (cases fs) auto
  with Cons.prems(1) obtain ck cks where d: "drop i checks = ck # cks" "classifies (snd ` set m) ck f"
    "list_all2 (classifies (snd ` set m)) cks fs'" by (auto simp: list_all2_Cons2)
  have i: "nth_opt checks i = Some ck" "drop (Suc i) checks = cks"
    using drop_ConsD [OF d(1)] by simp_all
  have ih: "\<exists>r. dict_loop path m checks (Suc i) rng' keys = Some r \<and> (case r of
     Inl _ \<Rightarrow> \<not> list_all2 (\<lambda>k f. case map_of m k of Some c \<Rightarrow> fst f c | None \<Rightarrow> False) keys fs'
   | Inr r' \<Rightarrow> list_all2 (\<lambda>k f. case map_of m k of Some c \<Rightarrow> fst f c | None \<Rightarrow> False) keys fs' \<and>
       (r' = None \<longleftrightarrow> rng' = None \<and> list_all2 (\<lambda>k f. case map_of m k of Some c \<Rightarrow> snd f c | None \<Rightarrow> True) keys fs'))" for rng'
    using Cons.IH [of "Suc i" fs'] Cons.prems(2) i(2) d(3) fs by simp
  show ?case
  proof (cases "map_of m key")
    case None
    then show ?thesis by (simp add: fs)
  next
    case (Some v)
    then have "v \<in> snd ` set m" by (metis imageI map_of_SomeD snd_conv)
    from d(2) this show ?thesis
    proof (cases rule: classifiesE [where p = "key_path path key"])
      case 1
      obtain r where "dict_loop path m checks (Suc i) rng keys = Some r" using ih [of rng] by blast
      with 1 ih [of rng] show ?thesis by (cases r) (simp_all add: Some fs i)
    next
      case (2 e)
      let ?rng = "if rng = None then Some e else rng"
      obtain r where "dict_loop path m checks (Suc i) ?rng keys = Some r" using ih [of ?rng] by blast
      with 2 ih [of ?rng] show ?thesis by (cases r) (simp_all add: Some fs i)
    next
      case (3 e)
      with i show ?thesis by (simp add: Some fs)
    qed
  qed
qed simp

lemma tuple_loop_classified:
  assumes "list_all2 (classifies (set vs)) checks fs" "length vs = length fs"
  shows "\<exists>c. tuple_loop path i rng (zip checks vs) = Some c \<and>
    classified c (list_all2 (\<lambda>f v. fst f v) fs vs) (rng = None \<and> list_all2 (\<lambda>f v. snd f v) fs vs)"
  using assms
proof (induction vs arbitrary: i rng checks fs)
  case Nil
  then show ?case by (auto simp: range_conformance_def split: option.splits)
next
  case (Cons v vs)
  then obtain f fs' ck cks where fs: "fs = f # fs'" "checks = ck # cks" "classifies (set (v # vs)) ck f"
    "list_all2 (classifies (set (v # vs))) cks fs'" by (cases fs) (auto simp: list_all2_Cons2)
  have "list_all2 (classifies (set vs)) cks fs'" using fs(4) by (rule list_all2_mono) (auto simp: classifies_def)
  note ih = Cons.IH [OF this, of "Suc i"]
  from fs(3) have "v \<in> set (v # vs)" by simp
  from fs(3) this show ?case
  proof (cases rule: classifiesE [where p = "index_path path i"])
    case 1
    with ih [of rng] Cons.prems(2) show ?thesis by (simp add: fs(1,2))
  next
    case (2 e)
    with ih [of "if rng = None then Some e else rng"] Cons.prems(2) show ?thesis
      by (auto simp: fs(1,2) split: if_splits)
  next
    case (3 e)
    then show ?thesis by (simp add: fs(1,2))
  qed
qed

lemma dict_entries_ok:
  "dict_entries path seen es = Some (Inr ()) \<longleftrightarrow>
     [] \<notin> fst ` set es \<and> distinct (map fst es) \<and> seen \<inter> fst ` set es = {} \<and>
     (\<forall>(k, ck) \<in> set es. ck (key_path path k) = Some (Inr ()))"
proof (induction path seen es rule: dict_entries.induct)
  case (2 path seen key ck es)
  then show ?case by (auto simp: res_simps)
qed simp

lemma tuple_entries_ok:
  "tuple_entries path i cks = Some (Inr ()) \<Longrightarrow> ck \<in> set cks \<Longrightarrow> \<exists>p. ck p = Some (Inr ())"
  by (induction path i cks rule: tuple_entries.induct) (auto simp: res_simps)

lemma validate_dict_ok:
  assumes "validate_space_at h s path = Some (Inr ())" "ss_spec s = Some (KDict keys cs)"
  shows "length keys = length cs" "distinct keys" "[] \<notin> set keys" "c \<in> set cs \<Longrightarrow> \<exists>p. validate_space_at h c p = Some (Inr ())"
proof -
  have cs: "children s = cs" using assms(2) by (simp add: children_def)
  have d: "validate_dict_at s (map (\<lambda>c p. validate_space_at h c p) cs) path = Some (Inr ())"
    using assms by (simp add: validate_space_at.simps [of h s] space_type_of_def cs)
  then show len: "length keys = length cs" using assms(2) by (auto simp: validate_dict_at_def split: if_splits)
  have ok: "dict_entries path {} (zip keys (map (\<lambda>c p. validate_space_at h c p) cs)) = Some (Inr ())"
    using d assms(2) by (auto simp: validate_dict_at_def split: if_splits)
  have keys: "map fst (zip keys (map (\<lambda>c p. validate_space_at h c p) cs)) = keys" using len by simp
  show "distinct keys" using ok keys unfolding dict_entries_ok by simp
  have "fst ` set (zip keys (map (\<lambda>c p. validate_space_at h c p) cs)) = set keys" using keys by (metis set_map)
  then show "[] \<notin> set keys" using ok unfolding dict_entries_ok by simp
  show "\<exists>p. validate_space_at h c p = Some (Inr ())" if c: "c \<in> set cs"
  proof -
    obtain i where i: "i < length cs" "c = cs ! i" using c by (auto simp: in_set_conv_nth)
    then have "(keys ! i, \<lambda>p. validate_space_at h c p) \<in> set (zip keys (map (\<lambda>c p. validate_space_at h c p) cs))"
      using len by (auto simp: in_set_zip intro!: exI [of _ i])
    with ok show ?thesis unfolding dict_entries_ok by blast
  qed
qed

lemma validate_tuple_ok:
  assumes "validate_space_at h s path = Some (Inr ())" "ss_spec s = Some (KTuple cs)" "c \<in> set cs"
  shows "\<exists>p. validate_space_at h c p = Some (Inr ())"
proof -
  have "children s = cs" using assms(2) by (simp add: children_def)
  then have "tuple_entries path 0 (map (\<lambda>c p. validate_space_at h c p) cs) = Some (Inr ())"
    using assms(1,2) by (auto simp: validate_space_at.simps [of h s] space_type_of_def validate_tuple_at_def split: if_splits)
  from tuple_entries_ok [OF this, of "\<lambda>p. validate_space_at h c p"] assms(3) show ?thesis by auto
qed

lemma conform_dict_classified:
  assumes k: "ss_spec s = Some (KDict keys cs)" and len: "length keys = length cs"
    and cls: "\<And>c m v p. c \<in> set cs \<Longrightarrow> value_ok v \<Longrightarrow> \<exists>r. conform_at h c v p = Some r \<and> classified r (fits h c v) (in_range h c v)"
    and v: "value_ok v"
  shows "\<exists>c. conform_dict s (map (\<lambda>c v p. conform_at h c v p) cs) v path = Some c \<and> classified c (fits h s v) (in_range h s v)"
proof (cases v)
  case (VDict m)
  let ?fs = "map (\<lambda>c. (\<lambda>v. fits h c v, \<lambda>v. in_range h c v)) cs"
  let ?F = "list_all2 (\<lambda>k f. case map_of m k of Some c \<Rightarrow> fst f c | None \<Rightarrow> False) keys ?fs"
  have ok: "\<forall>v \<in> snd ` set m. value_ok v" using v VDict by auto
  have "list_all2 (classifies (snd ` set m)) (drop 0 (map (\<lambda>c v p. conform_at h c v p) cs)) ?fs"
    using cls ok by (auto simp: list_all2_conv_all_nth classifies_def)
  from dict_loop_classified [OF this, of keys path None] len
  obtain r where r: "dict_loop path m (map (\<lambda>c v p. conform_at h c v p) cs) 0 None keys = Some r"
    "case r of Inl _ \<Rightarrow> \<not> ?F | Inr r' \<Rightarrow> ?F \<and> (r' = None \<longleftrightarrow> (None :: space_error option) = None \<and>
       list_all2 (\<lambda>k f. case map_of m k of Some c \<Rightarrow> snd f c | None \<Rightarrow> True) keys ?fs)" by (auto simp only: length_map)
  have fits: "fits h s v \<longleftrightarrow> set (map fst m) = set keys \<and> ?F"
    "in_range h s v \<longleftrightarrow> list_all2 (\<lambda>k f. case map_of m k of Some c \<Rightarrow> snd f c | None \<Rightarrow> True) keys ?fs"
    unfolding fits.simps [of h s v] in_range.simps [of h s v] by (simp_all add: VDict k children_def list_all2_map2 cong: option.case_cong)
  have sub: "set keys \<subseteq> set (map fst m)" if ?F
  proof
    fix key assume "key \<in> set keys"
    then obtain i where "i < length keys" "keys ! i = key" by (auto simp: in_set_conv_nth)
    with that have "map_of m key \<noteq> None" by (auto simp: list_all2_conv_all_nth split: option.splits)
    then show "key \<in> set (map fst m)" by (metis map_of_eq_None_iff set_map)
  qed
  have extra: "find (\<lambda>k. k \<notin> set keys) (map fst m) = None \<longleftrightarrow> set (map fst m) \<subseteq> set keys" by (auto simp: find_None_iff)
  show ?thesis
  proof (cases r)
    case (Inl e)
    with r fits(1) show ?thesis by (simp add: conform_dict_def VDict k)
  next
    case (Inr r')
    with r have "?F" by simp
    then show ?thesis using r Inr fits sub extra
      by (cases "find (\<lambda>k. k \<notin> set keys) (map fst m)"; cases r')
        (auto simp: conform_dict_def VDict k range_conformance_def simp del: list.set_map set_map)
  qed
qed (simp_all add: conform_dict_def k fits.simps [of h s])

lemma conform_tuple_classified:
  assumes k: "ss_spec s = Some (KTuple cs)"
    and cls: "\<And>c v p. c \<in> set cs \<Longrightarrow> value_ok v \<Longrightarrow> \<exists>r. conform_at h c v p = Some r \<and> classified r (fits h c v) (in_range h c v)"
    and v: "value_ok v"
  shows "\<exists>c. conform_tuple s (map (\<lambda>c v p. conform_at h c v p) cs) v path = Some c \<and> classified c (fits h s v) (in_range h s v)"
proof (cases v)
  case (VTuple vs)
  let ?fs = "map (\<lambda>c. (\<lambda>v. fits h c v, \<lambda>v. in_range h c v)) cs"
  have fits: "fits h s v \<longleftrightarrow> list_all2 (\<lambda>f v. fst f v) ?fs vs" "in_range h s v \<longleftrightarrow> list_all2 (\<lambda>f v. snd f v) ?fs vs"
    unfolding fits.simps [of h s v] in_range.simps [of h s v] by (simp_all add: VTuple k children_def list_all2_map1)
  show ?thesis
  proof (cases "length vs = length cs")
    case True
    have "list_all2 (classifies (set vs)) (map (\<lambda>c v p. conform_at h c v p) cs) ?fs"
      using cls v VTuple by (auto simp: list_all2_conv_all_nth classifies_def)
    from tuple_loop_classified [OF this, of path 0 None] True fits show ?thesis
      by (simp add: conform_tuple_def VTuple k)
  next
    case False
    then have "\<not> fits h s v" using fits by (auto dest: list_all2_lengthD)
    with False show ?thesis by (simp add: conform_tuple_def VTuple k)
  qed
qed (simp_all add: conform_tuple_def k fits.simps [of h s])

lemma conform_classified:
  assumes "validate_space_at h s p0 = Some (Inr ())" "value_ok v"
  shows "\<exists>c. conform_at h s v path = Some c \<and> classified c (fits h s v) (in_range h s v)"
  using assms
proof (induction s arbitrary: p0 v path rule: space_induct)
  case (space s)
  note run = conform_at.simps [of h s] space_type_of_def and val = space.prems(1) [unfolded validate_space_at.simps [of h s] space_type_of_def]
  show ?case
  proof (cases "ss_spec s")
    case None
    then show ?thesis using val by simp
  next
    case (Some k)
    show ?thesis
    proof (cases k)
      case (KBox b)
      then show ?thesis using val Some conform_box_classified [OF _ _ space.prems(2), of h s p0] by (simp add: run)
    next
      case (KDiscrete n start)
      then show ?thesis using val Some conform_discrete_classified by (simp add: run)
    next
      case KMultiBinary
      then show ?thesis using val Some conform_multibinary_classified space.prems(2) by (simp add: run)
    next
      case (KMultiDiscrete nvec)
      then show ?thesis using Some conform_multidiscrete_classified by (simp add: run)
    next
      case (KText mn mx charset)
      then show ?thesis using Some conform_text_classified space.prems(2) by (simp add: run)
    next
      case (KDict keys cs)
      have cs: "children s = cs" using Some KDict by (simp add: children_def)
      note ok = validate_dict_ok [OF space.prems(1) Some [unfolded KDict]]
      have "\<exists>r. conform_at h c v p = Some r \<and> classified r (fits h c v) (in_range h c v)"
        if "c \<in> set cs" "value_ok v" for c v p using space.IH [of c] cs ok(4) that by blast
      from conform_dict_classified [OF Some [unfolded KDict] ok(1) this space.prems(2)] show ?thesis
        using Some KDict cs by (simp add: run)
    next
      case (KTuple cs)
      have cs: "children s = cs" using Some KTuple by (simp add: children_def)
      have "\<exists>r. conform_at h c v p = Some r \<and> classified r (fits h c v) (in_range h c v)"
        if "c \<in> set cs" "value_ok v" for c v p
        using space.IH [of c] cs validate_tuple_ok [OF space.prems(1) Some [unfolded KTuple]] that by blast
      from conform_tuple_classified [OF Some [unfolded KTuple] this space.prems(2)] show ?thesis
        using Some KTuple cs by (simp add: run)
    qed
  qed
qed

section \<open>Integer values on the wire\<close>

text \<open>The indices of a Discrete or MultiDiscrete value, as its leaf carries them.\<close>

definition indices :: "space_value \<Rightarrow> i64 list" where
  "indices v = (case v of VDiscrete i \<Rightarrow> [i] | VMultiDiscrete is \<Rightarrow> is | _ \<Rightarrow> [])"

lemma encode_i64_list:
  assumes "dt \<noteq> DUnspecified" "\<forall>v \<in> set vs. canonical h dt (SInt v)"
  shows "\<exists>bs. encode_i64_scalars h vs dt = Some (Inr bs) \<and> length bs = length vs * dtype_size dt \<and>
    decode_scalars h bs dt = Some (Inr (map SInt vs))"
proof -
  have "\<forall>v \<in> set (map SInt vs). \<exists>b. encode_one h v dt = Some b \<and> length b = dtype_size dt \<and> decode_scalar h b dt = Some v"
    using assms(2) codec_int by auto
  from encode_decode_list [OF this assms(1)] show ?thesis by (simp add: encode_scalars_def encode_i64_scalars_def)
qed

lemma range_between:
  "is_ok (check_int_in_dtype_range a dt) \<Longrightarrow> is_ok (check_int_in_dtype_range b dt) \<Longrightarrow> a \<le> x \<Longrightarrow> x \<le> b \<Longrightarrow>
   is_ok (check_int_in_dtype_range x dt)"
  by (cases dt) (auto simp: check_int_in_dtype_range_def split: if_splits)

lemma discrete_canonical:
  assumes "validate_discrete_at s p = Some (Inr ())" "ss_spec s = Some (KDiscrete n start)"
    "sint start \<le> sint i" "sint i < sint start + sint n"
  shows "canonical h (ss_dtype s) (SInt i)"
proof -
  have "is_integer (ss_dtype s)" "is_ok (check_int_in_dtype_range (sint start) (ss_dtype s))"
    "is_ok (check_int_in_dtype_range (sint start + (sint n - 1)) (ss_dtype s))"
    using assms(1,2) by (auto simp: validate_discrete_at_def is_integer_def i64_checked_add_def split: if_splits option.splits)
  with range_between [of "sint start" _ "sint start + (sint n - 1)" "sint i"] assms(3,4) show ?thesis by (simp add: canonical_def)
qed

lemma md_nvec_ok:
  "md_nvec dt path i ns = Inr () \<Longrightarrow> n \<in> set ns \<Longrightarrow> is_ok (check_int_in_dtype_range (sint n - 1) dt)"
  by (induction dt path i ns rule: md_nvec.induct) (auto split: if_splits)

lemma zero_in_range: "is_integer dt \<Longrightarrow> is_ok (check_int_in_dtype_range 0 dt)"
  by (auto simp: is_integer_def check_int_in_dtype_range_def)

lemma multidiscrete_canonical:
  assumes "validate_multidiscrete_at s p = Some (Inr ())" "ss_spec s = Some (KMultiDiscrete nvec)"
    "list_all2 (\<lambda>v n. 0 \<le> sint v \<and> sint v < sint n) vs nvec" "v \<in> set vs"
  shows "canonical h (ss_dtype s) (SInt v)"
proof -
  have int: "is_integer (ss_dtype s)" and ok: "md_nvec (ss_dtype s) p 0 nvec = Inr ()"
    using assms(1,2) by (auto simp: validate_multidiscrete_at_def res_simps split: if_splits)
  obtain n where "n \<in> set nvec" "0 \<le> sint v" "sint v \<le> sint n - 1"
    using assms(3,4) by (fastforce simp: list_all2_conv_all_nth in_set_conv_nth)
  with range_between [OF zero_in_range [OF int] md_nvec_ok [OF ok]] int show ?thesis by (simp add: canonical_def)
qed

section \<open>Bounds of the builders\<close>

lemma first_error_ok: "first_error f xs = Inr () \<longleftrightarrow> (\<forall>x \<in> set xs. f x = Inr ())"
  by (induction xs) (auto simp: res_simps)

lemma bound_encode_error_ok: "bound_encode_error r = Some (Inr a) \<longleftrightarrow> r = Some (Inr a)"
  by (auto simp: bound_encode_error_def split: option.splits sum.splits)

lemma encode_int_bound_exact:
  assumes "encode_int_bound h vs dt = Some (Inr bs)" "is_integer dt"
  shows "decode_scalars h bs dt = Some (Inr (map SInt vs))"
proof -
  have dt: "dt \<noteq> DUnspecified" using assms(2) by (auto simp: is_integer_def)
  have "\<forall>v \<in> set vs. canonical h dt (SInt v)" "encode_i64_scalars h vs dt = Some (Inr bs)"
    using assms by (auto simp: encode_int_bound_def res_simps bound_encode_error_ok first_error_ok canonical_def)
  with encode_i64_list [OF dt, of vs h] show ?thesis by auto
qed

lemma uint_above_nonpos: "k \<le> 0 \<Longrightarrow> k \<le> uint (v :: i64)"
proof -
  assume "k \<le> 0"
  also have "0 \<le> uint v" by simp
  finally show ?thesis .
qed

lemma uint_check_canonical:
  assumes "is_integer dt" "check_uint_in_dtype_range (uint v) dt = Inr ()"
  shows "canonical h dt (SInt v)"
proof (cases "dt = Uint64")
  case False
  then have le: "uint v \<le> i64_max" using assms by (cases dt) (auto simp: check_uint_in_dtype_range_def is_integer_def split: if_splits)
  have "sint v = signed_take_bit 63 (uint v)" by (simp add: sint_uint)
  also have "\<dots> = uint v"
  proof (rule signed_take_bit_int_eq_self)
    show "- (2 ^ 63) \<le> uint v" by (rule uint_above_nonpos) simp
    show "uint v < 2 ^ 63" using le by simp
  qed
  finally have "sint v = uint v" .
  then show ?thesis using assms by (cases dt) (auto simp: canonical_def check_uint_in_dtype_range_def check_int_in_dtype_range_def is_integer_def
        intro: uint_above_nonpos split: if_splits)
qed (simp add: canonical_def)

lemma encode_uint_bound_exact:
  assumes "encode_uint_bound h vs dt = Some (Inr bs)" "is_integer dt"
  shows "decode_scalars h bs dt = Some (Inr (map SInt vs))"
proof -
  have dt: "dt \<noteq> DUnspecified" "dt \<notin> {Float16, Float32, Float64}" using assms(2) by (auto simp: is_integer_def)
  have "\<forall>v \<in> set vs. canonical h dt (SInt v)" "encode_i64_scalars h vs dt = Some (Inr bs)"
    using assms dt(2) uint_check_canonical [OF assms(2)]
    by (auto simp: encode_uint_bound_def res_simps bound_encode_error_ok first_error_ok)
  with encode_i64_list [OF dt(1), of vs h] show ?thesis by auto
qed

section \<open>Properties\<close>


text \<open>A dict of a bounded two-element image and a move, and values of it.\<close>

definition pad_spec :: space_spec where
  "pad_spec = SpaceSpec [] DUnspecified (Some (KDict [''img'', ''move'']
     [SpaceSpec [2] Uint8 (Some (KBox (Some (BTypedUniform [10] [20])))), SpaceSpec [] Int64 (Some (KDiscrete 4 0))]))"

definition pad_value :: "bytes \<Rightarrow> i64 \<Rightarrow> space_value" where
  "pad_value data i = VDict [(''img'', VBox (pair_tensor data)), (''move'', VDiscrete i)]"

lemma pad_spec_valid: "validate_space ieee_half pad_spec = Some (Inr ())"
  by (simp add: validate_space_def pad_spec_def validate_space_at.simps space_type_of_def validate_dict_at_def children_def
      validate_box_at_def validate_discrete_at_def bad_dim_def wrap_u_def checked_mul_def validate_typed_bounds_def decode_typed_def
      decode_scalars_def chunks_exact.simps decode_scalar_def i64_checked_add_def check_int_in_dtype_range_def
      scalar_gt_def cmp_typed_def cmp_int_def scalar_as_i64_def)

lemma pad_value_ok: "length data = 2 \<Longrightarrow> value_ok (pad_value data i)"
  by (simp add: pad_value_def pair_materializes bt_inv_def less_list_code less_char_def)




text \<open>
  C20. Validation keeps indices representable: every index of a value that conforms to a validated Discrete or
  MultiDiscrete space is encoded in the space's dtype without wrapping, and decodes to itself.
\<close>

theorem indices_lossless:
  assumes "validate_space h s = Some (Inr ())" "space_type_of s \<in> {TDiscrete, TMultiDiscrete}"
    "value_ok v" "conform h s v = Some COk"
  shows "\<exists>bs. encode_i64_scalars h (indices v) (ss_dtype s) = Some (Inr bs) \<and>
    length bs = length (indices v) * dtype_size (ss_dtype s) \<and>
    decode_scalars h bs (ss_dtype s) = Some (Inr (map SInt (indices v)))"
proof -
  have fits: "fits h s v"
    using conform_classified [OF assms(1) [unfolded validate_space_def] assms(3), of "''$''"] assms(4) by (auto simp: conform_def)
  have val: "validate_space_at h s ''$'' = Some (Inr ())" using assms(1) by (simp add: validate_space_def)
  have can: "ss_dtype s \<noteq> DUnspecified \<and> (\<forall>i \<in> set (indices v). canonical h (ss_dtype s) (SInt i))"
  proof (cases "space_type_of s = TDiscrete")
    case True
    then obtain n start where k: "ss_spec s = Some (KDiscrete n start)"
      by (auto simp: space_type_of_def split: option.splits space_kind.splits)
    with val have "validate_discrete_at s ''$'' = Some (Inr ())" by (simp add: validate_space_at.simps [of h s] space_type_of_def)
    then show ?thesis using discrete_canonical [OF _ k] fits k
      by (cases v) (auto simp: fits.simps [of h s] indices_def validate_discrete_at_def split: if_splits)
  next
    case False
    with assms(2) obtain nvec where k: "ss_spec s = Some (KMultiDiscrete nvec)"
      by (auto simp: space_type_of_def split: option.splits space_kind.splits)
    with val have "validate_multidiscrete_at s ''$'' = Some (Inr ())" by (simp add: validate_space_at.simps [of h s] space_type_of_def)
    then show ?thesis using multidiscrete_canonical [OF _ k] fits k
      by (cases v) (auto simp: fits.simps [of h s] indices_def validate_multidiscrete_at_def split: if_splits)
  qed
  then show ?thesis using encode_i64_list by blast
qed

definition move_spec :: space_spec where
  "move_spec = SpaceSpec [] Uint8 (Some (KDiscrete 4 252))"

theorem indices_lossless_witness:
  "\<exists>bs. encode_i64_scalars ieee_half [255] Uint8 = Some (Inr bs) \<and> length bs = 1 \<and>
    decode_scalars ieee_half bs Uint8 = Some (Inr [SInt 255])"
proof -
  have "validate_space ieee_half move_spec = Some (Inr ())"
    by (simp add: validate_space_def move_spec_def validate_space_at.simps space_type_of_def validate_discrete_at_def
        i64_checked_add_def check_int_in_dtype_range_def)
  moreover have "conform ieee_half move_spec (VDiscrete 255) = Some COk"
    by (simp add: conform_def move_spec_def conform_at.simps space_type_of_def contains_discrete_def structural_def)
  ultimately show ?thesis
    using indices_lossless [of ieee_half move_spec "VDiscrete 255"] by (simp add: move_spec_def space_type_of_def indices_def)
qed

text \<open>
  C21. A Box built from integer bounds carries exactly the bounds that were asked for: for every integer dtype, \<open>build\<close>
  either fails or gives typed bounds that decode to the same integers, signed or unsigned, none of them wrapped.
\<close>

theorem built_bounds_exact:
  assumes "box_build h b = Some (Inr s)" "is_integer (bb_dtype b)"
    "(low, high) = (case bb_bounds b of IntTensor l u \<Rightarrow> (l, u) | UintTensor l u \<Rightarrow> (l, u)
       | IntUniform l u \<Rightarrow> ([l], [u]) | UintUniform l u \<Rightarrow> ([l], [u]) | PReady _ \<Rightarrow> ([], []))" "\<nexists>r. bb_bounds b = PReady r"
  shows "\<exists>l u. ss_spec s \<in> {Some (KBox (Some (BTypedElementwise l u))), Some (KBox (Some (BTypedUniform l u)))} \<and>
    ss_shape s = bb_shape b \<and> ss_dtype s = bb_dtype b \<and> validate_space h s = Some (Inr ()) \<and>
    decode_scalars h l (bb_dtype b) = Some (Inr (map SInt low)) \<and> decode_scalars h u (bb_dtype b) = Some (Inr (map SInt high))"
proof -
  note exact = encode_int_bound_exact [OF _ assms(2)] encode_uint_bound_exact [OF _ assms(2)]
  show ?thesis
    using assms(1,3,4)
    by (cases "bb_bounds b") (fastforce simp: box_build_def build_spec_def res_simps dest: exact)+
qed

theorem built_bounds_exact_witness:
  "\<exists>s l u. box_build ieee_half ((box_int_scalar 3 7 [2])\<lparr>bb_dtype := Uint8\<rparr>) = Some (Inr s) \<and>
    validate_space ieee_half s = Some (Inr ()) \<and>
    decode_scalars ieee_half l Uint8 = Some (Inr [SInt 3]) \<and> decode_scalars ieee_half u Uint8 = Some (Inr [SInt 7])"
proof -
  let ?b = "(box_int_scalar 3 7 [2])\<lparr>bb_dtype := Uint8\<rparr>"
  have enc: "encode_int_bound ieee_half [v] Uint8 = Some (Inr [word_of_int (sint v)])" if "v \<in> {3, 7}" for v
    using that by (auto simp: encode_int_bound_def bound_encode_error_def check_int_in_dtype_range_def encode_i64_scalars_def
        encode_one_def wrap_u_def)
  have "\<exists>s. box_build ieee_half ?b = Some (Inr s)"
    by (simp add: box_build_def box_int_scalar_def enc build_spec_def validate_space_def validate_space_at.simps space_type_of_def
        validate_box_at_def bad_dim_def wrap_u_def checked_mul_def validate_typed_bounds_def decode_typed_def
        decode_scalars_def chunks_exact.simps decode_scalar_def scalar_gt_def cmp_typed_def cmp_int_def scalar_as_i64_def)
  then obtain s where s: "box_build ieee_half ?b = Some (Inr s)" ..
  from built_bounds_exact [OF s, of "[3]" "[7]"] s show ?thesis by (auto simp: box_int_scalar_def is_integer_def)
qed

end
