(* ===== verification/SpaceWalk.thy ===== *)
theory SpaceWalk
  imports SpaceConform
begin

text \<open>
  Flattening a value into its leaves and assembling it again are inverse on validated specs, and the number of leaves
  is exactly the number of leaf specs; the order is the declared one, whatever the order of the maps.
\<close>

section \<open>Sorted maps\<close>

lemma bt_keys_values: "bt_inv m \<Longrightarrow> m = map (\<lambda>k. (k, the (map_of m k))) (map fst m)"
proof (rule nth_equalityI)
  fix i assume m: "bt_inv m" and i: "i < length m"
  then have "map_of m (fst (m ! i)) = Some (snd (m ! i))" by (simp add: bt_map_of_mem [symmetric])
  then show "m ! i = map (\<lambda>k. (k, the (map_of m k))) (map fst m) ! i" using i by (simp add: prod_eq_iff)
qed simp

lemma bt_ext: "bt_inv m \<Longrightarrow> bt_inv m' \<Longrightarrow> map_of m = map_of m' \<Longrightarrow> m = m'"
proof -
  assume inv: "bt_inv m" "bt_inv m'" and eq: "map_of m = map_of m'"
  have "set (map fst m) = set (map fst m')" using eq by (metis dom_map_of_conv_image_fst list.set_map)
  then have "map fst m = map fst m'" using inv by (simp add: bt_inv_def strict_sorted_equal)
  then show ?thesis using bt_keys_values [OF inv(1)] bt_keys_values [OF inv(2)] eq by metis
qed

abbreviation bt_insert_all :: "('k::linorder \<times> 'v) list \<Rightarrow> ('k \<times> 'v) list \<Rightarrow> ('k \<times> 'v) list" where
  "bt_insert_all m kvs \<equiv> foldl (\<lambda>m (k, v). bt_insert k v m) m kvs"

lemma bt_insert_all_run:
  "bt_inv m \<Longrightarrow> distinct (map fst kvs) \<Longrightarrow>
   bt_inv (bt_insert_all m kvs) \<and> map_of (bt_insert_all m kvs) = map_of m ++ map_of kvs"
proof (induction kvs arbitrary: m)
  case (Cons kv kvs)
  obtain k v where kv: "kv = (k, v)" by (cases kv)
  have inv: "bt_inv (bt_insert k v m)" using Cons.prems(1) by (simp add: bt_insert_def bt_inv_update)
  have "map_of (bt_insert k v m) = (map_of m)(k \<mapsto> v)"
    using Cons.prems(1) by (auto simp: bt_insert_def bt_map_of_update)
  moreover have "map_of kvs k = None" using Cons.prems(2) kv by (auto simp: map_of_eq_None_iff)
  ultimately have eq: "map_of (bt_insert k v m) ++ map_of kvs = map_of m ++ map_of (kv # kvs)"
    by (auto simp: kv map_add_def fun_eq_iff split: option.split)
  have step: "bt_insert_all m (kv # kvs) = bt_insert_all (bt_insert k v m) kvs" by (simp add: kv)
  have "distinct (map fst kvs)" using Cons.prems(2) by simp
  from Cons.IH [OF inv this] show ?case unfolding step eq .
qed simp

section \<open>Leaf specs\<close>

lemma foldl_append: "foldl (\<lambda>o' f. f o') out (map (\<lambda>c o'. o' @ g c) cs) = out @ concat (map g cs)"
  by (induction cs arbitrary: out) simp_all

lemma collect_specs_append: "collect_specs s out = out @ leaf_specs s"
proof (induction s arbitrary: out rule: space_induct)
  case (space s)
  have eq: "map (\<lambda>c o'. collect_specs c o') (children s) = map (\<lambda>c o'. o' @ leaf_specs c) (children s)"
    using space by (auto simp: fun_eq_iff)
  show ?case
    unfolding leaf_specs_def
    by (simp add: collect_specs.simps [of s] eq foldl_append)
qed

lemma leaf_specs_composite: "is_composite s \<Longrightarrow> leaf_specs s = concat (map leaf_specs (children s))"
proof -
  assume c: "is_composite s"
  have "leaf_specs s = foldl (\<lambda>o' f. f o') [] (map (\<lambda>c o'. collect_specs c o') (children s))"
    using c by (simp add: leaf_specs_def collect_specs.simps [of s])
  also have "\<dots> = concat (map leaf_specs (children s))" by (simp only: collect_specs_append foldl_append append_Nil)
  finally show ?thesis .
qed

lemma leaf_specs_leaf: "\<not> is_composite s \<Longrightarrow> leaf_specs s = [s]"
  by (simp add: leaf_specs_def collect_specs.simps)

section \<open>Runs over the children\<close>

fun run_all :: "assembler list \<Rightarrow> space_value list \<Rightarrow> space_error + (space_value list \<times> space_value list)" where
  "run_all [] leaves = Inr ([], leaves)"
| "run_all (f # fs) leaves = bind_res (f leaves) (\<lambda>(v, rest). bind_res (run_all fs rest) (\<lambda>(vs, r). Inr (v # vs, r)))"

lemma assemble_tuple_run:
  "assemble_tuple fs acc leaves = bind_res (run_all fs leaves) (\<lambda>(vs, r). Inr (VTuple (acc @ vs), r))"
proof (induction fs arbitrary: acc leaves)
  case (Cons f fs)
  show ?case by (auto simp: Cons bind_res_def split: sum.splits prod.splits)
qed simp

lemma assemble_dict_run:
  "length keys = length fs \<Longrightarrow>
   assemble_dict (zip keys fs) m leaves = bind_res (run_all fs leaves) (\<lambda>(vs, r). Inr (VDict (bt_insert_all m (zip keys vs)), r))"
proof (induction fs arbitrary: keys m leaves)
  case (Cons f fs)
  then obtain k ks where "keys = k # ks" by (cases keys) auto
  with Cons show ?case by (auto simp: bind_res_def split: sum.splits prod.splits)
qed simp

lemma flatten_dict_run:
  "list_all2 (\<lambda>k v. map_of m k = Some v) keys vs \<Longrightarrow> length keys = length gs \<Longrightarrow>
   flatten_dict m (zip keys gs) out = flatten_tuple (zip gs vs) out"
proof (induction keys vs arbitrary: gs out rule: list_all2_induct)
  case (Cons k ks v vs)
  then obtain g gs' where "gs = g # gs'" by (cases gs) auto
  with Cons show ?case by (cases "g v out") simp_all
qed simp

text \<open>An assembler that consumes exactly \<open>n\<close> leaves, with the flattener that gives them back.\<close>

definition consumes :: "assembler \<Rightarrow> nat \<Rightarrow> flattener \<Rightarrow> bool" where
  "consumes f n g \<longleftrightarrow> (\<forall>leaves. if n \<le> length leaves
     then \<exists>v. f leaves = Inr (v, drop n leaves) \<and> (\<forall>out. g v out = Inr (out @ take n leaves))
     else \<exists>e. f leaves = Inl e)"

lemma run_all_consumes:
  assumes "\<forall>c \<in> set cs. consumes (f c) (n c) (g c)"
  shows "if sum_list (map n cs) \<le> length leaves
    then \<exists>vs. run_all (map f cs) leaves = Inr (vs, drop (sum_list (map n cs)) leaves) \<and> length vs = length cs \<and>
      (\<forall>out. flatten_tuple (zip (map g cs) vs) out = Inr (out @ take (sum_list (map n cs)) leaves))
    else \<exists>e. run_all (map f cs) leaves = Inl e"
  using assms
proof (induction cs arbitrary: leaves)
  case (Cons c cs)
  have c: "consumes (f c) (n c) (g c)" using Cons.prems by simp
  show ?case
  proof (cases "n c \<le> length leaves")
    case False
    with c obtain e where "f c leaves = Inl e" unfolding consumes_def by meson
    with False show ?thesis by auto
  next
    case True
    with c obtain v where v: "f c leaves = Inr (v, drop (n c) leaves)" "\<forall>out. g c v out = Inr (out @ take (n c) leaves)"
      unfolding consumes_def by meson
    have sum: "sum_list (map n (c # cs)) \<le> length leaves \<longleftrightarrow> sum_list (map n cs) \<le> length (drop (n c) leaves)" using True by auto
    note ih = Cons.IH [of "drop (n c) leaves"]
    show ?thesis
    proof (cases "sum_list (map n cs) \<le> length (drop (n c) leaves)")
      case True
      with ih Cons.prems obtain vs where vs: "run_all (map f cs) (drop (n c) leaves) = Inr (vs, drop (sum_list (map n cs)) (drop (n c) leaves))"
        "length vs = length cs" "\<forall>out. flatten_tuple (zip (map g cs) vs) out = Inr (out @ take (sum_list (map n cs)) (drop (n c) leaves))"
        by auto
      have "take (n c) leaves @ take (sum_list (map n cs)) (drop (n c) leaves) = take (n c + sum_list (map n cs)) leaves"
        by (simp add: take_add)
      then show ?thesis using v vs True sum
        by (simp add: add.commute)
    next
      case False
      with ih Cons.prems obtain e where "run_all (map f cs) (drop (n c) leaves) = Inl e" by auto
      with v False sum show ?thesis by simp
    qed
  qed
qed simp

lemma run_all_flattens:
  assumes "list_all2 (\<lambda>c v. \<exists>ls. (\<forall>out. g c v out = Inr (out @ ls)) \<and> (\<forall>rest. f c (ls @ rest) = Inr (v, rest))) cs vs"
  shows "\<exists>ls. (\<forall>out. flatten_tuple (zip (map g cs) vs) out = Inr (out @ ls)) \<and> (\<forall>rest. run_all (map f cs) (ls @ rest) = Inr (vs, rest))"
  using assms
proof (induction cs vs rule: list_all2_induct)
  case (Cons c cs v vs)
  then obtain l ls where "\<forall>out. g c v out = Inr (out @ l)" "\<forall>rest. f c (l @ rest) = Inr (v, rest)"
    "\<forall>out. flatten_tuple (zip (map g cs) vs) out = Inr (out @ ls)" "\<forall>rest. run_all (map f cs) (ls @ rest) = Inr (vs, rest)"
    by blast
  then show ?case by (intro exI [of _ "l @ ls"]) simp
qed simp

section \<open>Specs\<close>

lemma walk_dict:
  assumes "ss_spec s = Some (KDict keys cs)"
  shows "assemble_from s leaves = assemble_dict (zip keys (map (\<lambda>c l. assemble_from c l) cs)) [] leaves"
    "flatten_into s (VDict m) out = flatten_dict m (zip keys (map (\<lambda>c v o'. flatten_into c v o') cs)) out"
    "leaf_specs s = concat (map leaf_specs cs)"
  using leaf_specs_composite [of s] assms
  by (simp_all add: assemble_from.simps [of s] flatten_into.simps [of s] children_def is_composite_def)

lemma walk_tuple:
  assumes "ss_spec s = Some (KTuple cs)"
  shows "assemble_from s leaves = assemble_tuple (map (\<lambda>c l. assemble_from c l) cs) [] leaves"
    "length vs = length cs \<Longrightarrow> flatten_into s (VTuple vs) out = flatten_tuple (zip (map (\<lambda>c v o'. flatten_into c v o') cs) vs) out"
    "leaf_specs s = concat (map leaf_specs cs)"
  using leaf_specs_composite [of s] assms
  by (simp_all add: assemble_from.simps [of s] flatten_into.simps [of s] children_def is_composite_def)

lemma walk_leaf:
  assumes "\<not> is_composite s"
  shows "assemble_from s leaves = (case leaves of [] \<Rightarrow> Inl (Invalid ''$'' (Msg ''fewer leaves than spec expects'' [])) | v # rest \<Rightarrow> Inr (v, rest))"
    "flatten_into s v out = Inr (out @ [v])"
  using assms by (auto simp: assemble_from.simps [of s] flatten_into.simps [of s] is_composite_def split: option.splits space_kind.splits)

lemma is_composite_cases:
  obtains keys cs where "ss_spec s = Some (KDict keys cs)" | cs where "ss_spec s = Some (KTuple cs)" | "\<not> is_composite s"
  by (cases "ss_spec s"; cases "the (ss_spec s)") (auto simp: is_composite_def)

lemma map_of_insert_all:
  assumes "distinct keys" "length vs = length keys"
  shows "list_all2 (\<lambda>k v. map_of (bt_insert_all [] (zip keys vs)) k = Some v) keys vs" "bt_inv (bt_insert_all [] (zip keys vs))"
proof -
  have d: "distinct (map fst (zip keys vs))" using assms by simp
  have inv: "bt_inv []" by (simp add: bt_inv_def)
  note run = bt_insert_all_run [OF inv d]
  show "bt_inv (bt_insert_all [] (zip keys vs))" using run by blast
  have "map_of (zip keys vs) (keys ! i) = Some (vs ! i)" if "i < length keys" for i
    using assms that by (simp add: map_of_zip_nth)
  with run assms(2) show "list_all2 (\<lambda>k v. map_of (bt_insert_all [] (zip keys vs)) k = Some v) keys vs"
    by (simp add: list_all2_conv_all_nth)
qed

lemma sum_lengths: "length (concat (map f cs)) = sum_list (map (\<lambda>c. length (f c)) cs)"
  by (induction cs) simp_all

lemma space_consumes:
  assumes "validate_space_at h s p = Some (Inr ())"
  shows "consumes (assemble_from s) (length (leaf_specs s)) (flatten_into s)"
  using assms
proof (induction s arbitrary: p rule: space_induct)
  case (space s)
  show ?case
  proof (cases s rule: is_composite_cases)
    case (1 keys cs)
    note ok = validate_dict_ok [OF space.prems 1] and walk = walk_dict [OF 1]
    have "\<forall>c \<in> set cs. consumes (assemble_from c) (length (leaf_specs c)) (flatten_into c)"
    proof
      fix c assume c: "c \<in> set cs"
      then have "c \<in> set (children s)" using 1 by (simp add: children_def)
      then show "consumes (assemble_from c) (length (leaf_specs c)) (flatten_into c)" using space.IH ok(4) [OF c] by blast
    qed
    note run = run_all_consumes [OF this, folded sum_lengths, folded walk(3)]
    show ?thesis unfolding consumes_def
    proof (intro allI)
      fix leaves
      show "if length (leaf_specs s) \<le> length leaves
        then \<exists>v. assemble_from s leaves = Inr (v, drop (length (leaf_specs s)) leaves) \<and>
          (\<forall>out. flatten_into s v out = Inr (out @ take (length (leaf_specs s)) leaves))
        else \<exists>e. assemble_from s leaves = Inl e"
      proof (cases "length (leaf_specs s) \<le> length leaves")
        case True
        with run [of leaves] obtain vs where vs: "run_all (map assemble_from cs) leaves = Inr (vs, drop (length (leaf_specs s)) leaves)"
          "length vs = length cs" "\<forall>out. flatten_tuple (zip (map flatten_into cs) vs) out = Inr (out @ take (length (leaf_specs s)) leaves)"
          by auto
        note m = map_of_insert_all [OF ok(2), of vs]
        have "assemble_from s leaves = Inr (VDict (bt_insert_all [] (zip keys vs)), drop (length (leaf_specs s)) leaves)"
          using vs(1) ok(1) by (simp add: walk(1) assemble_dict_run)
        moreover have "flatten_into s (VDict (bt_insert_all [] (zip keys vs))) out = Inr (out @ take (length (leaf_specs s)) leaves)" for out
          using flatten_dict_run [OF m(1), of "map flatten_into cs"] vs(2,3) ok(1) by (simp add: walk(2))
        ultimately show ?thesis using True by auto
      next
        case False
        with run [of leaves] obtain e where "run_all (map assemble_from cs) leaves = Inl e" by auto
        with False ok(1) show ?thesis by (simp add: walk(1) assemble_dict_run)
      qed
    qed
  next
    case (2 cs)
    note walk = walk_tuple [OF 2]
    have "\<forall>c \<in> set cs. consumes (assemble_from c) (length (leaf_specs c)) (flatten_into c)"
    proof
      fix c assume c: "c \<in> set cs"
      then have "c \<in> set (children s)" using 2 by (simp add: children_def)
      then show "consumes (assemble_from c) (length (leaf_specs c)) (flatten_into c)"
        using space.IH validate_tuple_ok [OF space.prems 2 c] by blast
    qed
    note run = run_all_consumes [OF this, folded sum_lengths, folded walk(3)]
    show ?thesis unfolding consumes_def
    proof (intro allI)
      fix leaves
      show "if length (leaf_specs s) \<le> length leaves
        then \<exists>v. assemble_from s leaves = Inr (v, drop (length (leaf_specs s)) leaves) \<and>
          (\<forall>out. flatten_into s v out = Inr (out @ take (length (leaf_specs s)) leaves))
        else \<exists>e. assemble_from s leaves = Inl e"
        using run [of leaves] walk(2) by (auto simp: walk(1) assemble_tuple_run split: if_splits)
    qed
  next
    case 3
    then show ?thesis by (auto simp: consumes_def walk_leaf leaf_specs_leaf Suc_le_eq split: list.split)
  qed
qed

lemma rebuild_map:
  assumes "distinct keys" "bt_inv m" "set (map fst m) = set keys"
  shows "bt_insert_all [] (zip keys (map (\<lambda>k. the (map_of m k)) keys)) = m"
proof (rule bt_ext [OF _ assms(2)])
  let ?vs = "map (\<lambda>k. the (map_of m k)) keys"
  show "bt_inv (bt_insert_all [] (zip keys ?vs))" by (rule map_of_insert_all(2) [OF assms(1)]) simp
  have run: "map_of (bt_insert_all [] (zip keys ?vs)) = map_of (zip keys ?vs)"
    using bt_insert_all_run [of "[]" "zip keys ?vs"] assms(1) by (simp add: bt_inv_def)
  have dom: "map_of m k = None \<longleftrightarrow> k \<notin> set keys" for k
    using assms(3) by (simp add: map_of_eq_None_iff)
  show "map_of (bt_insert_all [] (zip keys ?vs)) = map_of m"
  proof
    fix k
    show "map_of (bt_insert_all [] (zip keys ?vs)) k = map_of m k"
      unfolding run using dom [of k] by (cases "map_of m k") (simp_all add: map_of_zip_map)
  qed
qed

lemma fits_dictE:
  assumes "fits h s v" "ss_spec s = Some (KDict keys cs)"
  obtains m where "v = VDict m" "set (map fst m) = set keys"
    "list_all2 (\<lambda>k c. \<exists>w. map_of m k = Some w \<and> fits h c w) keys cs"
proof -
  obtain m where m: "v = VDict m" using assms by (cases v) (simp_all add: fits.simps [of h s])
  with assms have "set (map fst m) = set keys"
    "list_all2 (\<lambda>k c. case map_of m k of Some w \<Rightarrow> fits h c w | None \<Rightarrow> False) keys cs"
    by (simp_all add: fits.simps [of h s] children_def list_all2_map2)
  moreover from this(2) have "list_all2 (\<lambda>k c. \<exists>w. map_of m k = Some w \<and> fits h c w) keys cs"
    by (rule list_all2_mono) (auto split: option.splits)
  ultimately show thesis using that m by blast
qed

lemma space_flattens:
  assumes "validate_space_at h s p = Some (Inr ())" "fits h s v" "value_ok v"
  shows "\<exists>ls. (\<forall>out. flatten_into s v out = Inr (out @ ls)) \<and> (\<forall>rest. assemble_from s (ls @ rest) = Inr (v, rest))"
  using assms
proof (induction s arbitrary: p v rule: space_induct)
  case (space s)
  let ?P = "\<lambda>c v. \<exists>ls. (\<forall>out. flatten_into c v out = Inr (out @ ls)) \<and> (\<forall>rest. assemble_from c (ls @ rest) = Inr (v, rest))"
  show ?case
  proof (cases s rule: is_composite_cases)
    case (1 keys cs)
    note ok = validate_dict_ok [OF space.prems(1) 1] and walk = walk_dict [OF 1]
    from space.prems(2) 1 obtain m where m: "v = VDict m" "set (map fst m) = set keys"
      "list_all2 (\<lambda>k c. \<exists>w. map_of m k = Some w \<and> fits h c w) keys cs" by (rule fits_dictE)
    let ?vs = "map (\<lambda>k. the (map_of m k)) keys"
    have inv: "bt_inv m" and vals: "\<forall>x \<in> set m. value_ok (snd x)" using space.prems(3) m(1) by simp_all
    have vs: "list_all2 (\<lambda>k v. map_of m k = Some v) keys ?vs"
      unfolding list_all2_conv_all_nth using list_all2_nthD [OF m(3)] by fastforce
    have "list_all2 ?P cs ?vs"
      unfolding list_all2_conv_all_nth
    proof (intro conjI allI impI)
      fix i assume i: "i < length cs"
      then obtain w where w: "map_of m (keys ! i) = Some w" "fits h (cs ! i) w"
        using list_all2_nthD2 [OF m(3) i] by blast
      have c: "cs ! i \<in> set cs" using i by simp
      have "value_ok w" using bspec [OF vals map_of_SomeD [OF w(1)]] by simp
      obtain p' where p': "validate_space_at h (cs ! i) p' = Some (Inr ())" using ok(4) [OF c] by blast
      have "cs ! i \<in> set (children s)" using c 1 by (simp add: children_def)
      from space.IH [OF this p' w(2) \<open>value_ok w\<close>] show "?P (cs ! i) (?vs ! i)" using w(1) i ok(1) by simp
    qed (use ok(1) in simp)
    from run_all_flattens [OF this] obtain ls where
      ls: "\<forall>out. flatten_tuple (zip (map flatten_into cs) ?vs) out = Inr (out @ ls)" "\<forall>rest. run_all (map assemble_from cs) (ls @ rest) = Inr (?vs, rest)"
      by blast
    have "bt_insert_all [] (zip keys ?vs) = m" by (rule rebuild_map [OF ok(2) inv m(2)])
    then have "assemble_from s (ls @ rest) = Inr (v, rest)" for rest
      using ls(2) ok(1) by (simp add: walk(1) assemble_dict_run m(1))
    moreover have "flatten_into s v out = Inr (out @ ls)" for out
      using flatten_dict_run [OF vs, of "map flatten_into cs"] ls(1) ok(1) by (simp add: m(1) walk(2))
    ultimately show ?thesis by blast
  next
    case (2 cs)
    note walk = walk_tuple [OF 2]
    obtain vs where v: "v = VTuple vs" "list_all2 (\<lambda>c v. fits h c v) cs vs"
      using space.prems(2) 2 by (cases v) (simp_all add: fits.simps [of h s] children_def list_all2_map1)
    then have len: "length vs = length cs" by (simp add: list_all2_lengthD)
    have "list_all2 ?P cs vs"
      unfolding list_all2_conv_all_nth
    proof (intro conjI allI impI)
      fix i assume i: "i < length cs"
      then have c: "cs ! i \<in> set cs" "fits h (cs ! i) (vs ! i)" "value_ok (vs ! i)"
        using v space.prems(3) len by (simp_all add: list_all2_conv_all_nth)
      obtain p' where p': "validate_space_at h (cs ! i) p' = Some (Inr ())" using validate_tuple_ok [OF space.prems(1) 2 c(1)] by blast
      have "cs ! i \<in> set (children s)" using c 2 by (simp add: children_def)
      from space.IH [OF this p' c(2,3)] show "?P (cs ! i) (vs ! i)" .
    qed (use len in simp)
    from run_all_flattens [OF this] obtain ls where
      ls: "\<forall>out. flatten_tuple (zip (map flatten_into cs) vs) out = Inr (out @ ls)" "\<forall>rest. run_all (map assemble_from cs) (ls @ rest) = Inr (vs, rest)"
      by blast
    have "assemble_from s (ls @ rest) = Inr (v, rest)" for rest using ls(2) by (simp add: v(1) walk(1) assemble_tuple_run)
    moreover have "flatten_into s v out = Inr (out @ ls)" for out using ls(1) by (simp add: v(1) walk(2) [OF len])
    ultimately show ?thesis by blast
  next
    case 3
    then show ?thesis by (intro exI [of _ "[v]"]) (simp add: walk_leaf)
  qed
qed

section \<open>Properties\<close>



text \<open>
  C18. Assembling succeeds exactly when there is one leaf value per leaf spec, so a wrong count never truncates or
  drops leaves, and flattening what was assembled gives exactly the leaves back.
\<close>

theorem assemble_exact:
  assumes "validate_space h s = Some (Inr ())"
  shows "((\<exists>v. assemble_value s ls = Inr v \<and> flatten_leaves s v = Inr ls) \<longleftrightarrow> length ls = length (leaf_specs s)) \<and>
    ((\<exists>e. assemble_value s ls = Inl e) \<longleftrightarrow> length ls \<noteq> length (leaf_specs s))"
proof -
  note c = space_consumes [OF assms [unfolded validate_space_def], unfolded consumes_def, THEN spec, of ls]
  show ?thesis
  proof (cases "length (leaf_specs s) \<le> length ls")
    case True
    with c obtain v where "assemble_from s ls = Inr (v, drop (length (leaf_specs s)) ls)"
      "\<forall>out. flatten_into s v out = Inr (out @ take (length (leaf_specs s)) ls)" by auto
    with True show ?thesis by (cases "length ls = length (leaf_specs s)") (simp_all add: assemble_value_def flatten_leaves_def)
  next
    case False
    with c obtain e where "assemble_from s ls = Inl e" by auto
    with False show ?thesis by (auto simp: assemble_value_def)
  qed
qed

theorem assemble_exact_witness:
  "(\<exists>e. assemble_value pad_spec [VDiscrete 1] = Inl e) \<longleftrightarrow> length [VDiscrete 1] \<noteq> length (leaf_specs pad_spec)"
  using assemble_exact [OF pad_spec_valid, of "[VDiscrete 1]"] by blast

end
