(* ===== verification/Spec2Isabelle.thy ===== *)
theory Spec2Isabelle
  imports Prelude Float64 OrdMap Proto Editions DTypes SessionSpec Relay Telemetry Episodes
    RouteState DriverState Driver DriverInv DriverRun DriverShape DriverLoop DriverTrace Ledger Evictions History Tensors Scalars BoxScan SpaceSpecs SpaceValues SpaceConform SpaceWalk
begin

text \<open>
  A verification development of the RL runtime in \<open>crates/rlmesh-runtime\<close> and the parts of
  \<open>crates/rlmesh-proto\<close> and \<open>crates/rlmesh-spaces\<close> it rests on.
\<close>

end
